(* ===== verification/Prelude.thy ===== *)
theory Prelude
  imports Complex_Main "HOL-Library.Word"
begin

text \<open>
  Shared vocabulary of the development: Go's clock and durations, 64-bit signed wrap-around, the
  pseudo-random draw of \<^verbatim>\<open>rand.Int63n\<close>, error values with their unwrap chain, and the
  projection of a DNS message that the sources read.  The named collections \<open>guard_defs\<close> (small
  definitions every component proof unfolds) and \<open>guard_bounds\<close> (facts about ranges) are declared
  here.
\<close>

named_theorems guard_defs \<open>small definitions unfolded by component proofs\<close>
named_theorems guard_bounds \<open>range facts about delays and counters\<close>

section \<open>Durations and instants\<close>

text \<open>
  A \<^verbatim>\<open>time.Duration\<close> is a signed count of nanoseconds; an instant is the count of
  nanoseconds since the Unix epoch.  The zero \<^verbatim>\<open>time.Time\<close> is the first of January of
  year one, 62135596800 seconds before the epoch.
\<close>

type_synonym duration = int
type_synonym instant = int

definition millisecond :: duration where [guard_defs]: "millisecond = 1000000"
definition second :: duration where [guard_defs]: "second = 1000000000"
definition minute :: duration where [guard_defs]: "minute = 60000000000"

definition zero_time :: instant where [guard_defs]: "zero_time = - 62135596800000000000"

definition wrap64 :: "int \<Rightarrow> int" where
  "wrap64 x = (x + 2 ^ 63) mod 2 ^ 64 - 2 ^ 63"

text \<open>\<^verbatim>\<open>Time.Sub\<close> saturates at the extreme durations.\<close>

definition time_sub :: "instant \<Rightarrow> instant \<Rightarrow> duration" where
  "time_sub t u = max (- (2 ^ 63)) (min (2 ^ 63 - 1) (t - u))"

text \<open>\<^verbatim>\<open>Duration.Seconds\<close> as an exact rational: float rounding is not modelled.\<close>

definition seconds :: "duration \<Rightarrow> rat" where
  "seconds d = of_int d / 1000000000"

text \<open>\<^verbatim>\<open>rand.Int63n(n)\<close>: the generator state is an arbitrary number, the draw is its
  residue, so every value of \<open>[0, n)\<close> is drawn by some state and no other value is.\<close>

definition int63n :: "nat \<Rightarrow> int \<Rightarrow> int" where
  "int63n seed n = int seed mod n"

section \<open>Errors\<close>

text \<open>
  A Go error: the identity that \<^verbatim>\<open>errors.Is\<close> compares, the text of
  \<^verbatim>\<open>Error()\<close>, and the errors it unwraps to.
\<close>

datatype goerr = GoErr (err_ident: string) (err_text: string) (err_unwrap: "goerr list")

definition error_new :: "string \<Rightarrow> goerr" where
  "error_new s = GoErr s s []"

definition error_wrap :: "string \<Rightarrow> goerr \<Rightarrow> goerr" where
  "error_wrap prefix e = GoErr [] (prefix @ '': '' @ err_text e) [e]"

text \<open>The \<^verbatim>\<open>%q\<close> verb on printable ASCII without quotes or backslashes.\<close>

definition go_quote :: "string \<Rightarrow> string" where
  "go_quote s = [CHR 0x22] @ s @ [CHR 0x22]"

definition context_Canceled :: goerr where
  "context_Canceled = error_new ''context canceled''"

definition context_DeadlineExceeded :: goerr where
  "context_DeadlineExceeded = error_new ''context deadline exceeded''"

section \<open>DNS messages\<close>

text \<open>
  The fields of a \<^verbatim>\<open>dns.Msg\<close> that the sources read or write.  A record is its type
  number and, for an address record, the printed address.
\<close>

record dns_rr =
  rr_type :: nat
  rr_addr :: string

record dns_question =
  q_name :: string
  q_type :: nat

record dns_msg =
  m_id :: nat
  m_response :: bool
  m_rcode :: int
  m_checking_disabled :: bool
  m_edns :: "(nat \<times> bool) option"
  m_question :: "dns_question list"
  m_answer :: "dns_rr list"

definition dns_TypeA :: nat where [guard_defs]: "dns_TypeA = 1"
definition dns_TypeRRSIG :: nat where [guard_defs]: "dns_TypeRRSIG = 46"
definition RcodeSuccess :: int where [guard_defs]: "RcodeSuccess = 0"
definition RcodeServerFailure :: int where [guard_defs]: "RcodeServerFailure = 2"

section \<open>Registration with MosDNS\<close>

text \<open>What a package's \<^verbatim>\<open>init\<close> registers: a plugin type with its constructor, an executable with its
  quick set-up, or a command.\<close>

datatype registration = RegNewPluginFunc string | MustRegExecQuickSetup string | AddSubCmd string

section \<open>Generic lemmas\<close>

lemma wrap64_id [simp]: "- (2 ^ 63) \<le> x \<Longrightarrow> x < 2 ^ 63 \<Longrightarrow> wrap64 x = x"
  by (simp add: wrap64_def)

lemma wrap64_range [guard_bounds]: "- (2 ^ 63) \<le> wrap64 x \<and> wrap64 x < 2 ^ 63"
  by (simp add: wrap64_def)

lemma time_sub_exact [simp]:
  "- (2 ^ 63) \<le> t - u \<Longrightarrow> t - u < 2 ^ 63 \<Longrightarrow> time_sub t u = t - u"
  by (simp add: time_sub_def)

lemma time_sub_less_iff: "d < 2 ^ 63 \<Longrightarrow> - (2 ^ 63) < d \<Longrightarrow> time_sub t u < d \<longleftrightarrow> t - u < d"
  by (auto simp: time_sub_def)

lemma time_sub_gt_iff: "d < 2 ^ 63 - 1 \<Longrightarrow> - (2 ^ 63) \<le> d \<Longrightarrow> d < time_sub t u \<longleftrightarrow> d < t - u"
  by (auto simp: time_sub_def)

lemma int63n_range [guard_bounds]: "0 < n \<Longrightarrow> 0 \<le> int63n seed n \<and> int63n seed n < n"
  by (simp add: int63n_def)

lemma int63n_surj: "0 \<le> k \<Longrightarrow> k < n \<Longrightarrow> int63n (nat k) n = k"
  by (simp add: int63n_def)

lemma seconds_mono [simp]: "seconds a \<le> seconds b \<longleftrightarrow> a \<le> b"
  by (simp add: seconds_def divide_le_cancel)

lemma seconds_0 [simp]: "seconds 0 = 0"
  by (simp add: seconds_def)

end
