(* ===== verification/GoStrings.thy ===== *)
theory GoStrings
  imports Prelude "HOL-Library.Sublist"
begin

text \<open>
  The part of Go's \<^verbatim>\<open>strings\<close>, \<^verbatim>\<open>unicode/utf8\<close>, \<^verbatim>\<open>bytes\<close> and
  \<^verbatim>\<open>strconv\<close> packages that the sources use, on strings as byte sequences (\<open>char list\<close>).
  White space is that of \<^verbatim>\<open>unicode.IsSpace\<close>, given by its UTF-8 encodings; the
  lower-case table of non-ASCII runes is a parameter.
\<close>

abbreviation code_of :: "char \<Rightarrow> nat" where
  "code_of c \<equiv> of_char c"

section \<open>Searching\<close>

definition strings_HasPrefix :: "string \<Rightarrow> string \<Rightarrow> bool" where
  "strings_HasPrefix s p = prefix p s"

fun strings_Contains :: "string \<Rightarrow> string \<Rightarrow> bool" where
  "strings_Contains [] sub = (sub = [])"
| "strings_Contains (c # s) sub = (prefix sub (c # s) \<or> strings_Contains s sub)"

definition strings_TrimSuffix :: "string \<Rightarrow> string \<Rightarrow> string" where
  "strings_TrimSuffix s suf = (if suffix suf s then take (length s - length suf) s else s)"

definition strings_Count :: "string \<Rightarrow> char \<Rightarrow> nat" where
  "strings_Count s c = length (filter (\<lambda>x. x = c) s)"

text \<open>\<^verbatim>\<open>IndexByte\<close>: the position of the first occurrence.\<close>

fun index_byte :: "string \<Rightarrow> char \<Rightarrow> nat option" where
  "index_byte [] b = None"
| "index_byte (c # s) b = (if c = b then Some 0 else map_option Suc (index_byte s b))"

text \<open>\<^verbatim>\<open>strings.Cut\<close> around a one-byte separator.\<close>

fun strings_Cut :: "string \<Rightarrow> char \<Rightarrow> string \<times> string \<times> bool" where
  "strings_Cut [] sep = ([], [], False)"
| "strings_Cut (c # s) sep =
     (if c = sep then ([], s, True)
      else case strings_Cut s sep of (before, after, found) \<Rightarrow> (c # before, after, found))"

text \<open>\<^verbatim>\<open>strings.Split\<close> and \<^verbatim>\<open>strings.Join\<close> with a one-byte separator.\<close>

fun strings_Split :: "string \<Rightarrow> char \<Rightarrow> string list" where
  "strings_Split [] sep = [[]]"
| "strings_Split (c # s) sep =
     (if c = sep then [] # strings_Split s sep
      else case strings_Split s sep of [] \<Rightarrow> [[c]] | w # ws \<Rightarrow> (c # w) # ws)"

fun strings_Join :: "string list \<Rightarrow> char \<Rightarrow> string" where
  "strings_Join [] sep = []"
| "strings_Join [w] sep = w"
| "strings_Join (w # ws) sep = w @ sep # strings_Join ws sep"

text \<open>\<^verbatim>\<open>strings.ReplaceAll\<close> with a non-empty needle: left to right, not overlapping.\<close>

function strings_ReplaceAll :: "string \<Rightarrow> string \<Rightarrow> string \<Rightarrow> string" where
  "strings_ReplaceAll s old new =
     (if s = [] \<or> old = [] then s
      else if prefix old s then new @ strings_ReplaceAll (drop (length old) s) old new
      else hd s # strings_ReplaceAll (tl s) old new)"
  by pat_completeness auto
termination
  by (relation "measure (\<lambda>(s, old, new). length s)") (auto simp: Suc_le_eq)

declare strings_ReplaceAll.simps [simp del]

section \<open>White space and UTF-8\<close>

definition ascii_spaces :: "string list" where
  "ascii_spaces = [[CHR 0x20], [CHR 0x09], [CHR 0x0A], [CHR 0x0B], [CHR 0x0C], [CHR 0x0D]]"

definition space_runes :: "string list" where
  "space_runes = ascii_spaces @
     [[CHR 0xC2, CHR 0x85], [CHR 0xC2, CHR 0xA0], [CHR 0xE1, CHR 0x9A, CHR 0x80],
      [CHR 0xE2, CHR 0x80, CHR 0x80], [CHR 0xE2, CHR 0x80, CHR 0x81], [CHR 0xE2, CHR 0x80, CHR 0x82],
      [CHR 0xE2, CHR 0x80, CHR 0x83], [CHR 0xE2, CHR 0x80, CHR 0x84], [CHR 0xE2, CHR 0x80, CHR 0x85],
      [CHR 0xE2, CHR 0x80, CHR 0x86], [CHR 0xE2, CHR 0x80, CHR 0x87], [CHR 0xE2, CHR 0x80, CHR 0x88],
      [CHR 0xE2, CHR 0x80, CHR 0x89], [CHR 0xE2, CHR 0x80, CHR 0x8A], [CHR 0xE2, CHR 0x80, CHR 0xA8],
      [CHR 0xE2, CHR 0x80, CHR 0xA9], [CHR 0xE2, CHR 0x80, CHR 0xAF], [CHR 0xE2, CHR 0x81, CHR 0x9F],
      [CHR 0xE3, CHR 0x80, CHR 0x80]]"

lemma space_runes_nonempty: "e \<in> set space_runes \<Longrightarrow> e \<noteq> []"
  by (auto simp: space_runes_def ascii_spaces_def)

function trim_left :: "string \<Rightarrow> string" where
  "trim_left s =
     (case find (\<lambda>e. prefix e s) space_runes of
        None \<Rightarrow> s
      | Some e \<Rightarrow> trim_left (drop (length e) s))"
  by pat_completeness auto
termination
proof (relation "measure length")
  fix s e assume "find (\<lambda>e. prefix e s) space_runes = Some e"
  then have "e \<in> set space_runes" "prefix e s" by (auto simp: find_Some_iff)
  then have "e \<noteq> []" "length e \<le> length s"
    using space_runes_nonempty by (auto dest: prefix_length_le)
  then show "(drop (length e) s, s) \<in> measure length" by (cases s; cases e) auto
qed simp

function trim_right :: "string \<Rightarrow> string" where
  "trim_right s =
     (case find (\<lambda>e. suffix e s) space_runes of
        None \<Rightarrow> s
      | Some e \<Rightarrow> trim_right (take (length s - length e) s))"
  by pat_completeness auto
termination
proof (relation "measure length")
  fix s e assume "find (\<lambda>e. suffix e s) space_runes = Some e"
  then have "e \<in> set space_runes" "suffix e s" by (auto simp: find_Some_iff)
  then have "e \<noteq> []" "length e \<le> length s"
    using space_runes_nonempty by (auto dest: suffix_length_le)
  then show "(take (length s - length e) s, s) \<in> measure length" by (cases s; cases e) auto
qed simp

declare trim_left.simps [simp del] trim_right.simps [simp del]

definition strings_TrimSpace :: "string \<Rightarrow> string" where
  "strings_TrimSpace s = trim_right (trim_left s)"

text \<open>The length of the UTF-8 sequence at the front of a string, \<open>None\<close> where it is ill-formed.\<close>

definition is_cont :: "char \<Rightarrow> bool" where
  "is_cont c \<longleftrightarrow> 0x80 \<le> code_of c \<and> code_of c \<le> 0xBF"

definition second_ok :: "char \<Rightarrow> char \<Rightarrow> bool" where
  "second_ok a b \<longleftrightarrow>
     (let x = code_of a; y = code_of b
      in is_cont b \<and> (x = 0xE0 \<longrightarrow> 0xA0 \<le> y) \<and> (x = 0xED \<longrightarrow> y \<le> 0x9F)
         \<and> (x = 0xF0 \<longrightarrow> 0x90 \<le> y) \<and> (x = 0xF4 \<longrightarrow> y \<le> 0x8F))"

fun rune_len :: "string \<Rightarrow> nat option" where
  "rune_len [] = None"
| "rune_len (a # s) =
     (let x = code_of a
      in if x < 0x80 then Some 1
         else case s of
           [] \<Rightarrow> None
         | b # s2 \<Rightarrow>
             if 0xC2 \<le> x \<and> x \<le> 0xDF then (if is_cont b then Some 2 else None)
             else if \<not> second_ok a b then None
             else (case s2 of
                [] \<Rightarrow> None
              | c # s3 \<Rightarrow>
                  if 0xE0 \<le> x \<and> x \<le> 0xEF then (if is_cont c then Some 3 else None)
                  else if 0xF0 \<le> x \<and> x \<le> 0xF4 then
                    (case s3 of [] \<Rightarrow> None | d # _ \<Rightarrow> if is_cont c \<and> is_cont d then Some 4 else None)
                  else None))"

lemma rune_len_pos: "rune_len s = Some n \<Longrightarrow> 0 < n \<and> n \<le> length s"
  by (cases s) (auto simp: Let_def split: if_splits list.splits)

text \<open>\<^verbatim>\<open>for _, r := range s\<close>: the runes of a string, an ill-formed byte alone.\<close>

function runes :: "string \<Rightarrow> string list" where
  "runes s =
     (if s = [] then []
      else case rune_len s of
        None \<Rightarrow> take 1 s # runes (drop 1 s)
      | Some n \<Rightarrow> take n s # runes (drop n s))"
  by pat_completeness auto
termination
  by (relation "measure length") (auto dest: rune_len_pos)

declare runes.simps [simp del]

definition utf8_ValidString :: "string \<Rightarrow> bool" where
  "utf8_ValidString s = list_all (\<lambda>r. rune_len r = Some (length r)) (runes s)"

definition contains_space :: "string \<Rightarrow> bool" where
  "contains_space s = list_ex (\<lambda>r. r \<in> set space_runes) (runes s)"

text \<open>\<^verbatim>\<open>strings.ToLower\<close>: ASCII letters, the parameter on other runes, the replacement
  character for an ill-formed byte.\<close>

definition ascii_lower :: "char \<Rightarrow> char" where
  "ascii_lower c = (if 65 \<le> code_of c \<and> code_of c \<le> 90 then char_of (code_of c + 32) else c)"

definition lower_rune :: "(string \<Rightarrow> string) \<Rightarrow> string \<Rightarrow> string" where
  "lower_rune unicode_lower r =
     (if rune_len r \<noteq> Some (length r) then [CHR 0xEF, CHR 0xBF, CHR 0xBD]
      else if length r = 1 then map ascii_lower r else unicode_lower r)"

definition strings_ToLower :: "(string \<Rightarrow> string) \<Rightarrow> string \<Rightarrow> string" where
  "strings_ToLower unicode_lower s = concat (map (lower_rune unicode_lower) (runes s))"

section \<open>Decimal numbers\<close>

definition digit :: "nat \<Rightarrow> char" where
  "digit n = char_of (48 + n)"

definition is_digit :: "char \<Rightarrow> bool" where
  "is_digit c \<longleftrightarrow> 48 \<le> code_of c \<and> code_of c \<le> 57"

fun decimal :: "nat \<Rightarrow> string" where
  "decimal n = (if n < 10 then [digit n] else decimal (n div 10) @ [digit (n mod 10)])"

declare decimal.simps [simp del]

definition strconv_Itoa :: "int \<Rightarrow> string" where
  "strconv_Itoa n = (if n < 0 then CHR ''-'' # decimal (nat (- n)) else decimal (nat n))"

text \<open>\<^verbatim>\<open>Duration.String\<close>: the lowest \<open>prec\<close> digits of a number as a fraction without trailing
  zeros; a unit below a second, or hours, minutes and seconds.\<close>

fun padded :: "nat \<Rightarrow> nat \<Rightarrow> string" where
  "padded 0 n = []"
| "padded (Suc k) n = padded k (n div 10) @ [digit (n mod 10)]"

lemma padded_numeral [simp]:
  "padded (numeral k) n = padded (pred_numeral k) (n div 10) @ [digit (n mod 10)]"
  unfolding numeral_eq_Suc [of k] by (rule padded.simps(2))

definition fraction :: "nat \<Rightarrow> nat \<Rightarrow> string" where
  "fraction prec n =
     (let ds = rev (dropWhile ((=) (CHR ''0'')) (rev (padded prec n)))
      in if ds = [] then [] else CHR ''.'' # ds)"

definition duration_String :: "duration \<Rightarrow> string" where
  "duration_String d =
     (let u = nat \<bar>d\<bar>; secs = u div 10 ^ 9; mins = secs div 60; hours = mins div 60
      in (if d < 0 then ''-'' else [])
       @ (if u = 0 then ''0s''
          else if u < 10 ^ 3 then decimal u @ ''ns''
          else if u < 10 ^ 6 then decimal (u div 10 ^ 3) @ fraction 3 u @ [CHR 0xC2, CHR 0xB5, CHR ''s'']
          else if u < 10 ^ 9 then decimal (u div 10 ^ 6) @ fraction 6 u @ ''ms''
          else (if 0 < hours then decimal hours @ ''h'' else [])
             @ (if 0 < mins then decimal (mins mod 60) @ ''m'' else [])
             @ decimal (secs mod 60) @ fraction 9 u @ ''s''))"

definition digits_value :: "string \<Rightarrow> int" where
  "digits_value s = foldl (\<lambda>acc c. 10 * acc + (int (code_of c) - 48)) 0 s"

text \<open>\<^verbatim>\<open>strconv.Atoi\<close> on a 64-bit target, \<open>None\<close> for a syntax or range error.\<close>

definition strconv_Atoi :: "string \<Rightarrow> int option" where
  "strconv_Atoi s =
     (let (neg, body) = (case s of [] \<Rightarrow> (False, [])
            | c # r \<Rightarrow> if c = CHR ''-'' then (True, r) else if c = CHR ''+'' then (False, r) else (False, s));
          v = (if neg then - digits_value body else digits_value body)
      in if body = [] \<or> \<not> list_all is_digit body then None
         else if v < - (2 ^ 63) \<or> 2 ^ 63 \<le> v then None else Some v)"

section \<open>Lemmas\<close>

subsection \<open>Searching\<close>

lemma strings_Contains_iff: "strings_Contains s sub \<longleftrightarrow> sublist sub s"
  by (induction s) (auto simp: sublist_Cons_right)

lemma index_byte_None [simp]: "index_byte s b = None \<longleftrightarrow> b \<notin> set s"
  by (induction s) auto

lemma index_byte_Some:
  "index_byte s b = Some n \<Longrightarrow> n < length s \<and> s ! n = b \<and> b \<notin> set (take n s)"
  by (induction s arbitrary: n) (auto split: if_splits simp: nth_Cons')

lemma strings_Cut_not_found: "sep \<notin> set s \<Longrightarrow> strings_Cut s sep = (s, [], False)"
  by (induction s) auto

lemma strings_Cut_append [simp]: "sep \<notin> set a \<Longrightarrow> strings_Cut (a @ sep # b) sep = (a, b, True)"
  by (induction a) auto

lemma strings_Cut_found:
  "strings_Cut s sep = (a, b, True) \<Longrightarrow> s = a @ sep # b \<and> sep \<notin> set a"
  by (induction s arbitrary: a) (auto split: if_splits prod.splits)

lemma strings_Count_0 [simp]: "strings_Count s c = 0 \<longleftrightarrow> c \<notin> set s"
  by (auto simp: strings_Count_def filter_empty_conv)

lemma strings_Count_Nil [simp]: "strings_Count [] c = 0"
  by simp

lemma strings_Count_append [simp]: "strings_Count (a @ b) c = strings_Count a c + strings_Count b c"
  by (simp add: strings_Count_def)

lemma strings_Count_Cons [simp]:
  "strings_Count (x # s) c = (if x = c then Suc (strings_Count s c) else strings_Count s c)"
  by (simp add: strings_Count_def)

lemma strings_Split_nonempty [simp]: "strings_Split s sep \<noteq> []"
  by (cases s) (auto split: list.splits)

lemma strings_Split_no_sep: "sep \<notin> set s \<Longrightarrow> strings_Split s sep = [s]"
  by (induction s) auto

lemma strings_Split_append: "sep \<notin> set a \<Longrightarrow> strings_Split (a @ sep # b) sep = a # strings_Split b sep"
  by (induction a) auto

lemma strings_Join_Cons: "ws \<noteq> [] \<Longrightarrow> strings_Join (w # ws) sep = w @ sep # strings_Join ws sep"
  by (cases ws) auto

text \<open>Splitting what was joined from pieces without the separator gives the pieces back.\<close>

lemma strings_Split_Join:
  "ws \<noteq> [] \<Longrightarrow> \<forall>w\<in>set ws. sep \<notin> set w \<Longrightarrow> strings_Split (strings_Join ws sep) sep = ws"
proof (induction ws)
  case (Cons w ws)
  then show ?case
    by (cases "ws = []") (auto simp: strings_Join_Cons strings_Split_append strings_Split_no_sep)
qed simp

lemma strings_Split_pieces: "w \<in> set (strings_Split s sep) \<Longrightarrow> sep \<notin> set w \<and> set w \<subseteq> set s"
  by (induction s arbitrary: w) (fastforce split: if_splits list.splits)+

lemma strings_Join_Split: "strings_Join (strings_Split s sep) sep = s"
proof (induction s)
  case (Cons c s)
  then show ?case
    by (cases "strings_Split s sep"; cases "tl (strings_Split s sep)")
      (auto simp: strings_Join_Cons split: list.splits)
qed simp

text \<open>What replaces an occurring needle occurs in the result.\<close>

lemma strings_ReplaceAll_inserts:
  "old \<noteq> [] \<Longrightarrow> sublist old s \<Longrightarrow> sublist new (strings_ReplaceAll s old new)"
proof (induction s old new rule: strings_ReplaceAll.induct)
  case (1 s old new)
  then have s: "s \<noteq> []" by auto
  show ?case
  proof (cases "prefix old s")
    case True
    then show ?thesis using 1 s by (subst strings_ReplaceAll.simps) (auto intro: sublist_appendI)
  next
    case False
    then have "sublist old (tl s)" using "1.prems"(2) s by (cases s) (auto simp: sublist_Cons_right)
    with False 1 s show ?thesis
      by (subst strings_ReplaceAll.simps) (auto simp: sublist_Cons_right)
  qed
qed

subsection \<open>Decimal numbers\<close>

lemma code_of_digit [simp]: "n < 10 \<Longrightarrow> code_of (digit n) = 48 + n"
  by (simp add: digit_def)

lemma digit_literals [simp]:
  "digit 0 = CHR ''0''" "digit (Suc 0) = CHR ''1''" "digit 1 = CHR ''1''" "digit 2 = CHR ''2''"
  "digit 3 = CHR ''3''" "digit 4 = CHR ''4''" "digit 5 = CHR ''5''" "digit 6 = CHR ''6''"
  "digit 7 = CHR ''7''" "digit 8 = CHR ''8''" "digit 9 = CHR ''9''"
  by (simp_all add: digit_def char_of_def bit_0)

lemma is_digit_digit [simp]: "n < 10 \<Longrightarrow> is_digit (digit n)"
  by (simp add: is_digit_def)

lemma decimal_nonempty [simp]: "decimal n \<noteq> []"
  by (subst decimal.simps) simp

lemma decimal_digits: "list_all is_digit (decimal n)"
proof (induction n rule: decimal.induct)
  case (1 n)
  show ?case
    by (subst decimal.simps) (use 1 in auto)
qed

lemma digits_value_snoc: "digits_value (s @ [c]) = 10 * digits_value s + (int (code_of c) - 48)"
  by (simp add: digits_value_def)

lemma digits_value_decimal [simp]: "digits_value (decimal n) = int n"
proof (induction n rule: decimal.induct)
  case (1 n)
  show ?case
  proof (cases "n < 10")
    case True
    then show ?thesis by (subst decimal.simps) (simp add: digits_value_def)
  next
    case False
    moreover have "10 * int (n div 10) + int (n mod 10) = int n" by presburger
    ultimately show ?thesis
      by (subst decimal.simps) (use 1 in \<open>simp add: digits_value_snoc\<close>)
  qed
qed

lemma decimal_hd: "is_digit (hd (decimal n))"
  using decimal_digits [of n] decimal_nonempty [of n] by (cases "decimal n") auto

lemma strconv_Atoi_Itoa:
  assumes "0 \<le> n" "n < 2 ^ 63"
  shows "strconv_Atoi (strconv_Itoa n) = Some n"
proof -
  obtain c r where d: "decimal (nat n) = c # r" by (cases "decimal (nat n)") auto
  have "is_digit c" using decimal_hd [of "nat n"] d by simp
  then have "c \<noteq> CHR ''-''" "c \<noteq> CHR ''+''" by (auto simp: is_digit_def)
  moreover have "digits_value (c # r) = n" "list_all is_digit (c # r)"
    using digits_value_decimal [of "nat n"] decimal_digits [of "nat n"] assms d by auto
  ultimately show ?thesis using assms d by (simp add: strconv_Atoi_def strconv_Itoa_def)
qed

subsection \<open>White space\<close>

definition no_space_edges :: "string \<Rightarrow> bool" where
  "no_space_edges s \<longleftrightarrow> (\<forall>e\<in>set space_runes. \<not> prefix e s \<and> \<not> suffix e s)"

lemma trim_left_id: "\<forall>e\<in>set space_runes. \<not> prefix e s \<Longrightarrow> trim_left s = s"
  by (subst trim_left.simps) (auto split: option.splits simp: find_Some_iff)

lemma trim_right_id: "\<forall>e\<in>set space_runes. \<not> suffix e s \<Longrightarrow> trim_right s = s"
  by (subst trim_right.simps) (auto split: option.splits simp: find_Some_iff)

lemma strings_TrimSpace_id: "no_space_edges s \<Longrightarrow> strings_TrimSpace s = s"
  by (simp add: strings_TrimSpace_def no_space_edges_def trim_left_id trim_right_id)

subsection \<open>ASCII strings\<close>

definition ascii :: "string \<Rightarrow> bool" where
  "ascii s \<longleftrightarrow> (\<forall>c\<in>set s. code_of c < 0x80)"

lemma ascii_simps [simp]:
  "ascii []" "ascii (c # s) \<longleftrightarrow> code_of c < 0x80 \<and> ascii s" "ascii (s @ t) \<longleftrightarrow> ascii s \<and> ascii t"
  by (auto simp: ascii_def)

lemma rune_len_ascii: "code_of c < 0x80 \<Longrightarrow> rune_len (c # s) = Some 1"
  by (simp add: Let_def)

lemma runes_ascii: "ascii s \<Longrightarrow> runes s = map (\<lambda>c. [c]) s"
proof (induction s)
  case (Cons c s)
  then show ?case by (subst runes.simps) (simp add: rune_len_ascii)
qed (subst runes.simps, simp)

lemma utf8_ascii: "ascii s \<Longrightarrow> utf8_ValidString s"
  by (auto simp: utf8_ValidString_def runes_ascii list_all_iff ascii_def rune_len_ascii)

lemma lower_rune_ascii: "code_of c < 0x80 \<Longrightarrow> lower_rune lower [c] = [ascii_lower c]"
  by (simp add: lower_rune_def rune_len_ascii del: rune_len.simps)

lemma lower_ascii: "ascii s \<Longrightarrow> strings_ToLower lower s = map ascii_lower s"
  unfolding strings_ToLower_def by (simp add: runes_ascii) (induction s; simp add: lower_rune_ascii)

lemma contains_space_ascii:
  "ascii s \<Longrightarrow> contains_space s \<longleftrightarrow> (\<exists>c\<in>set s. c \<in> {CHR 0x20, CHR 0x09, CHR 0x0A, CHR 0x0B, CHR 0x0C, CHR 0x0D})"
  by (auto simp: contains_space_def runes_ascii list_ex_iff space_runes_def ascii_spaces_def)

end
