(* ===== verification/FileSystem.thy ===== *)
theory FileSystem
  imports Prelude
begin

text \<open>
  The file operations the sources use, on a file system that maps paths to contents.  Every call can
  fail: the parameter of type \<open>os\<close> says, per operation, which error the kernel reports and what a
  failed write leaves behind.  Operations return the error (if any) and the new file system, and
  compose with \<open>andthen\<close>, which stops at the first error as the early returns of the code do.
\<close>

section \<open>State, faults, sequencing\<close>

type_synonym fs = "string \<rightharpoonup> string"

datatype io_op =
    MkdirAll string
  | Stat string
  | OpenRead string
  | OpenWrite string
  | CopyData string
  | CloseFile string
  | ChmodFile string
  | Rename string string
  | Remove string
  | Chown string
  | LookupUser string

record os =
  os_fault :: "io_op \<Rightarrow> goerr option"
  os_partial :: "string \<Rightarrow> string"

definition errNotExist :: goerr where
  "errNotExist = error_new ''file does not exist''"

type_synonym action = "fs \<Rightarrow> goerr option \<times> fs"

definition andthen :: "action \<Rightarrow> action \<Rightarrow> action" where
  "andthen f g s = (case f s of (Some e, s') \<Rightarrow> (Some e, s') | (None, s') \<Rightarrow> g s')"

fun for_each :: "('a \<Rightarrow> action) \<Rightarrow> 'a list \<Rightarrow> action" where
  "for_each f [] s = (None, s)"
| "for_each f (x # xs) s = andthen (f x) (for_each f xs) s"

section \<open>Operations\<close>

text \<open>\<^verbatim>\<open>os.Stat\<close>: absent files report \<^verbatim>\<open>ErrNotExist\<close>.\<close>

definition os_Stat :: "os \<Rightarrow> string \<Rightarrow> fs \<Rightarrow> goerr option" where
  "os_Stat os path s =
     (case os_fault os (Stat path) of
        Some e \<Rightarrow> Some e
      | None \<Rightarrow> if s path = None then Some errNotExist else None)"

definition os_ReadFile :: "os \<Rightarrow> string \<Rightarrow> fs \<Rightarrow> goerr + string" where
  "os_ReadFile os path s =
     (case os_fault os (OpenRead path) of
        Some e \<Rightarrow> Inl e
      | None \<Rightarrow> (case s path of None \<Rightarrow> Inl errNotExist | Some c \<Rightarrow> Inr c))"

text \<open>\<^verbatim>\<open>os.Remove\<close> with its error ignored, as everywhere in the sources.\<close>

definition os_Remove :: "os \<Rightarrow> string \<Rightarrow> fs \<Rightarrow> fs" where
  "os_Remove os path s = (if os_fault os (Remove path) = None then s(path := None) else s)"

definition os_Rename :: "os \<Rightarrow> string \<Rightarrow> string \<Rightarrow> action" where
  "os_Rename os src dst s =
     (case os_fault os (Rename src dst) of
        Some e \<Rightarrow> (Some e, s)
      | None \<Rightarrow> (None, (s(dst := s src))(src := None)))"

text \<open>\<^verbatim>\<open>os.WriteFile\<close>: open with truncation, write, close.\<close>

definition os_WriteFile :: "os \<Rightarrow> string \<Rightarrow> string \<Rightarrow> action" where
  "os_WriteFile os path data s =
     (case os_fault os (OpenWrite path) of
        Some e \<Rightarrow> (Some e, s)
      | None \<Rightarrow>
          (case os_fault os (CopyData path) of
             Some e \<Rightarrow> (Some e, s(path \<mapsto> os_partial os path))
           | None \<Rightarrow>
               (case os_fault os (CloseFile path) of
                  Some e \<Rightarrow> (Some e, s(path \<mapsto> data))
                | None \<Rightarrow> (None, s(path \<mapsto> data)))))"

text \<open>An operating system on which nothing fails.\<close>

definition os_fine :: os where
  "os_fine = \<lparr>os_fault = (\<lambda>_. None), os_partial = (\<lambda>_. [])\<rparr>"

section \<open>Lemmas\<close>

lemma andthen_None: "andthen f g s = (None, s'') \<longleftrightarrow> (\<exists>s'. f s = (None, s') \<and> g s' = (None, s''))"
  by (auto simp: andthen_def split: prod.splits option.splits)

lemma andthen_Some:
  "andthen f g s = (Some e, s'') \<longleftrightarrow>
     f s = (Some e, s'') \<or> (\<exists>s'. f s = (None, s') \<and> g s' = (Some e, s''))"
  by (auto simp: andthen_def split: prod.splits option.splits)

text \<open>A property of the file system that every action of a sequence keeps is kept by the sequence.\<close>

lemma andthen_keeps:
  assumes "\<And>s. P s \<Longrightarrow> P (snd (f s))" "\<And>s. P s \<Longrightarrow> P (snd (g s))" "P s"
  shows "P (snd (andthen f g s))"
  using assms(1) [OF assms(3)] assms(2) [of "snd (f s)"]
  by (auto simp: andthen_def split: prod.splits option.splits)

lemma for_each_keeps:
  assumes "\<And>x s. x \<in> set xs \<Longrightarrow> P s \<Longrightarrow> P (snd (f x s))" "P s"
  shows "P (snd (for_each f xs s))"
  using assms
proof (induction xs arbitrary: s)
  case (Cons x xs)
  then show ?case
    unfolding for_each.simps by (intro andthen_keeps [where P = P]) auto
qed simp

lemma os_fine_fault [simp]: "os_fault os_fine op = None"
  by (simp add: os_fine_def)

lemma os_Remove_other [simp]: "p \<noteq> path \<Longrightarrow> os_Remove os path s p = s p"
  by (simp add: os_Remove_def)

lemma os_WriteFile_other [simp]: "p \<noteq> path \<Longrightarrow> snd (os_WriteFile os path data s) p = s p"
  by (auto simp: os_WriteFile_def split: option.splits)

lemma os_WriteFile_ok: "os_WriteFile os path data s = (None, s') \<Longrightarrow> s' = s(path \<mapsto> data)"
  by (auto simp: os_WriteFile_def split: option.splits)

end
