(* ===== verification/Contracts.thy ===== *)
theory Contracts
  imports FileSystem
begin

text \<open>
  Two contracts that several components rely on.

  \<open>keyed_store\<close>: state shared by goroutines under one mutex and updated one key at a time (the
  supervisor's components, its provider statistics, the labelled counters of two plugins).  Its
  client lemmas say that the value under a key depends only on the updates of that key, in their
  order, however they are interleaved with the updates of other keys.

  \<open>atomic_update\<close>: replacing a file through a temporary one.  Its client lemmas say that after any
  number of updates, under any faults, the target holds its first content or the complete content
  of the last update that succeeded.
\<close>

section \<open>Stores updated by key\<close>

text \<open>A sequence of updates, each a key and a change of the value under it.\<close>

definition run_updates :: "('k \<Rightarrow> ('v \<Rightarrow> 'v) \<Rightarrow> 's \<Rightarrow> 's) \<Rightarrow> ('k \<times> ('v \<Rightarrow> 'v)) list \<Rightarrow> 's \<Rightarrow> 's" where
  "run_updates put us s = fold (\<lambda>(k, f). put k f) us s"

definition changes_of :: "'k \<Rightarrow> ('k \<times> ('v \<Rightarrow> 'v)) list \<Rightarrow> ('v \<Rightarrow> 'v) list" where
  "changes_of k us = map snd (filter (\<lambda>u. fst u = k) us)"

lemma run_updates_simps [simp]:
  "run_updates put [] s = s"
  "run_updates put ((k, f) # us) s = run_updates put us (put k f s)"
  "run_updates put (us @ vs) s = run_updates put vs (run_updates put us s)"
  by (simp_all add: run_updates_def)

lemma changes_of_simps [simp]:
  "changes_of k [] = []"
  "changes_of k ((k', f) # us) = (if k' = k then f # changes_of k us else changes_of k us)"
  "changes_of k (us @ vs) = changes_of k us @ changes_of k vs"
  by (simp_all add: changes_of_def)

locale keyed_store =
  fixes get :: "'k \<Rightarrow> 's \<Rightarrow> 'v"
    and put :: "'k \<Rightarrow> ('v \<Rightarrow> 'v) \<Rightarrow> 's \<Rightarrow> 's"
  assumes get_put: "get k (put k f s) = f (get k s)"
    and get_put_other: "k' \<noteq> k \<Longrightarrow> get k' (put k f s) = get k' s"
begin

lemma get_put_if: "get k' (put k f s) = (if k' = k then f (get k s) else get k' s)"
  by (simp add: get_put get_put_other)

text \<open>The value under a key is its own updates folded over its first value.\<close>

lemma get_run: "get k (run_updates put us s) = fold id (changes_of k us) (get k s)"
  by (induction us arbitrary: s) (auto simp: get_put_if split: prod.splits)

text \<open>Two runs that agree on the updates of a key agree on its value: the interleaving with other keys
  does not matter.\<close>

lemma run_interleaving:
  "changes_of k us = changes_of k vs \<Longrightarrow> get k (run_updates put us s) = get k (run_updates put vs s)"
  by (simp add: get_run)

lemma run_untouched: "k \<notin> fst ` set us \<Longrightarrow> get k (run_updates put us s) = get k s"
  by (induction us arbitrary: s) (auto simp: get_put_other)

text \<open>A property that every update of a key keeps holds of its value after the run.\<close>

lemma run_invariant:
  assumes "\<And>f v. (k, f) \<in> set us \<Longrightarrow> P v \<Longrightarrow> P (f v)" "P (get k s)"
  shows "P (get k (run_updates put us s))"
  using assms
proof (induction us arbitrary: s)
  case (Cons u us)
  obtain k' f where u: "u = (k', f)" by fastforce
  have "P (get k (put k' f s))"
    using Cons.prems by (auto simp: u get_put_if)
  then show ?case using Cons by (simp add: u)
qed simp

end

section \<open>Atomic replacement of files\<close>

text \<open>A history of attempts, each with its own faults and argument: the results and the final files.\<close>

fun update_attempts :: "(os \<Rightarrow> 'x \<Rightarrow> string \<Rightarrow> action) \<Rightarrow> string \<Rightarrow> (os \<times> 'x) list \<Rightarrow> fs \<Rightarrow> goerr option list \<times> fs" where
  "update_attempts update path [] s = ([], s)"
| "update_attempts update path ((os, x) # us) s =
     (case update os x path s of (r, s1) \<Rightarrow> case update_attempts update path us s1 of (rs, s2) \<Rightarrow> (r # rs, s2))"

text \<open>
  \<open>update os x path\<close> replaces the file at a path; \<open>content x\<close> is what a successful update puts there,
  and \<open>tmp path\<close> the temporary file it uses.
\<close>

locale atomic_update =
  fixes update :: "os \<Rightarrow> 'x \<Rightarrow> string \<Rightarrow> action"
    and content :: "'x \<Rightarrow> fs \<Rightarrow> string option"
    and tmp :: "string \<Rightarrow> string"
  assumes target: "tmp path \<noteq> path \<Longrightarrow> update os x path s = (r, s') \<Longrightarrow>
      s' path = (if r = None then content x s else s path)"
    and present: "tmp path \<noteq> path \<Longrightarrow> update os x path s = (None, s') \<Longrightarrow> content x s \<noteq> None"
    and frame: "tmp path \<noteq> path \<Longrightarrow> update os x path s = (r, s') \<Longrightarrow> q \<noteq> path \<Longrightarrow> q \<noteq> tmp path \<Longrightarrow> s' q = s q"
begin

lemma never_removed: "tmp path \<noteq> path \<Longrightarrow> s path \<noteq> None \<Longrightarrow> snd (update os x path s) path \<noteq> None"
  using target [of path os x s] present [of path os x s] by (cases "update os x path s") (auto split: if_splits)

lemma attempts_frame:
  "tmp path \<noteq> path \<Longrightarrow> q \<noteq> path \<Longrightarrow> q \<noteq> tmp path \<Longrightarrow> snd (update_attempts update path us s) q = s q"
proof (induction us arbitrary: s)
  case (Cons u us)
  obtain os x where u: "u = (os, x)" by fastforce
  obtain r s1 where "update os x path s = (r, s1)" by fastforce
  with Cons frame [of path os x s r s1 q] show ?case by (simp add: u split_beta)
qed simp

text \<open>After any attempts the target is as at the start, or holds the complete content of one of the
  updates, the state of which it was taken from being that of the start outside the two files.\<close>

lemma attempts_whole:
  assumes tmp: "tmp path \<noteq> path"
  shows "snd (update_attempts update path us s) path = s path \<or>
    (\<exists>os x s0. (os, x) \<in> set us \<and> snd (update_attempts update path us s) path = content x s0 \<and> content x s0 \<noteq> None
       \<and> (\<forall>q. q \<noteq> path \<and> q \<noteq> tmp path \<longrightarrow> s0 q = s q))"
proof (induction us arbitrary: s)
  case (Cons v us)
  obtain os x where v: "v = (os, x)" by fastforce
  obtain r s1 where u: "update os x path s = (r, s1)" by fastforce
  have fr: "\<forall>q. q \<noteq> path \<and> q \<noteq> tmp path \<longrightarrow> s1 q = s q" using frame [OF tmp u] by blast
  have out: "snd (update_attempts update path (v # us) s) = snd (update_attempts update path us s1)"
    by (simp add: u v split_beta)
  from Cons.IH [of s1] show ?case
  proof
    assume same: "snd (update_attempts update path us s1) path = s1 path"
    show ?thesis
    proof (cases r)
      case None
      then have "s1 path = content x s" "content x s \<noteq> None"
        using target [OF tmp u] present [OF tmp] u by auto
      then show ?thesis unfolding out same by (intro disjI2 exI [of _ os] exI [of _ x] exI [of _ s]) (simp add: v)
    next
      case Some
      then show ?thesis using target [OF tmp u] out same by simp
    qed
  next
    assume "\<exists>os x s0. (os, x) \<in> set us \<and> snd (update_attempts update path us s1) path = content x s0 \<and> content x s0 \<noteq> None
      \<and> (\<forall>q. q \<noteq> path \<and> q \<noteq> tmp path \<longrightarrow> s0 q = s1 q)"
    with fr out show ?thesis by (metis list.set_intros(2))
  qed
qed simp

end

end
