(* ===== verification/Config.thy ===== *)
theory Config
  imports GoStrings Contracts
begin

text \<open>
  cmd/guarddns/config.go: the environment configuration (\<^verbatim>\<open>LOG_LEVEL\<close>,
  \<^verbatim>\<open>AUTO_FORWARD\<close>), the preparation of the runtime directory (default domain lists, trust
  anchor, rendered configuration files) and its two file helpers.  The environment, the kernel's
  answers, the account database and \<^verbatim>\<open>unbound-checkconf\<close> are parameters.
\<close>

section \<open>Environment\<close>

record config =
  cfg_autoForwardRaw :: string
  cfg_autoEnabled :: bool
  cfg_autoDNS :: string
  cfg_logLevel :: string
  cfg_unboundLog :: string

definition envDefault :: "(string \<Rightarrow> string) \<Rightarrow> string \<Rightarrow> string \<Rightarrow> string" where
  "envDefault getenv name fallback = (if getenv name \<noteq> [] then getenv name else fallback)"

text \<open>\<^verbatim>\<open>safeHost\<close>: \<^verbatim>\<open>^[A-Za-z0-9._-]+$\<close>\<close>

definition safe_char :: "char \<Rightarrow> bool" where
  "safe_char c \<longleftrightarrow>
     (let x = code_of c
      in (65 \<le> x \<and> x \<le> 90) \<or> (97 \<le> x \<and> x \<le> 122) \<or> (48 \<le> x \<and> x \<le> 57)
         \<or> c = CHR ''.'' \<or> c = CHR ''_'' \<or> c = CHR ''-'')"

definition safeHost :: "string \<Rightarrow> bool" where
  "safeHost s \<longleftrightarrow> s \<noteq> [] \<and> list_all safe_char s"

definition net_JoinHostPort :: "string \<Rightarrow> string \<Rightarrow> string" where
  "net_JoinHostPort host port =
     (if CHR '':'' \<in> set host then ''['' @ host @ '']:'' @ port else host @ '':'' @ port)"

definition parseForwardEndpoint :: "string \<Rightarrow> goerr + (string \<times> string)" where
  "parseForwardEndpoint value =
     (if 1 < strings_Count value (CHR '':'')
      then Inl (error_new ''AUTO_FORWARD supports hostname or IPv4 host[:port]'')
      else
        let (host, port) =
          (if strings_Count value (CHR '':'') = 0 then (value, ''53'')
           else case strings_Cut value (CHR '':'') of (h, p, _) \<Rightarrow> (h, p))
        in if host = [] then Inl (error_new ''AUTO_FORWARD host must not be empty'')
           else if \<not> safeHost host then Inl (error_new ''AUTO_FORWARD host contains invalid characters'')
           else case strconv_Atoi port of
               None \<Rightarrow> Inl (error_new ''AUTO_FORWARD port must be an integer'')
             | Some number \<Rightarrow>
                 if number < 1 \<or> 65535 < number
                 then Inl (error_new ''AUTO_FORWARD port must be between 1 and 65535'')
                 else Inr (host, strconv_Itoa number))"

definition unbound_verbosity :: "string \<Rightarrow> string option" where
  "unbound_verbosity level =
     (if level = ''debug'' then Some ''3''
      else if level = ''info'' then Some ''2''
      else if level = ''warn'' then Some ''0''
      else if level = ''error'' then Some ''0''
      else None)"

definition loadConfig :: "(string \<Rightarrow> string) \<Rightarrow> goerr + config" where
  "loadConfig getenv =
     (let raw = envDefault getenv ''AUTO_FORWARD'' ''no'';
          level = envDefault getenv ''LOG_LEVEL'' ''warn''
      in case unbound_verbosity level of
           None \<Rightarrow> Inl (error_new ''LOG_LEVEL must be debug, info, warn, or error'')
         | Some verbosity \<Rightarrow>
             let cfg = \<lparr>cfg_autoForwardRaw = raw, cfg_autoEnabled = False, cfg_autoDNS = [],
                        cfg_logLevel = level, cfg_unboundLog = verbosity\<rparr>
             in if raw = ''no'' then Inr cfg
                else case parseForwardEndpoint raw of
                    Inl e \<Rightarrow> Inl e
                  | Inr (host, port) \<Rightarrow>
                      Inr (cfg\<lparr>cfg_autoEnabled := True, cfg_autoDNS := net_JoinHostPort host port\<rparr>))"

section \<open>File helpers\<close>

definition writeFileAtomic :: "os \<Rightarrow> string \<Rightarrow> string \<Rightarrow> action" where
  "writeFileAtomic os path data =
     andthen (os_WriteFile os (path @ ''.tmp'') data) (os_Rename os (path @ ''.tmp'') path)"

definition copyFile :: "os \<Rightarrow> string \<Rightarrow> string \<Rightarrow> action" where
  "copyFile os src dst s =
     (case os_ReadFile os src s of
        Inl e \<Rightarrow> (Some e, s)
      | Inr content \<Rightarrow>
          let tmp = dst @ ''.tmp''
          in case os_fault os (OpenWrite tmp) of
               Some e \<Rightarrow> (Some e, s)
             | None \<Rightarrow>
                 (case os_fault os (CopyData tmp) of
                    Some e \<Rightarrow> (Some e, os_Remove os tmp (s(tmp \<mapsto> os_partial os tmp)))
                  | None \<Rightarrow>
                      (case os_fault os (CloseFile tmp) of
                         Some e \<Rightarrow> (Some e, os_Remove os tmp (s(tmp \<mapsto> content)))
                       | None \<Rightarrow> os_Rename os tmp dst (s(tmp \<mapsto> content)))))"

definition writeRendered :: "os \<Rightarrow> string \<Rightarrow> string \<Rightarrow> action" where
  "writeRendered os path content s =
     (if strings_Contains content ''__''
      then (Some (error_new (''unresolved template placeholder in '' @ path)), s)
      else writeFileAtomic os path content s)"

definition filepath_Join :: "string \<Rightarrow> string \<Rightarrow> string" where
  "filepath_Join dir name = dir @ ''/'' @ name"

definition domainListSpecs :: "string list" where
  "domainListSpecs = [''direct.txt'', ''proxy.txt'']"

definition prepare_list :: "os \<Rightarrow> string \<Rightarrow> string \<Rightarrow> string \<Rightarrow> action" where
  "prepare_list os dataPath defaultsPath name s =
     (let dst = filepath_Join dataPath name
      in case os_Stat os dst s of
           None \<Rightarrow> (None, s)
         | Some e \<Rightarrow>
             if err_ident e \<noteq> err_ident errNotExist then (Some e, s)
             else copyFile os (filepath_Join defaultsPath name) dst s)"

definition prepareDomainLists :: "os \<Rightarrow> string \<Rightarrow> string \<Rightarrow> action" where
  "prepareDomainLists os dataPath defaultsPath = for_each (prepare_list os dataPath defaultsPath) domainListSpecs"

text \<open>\<^verbatim>\<open>chownUnbound\<close>: the account's ids come from the user database.\<close>

definition chown_path :: "os \<Rightarrow> string \<Rightarrow> action" where
  "chown_path os path s = (os_fault os (Chown path), s)"

definition chownUnbound :: "os \<Rightarrow> string \<Rightarrow> string \<Rightarrow> string list \<Rightarrow> action" where
  "chownUnbound os uid gid paths s =
     (case os_fault os (LookupUser ''unbound'') of
        Some e \<Rightarrow> (Some e, s)
      | None \<Rightarrow>
          if strconv_Atoi uid = None \<or> strconv_Atoi gid = None
          then (Some (error_new ''invalid syntax''), s)
          else for_each (chown_path os) paths s)"

section \<open>Runtime preparation\<close>

definition runtimeDir :: string where "runtimeDir = ''/run/guarddns''"
definition unboundRuntimeDir :: string where "unboundRuntimeDir = ''/run/guarddns/unbound''"
definition unboundRecursiveRuntimeDir :: string where
  "unboundRecursiveRuntimeDir = ''/run/guarddns/unbound-recursive''"
definition configDir :: string where "configDir = ''/etc/guarddns''"
definition dataDir :: string where "dataDir = ''/data''"
definition mosdnsRuntimeConfig :: string where "mosdnsRuntimeConfig = ''/run/guarddns/mosdns.yaml''"
definition foreignRuntimeConfig :: string where "foreignRuntimeConfig = ''/run/guarddns/foreign.yaml''"
definition unboundRuntimeConfig :: string where "unboundRuntimeConfig = ''/run/guarddns/unbound.conf''"
definition unboundRecursiveRuntimeConfig :: string where
  "unboundRecursiveRuntimeConfig = ''/run/guarddns/unbound-recursive.conf''"

definition rootKeyCandidates :: "string list" where
  "rootKeyCandidates = [''/usr/share/dnssec-root/trusted-key.key'',
     ''/usr/share/dnssec-root/root.key'', ''/etc/unbound/root.key'']"

definition rootKeySource :: "os \<Rightarrow> fs \<Rightarrow> string option" where
  "rootKeySource os s =
     find (\<lambda>c. os_Stat os c s = None \<and> (case s c of None \<Rightarrow> False | Some content \<Rightarrow> content \<noteq> []))
       rootKeyCandidates"

definition mkdir :: "os \<Rightarrow> string \<Rightarrow> action" where
  "mkdir os dir s = (os_fault os (MkdirAll dir), s)"

definition install_root_key :: "os \<Rightarrow> action" where
  "install_root_key os s =
     (case rootKeySource os s of
        None \<Rightarrow> (Some (error_new ''DNSSEC root trust anchor was not found''), s)
      | Some src \<Rightarrow> copyFile os src (filepath_Join unboundRuntimeDir ''root.key'') s)"

definition render :: "os \<Rightarrow> string \<Rightarrow> string \<Rightarrow> string \<Rightarrow> string \<Rightarrow> action" where
  "render os template placeholder value target s =
     (case os_ReadFile os (filepath_Join configDir template) s of
        Inl e \<Rightarrow> (Some e, s)
      | Inr content \<Rightarrow> writeRendered os target (strings_ReplaceAll content placeholder value) s)"

definition render_foreign :: "os \<Rightarrow> config \<Rightarrow> action" where
  "render_foreign os cfg s =
     (case os_ReadFile os (filepath_Join configDir
          (if cfg_autoEnabled cfg then ''foreign-mihomo.yaml.tmpl'' else ''foreign-secure.yaml'')) s of
        Inl e \<Rightarrow> (Some e, s)
      | Inr content \<Rightarrow>
          writeRendered os foreignRuntimeConfig
            (if cfg_autoEnabled cfg
             then strings_ReplaceAll content ''__AUTO_FORWARD_ENDPOINT__'' (cfg_autoDNS cfg)
             else content) s)"

definition check_config :: "(string \<Rightarrow> string option \<Rightarrow> goerr option) \<Rightarrow> string \<Rightarrow> action" where
  "check_config checkconf path s =
     (map_option (error_wrap (''unbound config validation failed for '' @ path)) (checkconf path (s path)), s)"

definition remove_pid_files :: "os \<Rightarrow> action" where
  "remove_pid_files os s =
     (None, os_Remove os (filepath_Join unboundRecursiveRuntimeDir ''unbound.pid'')
              (os_Remove os (filepath_Join unboundRuntimeDir ''unbound.pid'') s))"

definition prepareRuntime ::
  "os \<Rightarrow> string \<Rightarrow> string \<Rightarrow> (string \<Rightarrow> string option \<Rightarrow> goerr option) \<Rightarrow> config \<Rightarrow> action" where
  "prepareRuntime os uid gid checkconf cfg =
     andthen (for_each (mkdir os) [runtimeDir, unboundRuntimeDir, unboundRecursiveRuntimeDir, dataDir])
    (andthen (prepareDomainLists os dataDir (filepath_Join configDir ''defaults''))
    (andthen (install_root_key os)
    (andthen (chownUnbound os uid gid
        [unboundRuntimeDir, filepath_Join unboundRuntimeDir ''root.key'', unboundRecursiveRuntimeDir])
    (andthen (render os ''unbound.conf.tmpl'' ''__UNBOUND_VERBOSITY__'' (cfg_unboundLog cfg) unboundRuntimeConfig)
    (andthen (render os ''unbound-recursive.conf.tmpl'' ''__UNBOUND_VERBOSITY__'' (cfg_unboundLog cfg)
        unboundRecursiveRuntimeConfig)
    (andthen (render os ''mosdns.yaml.tmpl'' ''__LOG_LEVEL__'' (cfg_logLevel cfg) mosdnsRuntimeConfig)
    (andthen (render_foreign os cfg)
    (andthen (remove_pid_files os)
      (for_each (check_config checkconf) [unboundRuntimeConfig, unboundRecursiveRuntimeConfig])))))))))"

section \<open>Lemmas\<close>

lemma safeHost_no_colon: "safeHost h \<Longrightarrow> CHR '':'' \<notin> set h"
  by (auto simp: safeHost_def list_all_iff safe_char_def)

lemma itoa_no_colon: "0 \<le> n \<Longrightarrow> CHR '':'' \<notin> set (strconv_Itoa n)"
  using decimal_digits [of "nat n"] by (auto simp: strconv_Itoa_def list_all_iff is_digit_def)

lemma parseForwardEndpoint_sound:
  assumes "parseForwardEndpoint v = Inr (h, p)"
  shows "safeHost h" "\<exists>n. 1 \<le> n \<and> n \<le> 65535 \<and> p = strconv_Itoa n"
  using assms
  by (auto simp: parseForwardEndpoint_def Let_def not_less
      split: if_splits option.splits prod.splits intro: exI)

lemma parseForwardEndpoint_join:
  assumes "safeHost h" "1 \<le> n" "n \<le> 65535"
  shows "parseForwardEndpoint (net_JoinHostPort h (strconv_Itoa n)) = Inr (h, strconv_Itoa n)"
proof -
  have h: "CHR '':'' \<notin> set h" "h \<noteq> []" using assms(1) safeHost_no_colon by (auto simp: safeHost_def)
  have i: "CHR '':'' \<notin> set (strconv_Itoa n)" using assms itoa_no_colon by simp
  have c: "strings_Count h (CHR '':'') = 0" "strings_Count (strconv_Itoa n) (CHR '':'') = 0"
    using h i by auto
  have a: "strconv_Atoi (strconv_Itoa n) = Some n" using assms strconv_Atoi_Itoa by simp
  show ?thesis
    using assms h c a by (simp add: parseForwardEndpoint_def net_JoinHostPort_def)
qed

lemma loadConfig_cases:
  assumes "loadConfig getenv = Inr cfg"
  obtains (off) "cfg_autoForwardRaw cfg = ''no''" "\<not> cfg_autoEnabled cfg" "cfg_autoDNS cfg = []"
  | (on) h p where "parseForwardEndpoint (cfg_autoForwardRaw cfg) = Inr (h, p)" "cfg_autoEnabled cfg"
      "cfg_autoForwardRaw cfg \<noteq> ''no''" "cfg_autoDNS cfg = net_JoinHostPort h p"
  using assms
  by (auto simp: loadConfig_def Let_def split: option.splits if_splits sum.splits prod.splits)

lemma tmp_distinct [simp]: "x @ ''.tmp'' \<noteq> x" "x \<noteq> x @ ''.tmp''"
  by simp_all

lemma writeFileAtomic_effect:
  "writeFileAtomic os path data s = (r, s') \<Longrightarrow>
     (if r = None then s' = s(path \<mapsto> data, path @ ''.tmp'' := None) else \<forall>q. q \<noteq> path @ ''.tmp'' \<longrightarrow> s' q = s q)"
  by (auto simp: writeFileAtomic_def andthen_def os_WriteFile_def os_Rename_def
      split: option.splits prod.splits intro!: ext)

lemma copyFile_effect:
  "copyFile os src dst s = (r, s') \<Longrightarrow>
     (if r = None then (\<exists>c. s src = Some c \<and> s' = s(dst \<mapsto> c, dst @ ''.tmp'' := None))
      else \<forall>q. q \<noteq> dst @ ''.tmp'' \<longrightarrow> s' q = s q)"
  by (auto simp: copyFile_def os_ReadFile_def os_Rename_def os_Remove_def Let_def
      split: option.splits sum.splits if_splits intro!: ext)

interpretation rendered_file: atomic_update "\<lambda>os data path. writeFileAtomic os path data" "\<lambda>data s. Some data" "\<lambda>path. path @ ''.tmp''"
  by unfold_locales (auto dest!: writeFileAtomic_effect split: if_splits)

interpretation copied_file: atomic_update copyFile "\<lambda>src s. s src" "\<lambda>path. path @ ''.tmp''"
  by unfold_locales (auto dest!: copyFile_effect split: if_splits)

text \<open>The kernel reports \<^verbatim>\<open>ErrNotExist\<close> for an absent file only; any other fault of
  \<^verbatim>\<open>os.Stat\<close> (no permission, a failing disk) is a different error.\<close>

definition stat_honest :: "os \<Rightarrow> bool" where
  "stat_honest os \<longleftrightarrow> (\<forall>path e. os_fault os (Stat path) = Some e \<longrightarrow> err_ident e \<noteq> err_ident errNotExist)"

lemma prepare_list_effect:
  assumes "prepare_list os dp df name s = (r, s')"
  shows "q \<noteq> filepath_Join dp name \<Longrightarrow> q \<noteq> filepath_Join dp name @ ''.tmp'' \<Longrightarrow> s' q = s q"
    and "stat_honest os \<Longrightarrow> s (filepath_Join dp name) \<noteq> None \<or> os_fault os (Stat (filepath_Join dp name)) \<noteq> None \<Longrightarrow> s' = s"
    and "stat_honest os \<Longrightarrow> r = None \<Longrightarrow> os_fault os (Stat (filepath_Join dp name)) = None
      \<and> s' (filepath_Join dp name)
        = (if s (filepath_Join dp name) = None then s (filepath_Join df name) else s (filepath_Join dp name))
      \<and> s' (filepath_Join dp name) \<noteq> None"
  using assms stat_honest_def copyFile_effect [of os "filepath_Join df name" "filepath_Join dp name" s r s']
  by (auto simp: prepare_list_def os_Stat_def Let_def split: option.splits if_splits)

lemma lists_distinct [simp]:
  "filepath_Join dp ''direct.txt'' \<noteq> filepath_Join dp ''proxy.txt''"
  "filepath_Join dp ''direct.txt'' \<noteq> filepath_Join dp ''proxy.txt'' @ ''.tmp''"
  "filepath_Join dp ''proxy.txt'' \<noteq> filepath_Join dp ''direct.txt''"
  "filepath_Join dp ''proxy.txt'' \<noteq> filepath_Join dp ''direct.txt'' @ ''.tmp''"
  by (simp_all add: filepath_Join_def)

lemma lists_apart [simp]:
  "filepath_Join df ''proxy.txt'' \<noteq> filepath_Join dp ''direct.txt''"
  "filepath_Join df ''proxy.txt'' \<noteq> filepath_Join dp ''direct.txt'' @ ''.tmp''"
  using arg_cong [of "filepath_Join df ''proxy.txt''" "filepath_Join dp ''direct.txt''" last]
    arg_cong [of "filepath_Join df ''proxy.txt''" "filepath_Join dp ''direct.txt'' @ ''.tmp''" last]
    arg_cong [of "filepath_Join df ''proxy.txt''" "filepath_Join dp ''direct.txt'' @ ''.tmp''" "\<lambda>x. last (butlast x)"]
    arg_cong [of "filepath_Join df ''proxy.txt''" "filepath_Join dp ''direct.txt''" "\<lambda>x. last (butlast x)"]
  by (auto simp: filepath_Join_def butlast_append)

text \<open>A rendered file exists and holds no placeholder marker.\<close>

definition rendered :: "fs \<Rightarrow> string \<Rightarrow> bool" where
  "rendered s path \<longleftrightarrow> (\<exists>c. s path = Some c \<and> \<not> strings_Contains c ''__'')"

lemma writeRendered_effect:
  assumes "writeRendered os path content s = (r, s')"
  shows "r = None \<Longrightarrow> rendered s' path"
    and "q \<noteq> path \<Longrightarrow> q \<noteq> path @ ''.tmp'' \<Longrightarrow> rendered s q \<Longrightarrow> rendered s' q"
  using assms writeFileAtomic_effect [of os path content s r s']
  by (auto simp: writeRendered_def rendered_def split: if_splits)

lemma render_effect:
  assumes "render os template ph value target s = (r, s')"
  shows "r = None \<Longrightarrow> rendered s' target"
    and "q \<noteq> target \<Longrightarrow> q \<noteq> target @ ''.tmp'' \<Longrightarrow> rendered s q \<Longrightarrow> rendered s' q"
  using assms writeRendered_effect(1) [of os target _ s r s'] writeRendered_effect(2) [of os target _ s r s' q]
  by (auto simp: render_def split: sum.splits)

lemma render_foreign_effect:
  assumes "render_foreign os cfg s = (r, s')"
  shows "r = None \<Longrightarrow> rendered s' foreignRuntimeConfig"
    and "q \<noteq> foreignRuntimeConfig \<Longrightarrow> q \<noteq> foreignRuntimeConfig @ ''.tmp'' \<Longrightarrow> rendered s q \<Longrightarrow> rendered s' q"
  using assms writeRendered_effect(1) [of os foreignRuntimeConfig _ s r s']
    writeRendered_effect(2) [of os foreignRuntimeConfig _ s r s' q]
  by (auto simp: render_foreign_def split: sum.splits)

lemma check_config_state [simp]: "snd (check_config cc path s) = s"
  by (simp add: check_config_def)

lemma check_all_state: "for_each (check_config cc) paths s = (r, s') \<Longrightarrow> s' = s"
  using for_each_keeps [of paths "\<lambda>x. x = s" "check_config cc" s] by simp

lemmas runtime_paths = runtimeDir_def unboundRuntimeDir_def unboundRecursiveRuntimeDir_def
  mosdnsRuntimeConfig_def foreignRuntimeConfig_def unboundRuntimeConfig_def
  unboundRecursiveRuntimeConfig_def filepath_Join_def

lemma remove_pid_files_effect:
  "remove_pid_files os s = (r, s') \<Longrightarrow>
     p \<in> {unboundRuntimeConfig, unboundRecursiveRuntimeConfig, mosdnsRuntimeConfig, foreignRuntimeConfig} \<Longrightarrow>
     s' p = s p"
  by (auto simp: remove_pid_files_def runtime_paths)

section \<open>Properties\<close>

text \<open>
  Property C35.  An accepted \<^verbatim>\<open>AUTO_FORWARD\<close> endpoint has a host of safe characters and a
  port between 1 and 65535 in canonical decimal form, and the endpoint string the configuration
  stores is parsed back to the same host and port.
\<close>

theorem forward_endpoint_roundtrip:
  assumes "parseForwardEndpoint v = Inr (h, p)"
  shows "safeHost h \<and> (\<exists>n. 1 \<le> n \<and> n \<le> 65535 \<and> p = strconv_Itoa n)
    \<and> parseForwardEndpoint (net_JoinHostPort h p) = Inr (h, p)"
  using parseForwardEndpoint_sound [OF assms] parseForwardEndpoint_join by blast

lemma sample_endpoint: "parseForwardEndpoint ''10.10.10.3:+05353'' = Inr (''10.10.10.3'', ''5353'')"
  by (simp add: parseForwardEndpoint_def safeHost_def safe_char_def strconv_Atoi_def digits_value_def
      is_digit_def strconv_Itoa_def decimal.simps Let_def)

theorem forward_endpoint_roundtrip_witness:
  "parseForwardEndpoint (net_JoinHostPort ''10.10.10.3'' ''5353'') = Inr (''10.10.10.3'', ''5353'')"
  using forward_endpoint_roundtrip [OF sample_endpoint] by blast

text \<open>
  A configuration that loads has one of the four log levels, forwarding is enabled
  exactly when the raw value is not \<^verbatim>\<open>no\<close>, and then the stored DNS endpoint is the
  canonical form of the raw value.
\<close>

lemma loadConfig_sound:
  assumes "loadConfig getenv = Inr cfg"
  shows "cfg_logLevel cfg \<in> {''debug'', ''info'', ''warn'', ''error''}
    \<and> Some (cfg_unboundLog cfg) = unbound_verbosity (cfg_logLevel cfg)
    \<and> (cfg_autoEnabled cfg \<longleftrightarrow> cfg_autoForwardRaw cfg \<noteq> ''no'')
    \<and> (cfg_autoEnabled cfg \<longrightarrow>
        (\<exists>h p. parseForwardEndpoint (cfg_autoForwardRaw cfg) = Inr (h, p)
           \<and> cfg_autoDNS cfg = net_JoinHostPort h p \<and> parseForwardEndpoint (cfg_autoDNS cfg) = Inr (h, p)))"
proof -
  have l: "cfg_logLevel cfg \<in> {''debug'', ''info'', ''warn'', ''error''}"
    "Some (cfg_unboundLog cfg) = unbound_verbosity (cfg_logLevel cfg)"
    using assms
    by (auto simp: loadConfig_def Let_def unbound_verbosity_def split: option.splits if_splits sum.splits prod.splits)
  show ?thesis
    using assms
  proof (cases rule: loadConfig_cases)
    case off
    with l show ?thesis by simp
  next
    case (on h p)
    have "parseForwardEndpoint (net_JoinHostPort h p) = Inr (h, p)"
      using parseForwardEndpoint_sound [OF on(1)] parseForwardEndpoint_join by blast
    with l on show ?thesis by auto
  qed
qed

definition sample_env_vars :: "string \<Rightarrow> string" where
  "sample_env_vars name = (if name = ''AUTO_FORWARD'' then ''mihomo.lan'' else [])"

lemma sample_load:
  "loadConfig sample_env_vars = Inr \<lparr>cfg_autoForwardRaw = ''mihomo.lan'', cfg_autoEnabled = True,
     cfg_autoDNS = ''mihomo.lan:53'', cfg_logLevel = ''warn'', cfg_unboundLog = ''0''\<rparr>"
  by (simp add: loadConfig_def envDefault_def sample_env_vars_def unbound_verbosity_def net_JoinHostPort_def
      parseForwardEndpoint_def safeHost_def safe_char_def strconv_Atoi_def digits_value_def
      is_digit_def strconv_Itoa_def decimal.simps Let_def)

lemma loadConfig_sound_sample:
  "\<exists>h p. parseForwardEndpoint ''mihomo.lan'' = Inr (h, p) \<and> parseForwardEndpoint ''mihomo.lan:53'' = Inr (h, p)"
  using loadConfig_sound [OF sample_load] by auto

text \<open>
  Property C33.  Both file helpers are atomic under any combination of kernel errors, over any number
  of attempts (restarts of the container included): the target holds its first content, or the
  complete text or the complete source file of one of the attempts; it never disappears; and no
  other file than the target and its temporary changes.
\<close>

theorem file_helpers_atomic:
  assumes "\<forall>src\<in>snd ` set cs. src \<noteq> dst \<and> src \<noteq> dst @ ''.tmp''"
  shows "(let s' = snd (update_attempts (\<lambda>os data path. writeFileAtomic os path data) dst ws s) in
       (s' dst = s dst \<or> (\<exists>data\<in>snd ` set ws. s' dst = Some data))
       \<and> (\<forall>q. q \<noteq> dst \<and> q \<noteq> dst @ ''.tmp'' \<longrightarrow> s' q = s q))
    \<and> (let s' = snd (update_attempts copyFile dst cs s) in
       (s' dst = s dst \<or> (\<exists>src\<in>snd ` set cs. s' dst = s src \<and> s src \<noteq> None))
       \<and> (\<forall>q. q \<noteq> dst \<and> q \<noteq> dst @ ''.tmp'' \<longrightarrow> s' q = s q))"
proof -
  have "snd (update_attempts (\<lambda>os data path. writeFileAtomic os path data) dst ws s) dst = s dst
      \<or> (\<exists>data\<in>snd ` set ws. snd (update_attempts (\<lambda>os data path. writeFileAtomic os path data) dst ws s) dst = Some data)"
    using rendered_file.attempts_whole [of dst ws s] by force
  moreover have "snd (update_attempts copyFile dst cs s) dst = s dst
      \<or> (\<exists>src\<in>snd ` set cs. snd (update_attempts copyFile dst cs s) dst = s src \<and> s src \<noteq> None)"
    using copied_file.attempts_whole [of dst cs s] assms by force
  ultimately show ?thesis
    using rendered_file.attempts_frame [of dst _ ws s] copied_file.attempts_frame [of dst _ cs s]
    by (simp add: Let_def)
qed

theorem file_helpers_atomic_witness:
  "let s = [''a'' \<mapsto> ''new'', ''b'' \<mapsto> ''old''];
       s' = snd (update_attempts copyFile ''b'' [(os_fine, ''a'')] s)
   in s' ''a'' = Some ''new'' \<and> (s' ''b'' = Some ''old'' \<or> s' ''b'' = Some ''new'')"
  using file_helpers_atomic [of "[(os_fine, ''a'')]" "''b''" "[]" "[''a'' \<mapsto> ''new'', ''b'' \<mapsto> ''old'']"]
  by (auto simp: Let_def)

text \<open>
  Property C34.  Seeding the domain lists, whatever the kernel does: a list the operator already has is
  never touched, and neither is one whose presence cannot be determined, and no other file changes but
  for temporaries.  When seeding succeeds, both lists could be looked at and exist, and those that were
  absent are the defaults.
\<close>

theorem prepareDomainLists_preserves:
  assumes "prepareDomainLists os dp df s = (r, s')" "stat_honest os"
  shows "(\<forall>name\<in>set domainListSpecs. s (filepath_Join dp name) \<noteq> None \<or> os_fault os (Stat (filepath_Join dp name)) \<noteq> None \<longrightarrow>
            s' (filepath_Join dp name) = s (filepath_Join dp name))
    \<and> (\<forall>q. (\<forall>name\<in>set domainListSpecs. q \<noteq> filepath_Join dp name \<and> q \<noteq> filepath_Join dp name @ ''.tmp'') \<longrightarrow> s' q = s q)
    \<and> (r = None \<longrightarrow> (\<forall>name\<in>set domainListSpecs. os_fault os (Stat (filepath_Join dp name)) = None
          \<and> s' (filepath_Join dp name) \<noteq> None
          \<and> (s (filepath_Join dp name) = None \<longrightarrow> s' (filepath_Join dp name) = s (filepath_Join df name))))"
proof -
  obtain r1 s1 where p1: "prepare_list os dp df ''direct.txt'' s = (r1, s1)" by fastforce
  obtain r2 s2 where p2: "prepare_list os dp df ''proxy.txt'' s1 = (r2, s2)" by fastforce
  have out: "(r, s') = (if r1 = None then (r2, s2) else (r1, s1))"
    using assms(1) p1 p2
    by (auto simp: prepareDomainLists_def domainListSpecs_def andthen_def split: option.splits)
  note e1 = prepare_list_effect(1) [OF p1] prepare_list_effect(2,3) [OF p1 assms(2)]
    and e2 = prepare_list_effect(1) [OF p2] prepare_list_effect(2,3) [OF p2 assms(2)]
  have frame: "s' q = s q" if "q \<noteq> filepath_Join dp ''direct.txt''" "q \<noteq> filepath_Join dp ''direct.txt'' @ ''.tmp''"
    "q \<noteq> filepath_Join dp ''proxy.txt''" "q \<noteq> filepath_Join dp ''proxy.txt'' @ ''.tmp''" for q
    using that out e1(1) [of q] e2(1) [of q] by (auto split: if_splits)
  have keep: "s1 (filepath_Join dp ''proxy.txt'') = s (filepath_Join dp ''proxy.txt'')"
    "s1 (filepath_Join df ''proxy.txt'') = s (filepath_Join df ''proxy.txt'')"
    "s2 (filepath_Join dp ''direct.txt'') = s1 (filepath_Join dp ''direct.txt'')"
    by (rule e1(1) e2(1); simp)+
  have direct: "s' (filepath_Join dp ''direct.txt'') = s (filepath_Join dp ''direct.txt'')"
    if "s (filepath_Join dp ''direct.txt'') \<noteq> None \<or> os_fault os (Stat (filepath_Join dp ''direct.txt'')) \<noteq> None"
    using e1(2) [OF that] out keep(3) by (cases "r1 = None") auto
  have proxy: "s' (filepath_Join dp ''proxy.txt'') = s (filepath_Join dp ''proxy.txt'')"
    if "s (filepath_Join dp ''proxy.txt'') \<noteq> None \<or> os_fault os (Stat (filepath_Join dp ''proxy.txt'')) \<noteq> None"
    using e2(2) that out keep(1) by (cases "r1 = None") auto
  have ok: "r1 = None \<and> r2 = None \<and> s' = s2" if "r = None" using out that by (auto split: if_splits)
  have both: "os_fault os (Stat (filepath_Join dp name)) = None \<and> s' (filepath_Join dp name) \<noteq> None
      \<and> (s (filepath_Join dp name) = None \<longrightarrow> s' (filepath_Join dp name) = s (filepath_Join df name))"
    if "r = None" "name \<in> set domainListSpecs" for name
  proof -
    from that(2) consider (d) "name = ''direct.txt''" | (p) "name = ''proxy.txt''" by (auto simp: domainListSpecs_def)
    then show ?thesis
    proof cases
      case d
      with that(1) ok e1(3) keep(3) show ?thesis by metis
    next
      case p
      with that(1) ok e2(3) keep(1,2) show ?thesis by metis
    qed
  qed
  show ?thesis using direct proxy frame both by (simp add: domainListSpecs_def)
qed

definition os_blind :: os where
  "os_blind = os_fine\<lparr>os_fault := (\<lambda>op. if op = Stat ''/data/proxy.txt'' then Some (error_new ''permission denied'') else None)\<rparr>"

theorem prepareDomainLists_preserves_witness:
  "let s' = snd (prepareDomainLists os_blind ''/data'' ''/def''
      [''/data/proxy.txt'' \<mapsto> ''mine'', ''/def/direct.txt'' \<mapsto> ''d'', ''/def/proxy.txt'' \<mapsto> ''p''])
   in s' ''/data/proxy.txt'' = Some ''mine'' \<and> s' ''/def/direct.txt'' = Some ''d''"
proof -
  define s where "s = [''/data/proxy.txt'' \<mapsto> ''mine'', ''/def/direct.txt'' \<mapsto> ''d'', ''/def/proxy.txt'' \<mapsto> ''p'']"
  obtain r s' where p: "prepareDomainLists os_blind ''/data'' ''/def'' s = (r, s')" by fastforce
  have "stat_honest os_blind" by (simp add: stat_honest_def os_blind_def errNotExist_def error_new_def)
  from prepareDomainLists_preserves [OF p this] show ?thesis
    unfolding s_def [symmetric] by (simp add: p) (simp add: s_def domainListSpecs_def filepath_Join_def)
qed

text \<open>A successful preparation leaves all four generated configuration files present and free of
  placeholder markers.\<close>

lemma prepareRuntime_files:
  assumes "prepareRuntime os uid gid checkconf cfg s = (None, s')"
  shows "rendered s' unboundRuntimeConfig \<and> rendered s' unboundRecursiveRuntimeConfig
    \<and> rendered s' mosdnsRuntimeConfig \<and> rendered s' foreignRuntimeConfig"
proof -
  from assms obtain s4 s5 s6 s7 s8 s9 where
    r5: "render os ''unbound.conf.tmpl'' ''__UNBOUND_VERBOSITY__'' (cfg_unboundLog cfg) unboundRuntimeConfig s4 = (None, s5)"
    and r6: "render os ''unbound-recursive.conf.tmpl'' ''__UNBOUND_VERBOSITY__'' (cfg_unboundLog cfg)
        unboundRecursiveRuntimeConfig s5 = (None, s6)"
    and r7: "render os ''mosdns.yaml.tmpl'' ''__LOG_LEVEL__'' (cfg_logLevel cfg) mosdnsRuntimeConfig s6 = (None, s7)"
    and r8: "render_foreign os cfg s7 = (None, s8)" and r9: "remove_pid_files os s8 = (None, s9)"
    and r10: "for_each (check_config checkconf) [unboundRuntimeConfig, unboundRecursiveRuntimeConfig] s9 = (None, s')"
    unfolding prepareRuntime_def andthen_None by blast
  have s': "s' = s9" using check_all_state [OF r10] .
  have "rendered s8 unboundRuntimeConfig" "rendered s8 unboundRecursiveRuntimeConfig"
    "rendered s8 mosdnsRuntimeConfig" "rendered s8 foreignRuntimeConfig"
    using render_effect [OF r5] render_effect [OF r6] render_effect [OF r7] render_foreign_effect [OF r8]
    by (simp_all add: runtime_paths)
  then show ?thesis
    using remove_pid_files_effect [OF r9] by (auto simp: s' rendered_def)
qed

text \<open>
  An accepted host name with two adjacent underscores cannot be used: the template's
  endpoint placeholder is replaced by the endpoint, and the check for unresolved placeholders then
  refuses the rendered file, so that the runtime is never prepared.
\<close>

lemma underscore_host_rejected:
  assumes "loadConfig getenv = Inr cfg" "cfg_autoEnabled cfg" "sublist ''__'' (cfg_autoDNS cfg)"
    and "s (filepath_Join configDir ''foreign-mihomo.yaml.tmpl'') = Some t"
    and "sublist ''__AUTO_FORWARD_ENDPOINT__'' t"
    and "os_fault os (OpenRead (filepath_Join configDir ''foreign-mihomo.yaml.tmpl'')) = None"
  shows "render_foreign os cfg s
    = (Some (error_new (''unresolved template placeholder in '' @ foreignRuntimeConfig)), s)"
proof -
  have "sublist (cfg_autoDNS cfg) (strings_ReplaceAll t ''__AUTO_FORWARD_ENDPOINT__'' (cfg_autoDNS cfg))"
    using assms(5) by (intro strings_ReplaceAll_inserts) auto
  then have "strings_Contains (strings_ReplaceAll t ''__AUTO_FORWARD_ENDPOINT__'' (cfg_autoDNS cfg)) ''__''"
    using assms(3) sublist_order.order_trans unfolding strings_Contains_iff by blast
  moreover have "os_ReadFile os (filepath_Join configDir ''foreign-mihomo.yaml.tmpl'') s = Inr t"
    unfolding os_ReadFile_def assms(4,6) by simp
  ultimately show ?thesis
    using assms(2) by (simp add: render_foreign_def writeRendered_def)
qed

definition underscore_env_vars :: "string \<Rightarrow> string" where
  "underscore_env_vars name = (if name = ''AUTO_FORWARD'' then ''my__host'' else [])"

lemma underscore_load:
  "loadConfig underscore_env_vars = Inr \<lparr>cfg_autoForwardRaw = ''my__host'', cfg_autoEnabled = True,
     cfg_autoDNS = ''my__host:53'', cfg_logLevel = ''warn'', cfg_unboundLog = ''0''\<rparr>"
  by (simp add: loadConfig_def envDefault_def underscore_env_vars_def unbound_verbosity_def net_JoinHostPort_def
      parseForwardEndpoint_def safeHost_def safe_char_def strconv_Atoi_def digits_value_def
      is_digit_def strconv_Itoa_def decimal.simps Let_def)

lemma underscore_host_rejected_sample:
  "\<exists>cfg e. loadConfig underscore_env_vars = Inr cfg
     \<and> render_foreign os_fine cfg [''/etc/guarddns/foreign-mihomo.yaml.tmpl'' \<mapsto> ''__AUTO_FORWARD_ENDPOINT__'']
       = (Some e, [''/etc/guarddns/foreign-mihomo.yaml.tmpl'' \<mapsto> ''__AUTO_FORWARD_ENDPOINT__''])"
proof -
  have "sublist ''__'' ''my__host:53''" unfolding strings_Contains_iff [symmetric] by simp
  from underscore_host_rejected [OF underscore_load, where s = "[''/etc/guarddns/foreign-mihomo.yaml.tmpl'' \<mapsto> ''__AUTO_FORWARD_ENDPOINT__'']"
      and t = "''__AUTO_FORWARD_ENDPOINT__''" and os = os_fine] this
  show ?thesis unfolding underscore_load by (simp add: filepath_Join_def configDir_def os_fine_def)
qed

end
