(* ===== verification/Backoff.thy ===== *)
theory Backoff
  imports Prelude
begin

text \<open>
  Exponential backoff.  Three places of the sources compute a jittered delay from a step number
  with the same doubling loop: \<^verbatim>\<open>exponentialDelay\<close> of the circuit plugin,
  \<^verbatim>\<open>jitterDoHBackoff\<close> of the encrypted bridge and \<^verbatim>\<open>restartDelay\<close> of the
  supervisor.  This theory holds the loop, the jitter arithmetic, their closed form, and the
  contract \<open>backoff_policy\<close> that the three delays satisfy.
\<close>

section \<open>The doubling loop\<close>

text \<open>
  \<^verbatim>\<open>for i := uint(1); i < step && delay < maximum; i++ { delay *= 2; if delay >= maximum
  { return maximum } }\<close>, with the 64-bit product written out.
\<close>

function doubling_loop :: "nat \<Rightarrow> nat \<Rightarrow> duration \<Rightarrow> duration \<Rightarrow> duration" where
  "doubling_loop i step delay maximum =
     (if i < step \<and> delay < maximum then
        let doubled = wrap64 (delay * 2)
        in if maximum \<le> doubled then maximum else doubling_loop (Suc i) step doubled maximum
      else delay)"
  by pat_completeness auto
termination
  by (relation "measure (\<lambda>(i, step, delay, maximum). step - i)") auto

declare doubling_loop.simps [simp del]

text \<open>\<^verbatim>\<open>nominal - spread + rand.Int63n(2*spread+1)\<close> with \<^verbatim>\<open>spread = nominal / 5\<close>.\<close>

definition spread_draw :: "nat \<Rightarrow> duration \<Rightarrow> duration" where
  "spread_draw seed nominal =
     (let spread = nominal div 5 in nominal - spread + int63n seed (2 * spread + 1))"

section \<open>Closed form of the loop\<close>

lemma doubling_loop_closed_form:
  assumes "0 < delay" "delay \<le> maximum" "maximum \<le> 2 ^ 61"
  shows "doubling_loop i step delay maximum = min maximum (delay * 2 ^ (step - i))"
  using assms
proof (induction i step delay maximum rule: doubling_loop.induct)
  case (1 i step delay maximum)
  have w: "wrap64 (delay * 2) = delay * 2" if "delay < maximum"
    using that "1.prems" by (intro wrap64_id) auto
  show ?case
  proof (cases "i < step \<and> delay < maximum")
    case False
    have "maximum \<le> maximum * 2 ^ (step - i)"
      using "1.prems" by (simp add: mult_le_cancel_left1)
    with False "1.prems" show ?thesis
      by (subst doubling_loop.simps) auto
  next
    case True
    then have s: "step - i = Suc (step - Suc i)" by (simp add: Suc_diff_Suc)
    show ?thesis
    proof (cases "maximum \<le> delay * 2")
      case m: True
      have "delay * 2 * 1 \<le> delay * 2 * 2 ^ (step - Suc i)"
        using "1.prems"(1) by (intro mult_left_mono) auto
      with m have "maximum \<le> delay * 2 ^ (step - i)" by (simp add: s)
      with True m w show ?thesis by (subst doubling_loop.simps) (simp add: Let_def)
    next
      case m: False
      with True "1.prems" w "1.IH"
      have "doubling_loop (Suc i) step (delay * 2) maximum
          = min maximum (delay * 2 * 2 ^ (step - Suc i))"
        by auto
      with True m w show ?thesis
        by (subst doubling_loop.simps) (simp add: Let_def s mult.assoc)
    qed
  qed
qed

lemma doubling_loop_bounds [guard_bounds]:
  assumes "0 < delay" "delay \<le> maximum" "maximum \<le> 2 ^ 61"
  shows "delay \<le> doubling_loop i step delay maximum"
    and "doubling_loop i step delay maximum \<le> maximum"
  using assms by (auto simp: doubling_loop_closed_form)

lemma spread_draw_bounds:
  assumes "0 \<le> nominal"
  shows "4 * nominal \<le> 5 * spread_draw seed nominal"
    and "5 * spread_draw seed nominal \<le> 6 * nominal"
proof -
  define s where "s = nominal div 5"
  have s: "0 \<le> s" "5 * s \<le> nominal"
    using assms by (auto simp: s_def)
  have r: "0 \<le> int63n seed (2 * s + 1)" "int63n seed (2 * s + 1) \<le> 2 * s"
    using int63n_range [of "2 * s + 1" seed] s by auto
  show "4 * nominal \<le> 5 * spread_draw seed nominal"
    using s r by (simp add: spread_draw_def Let_def flip: s_def)
  show "5 * spread_draw seed nominal \<le> 6 * nominal"
    using s r by (simp add: spread_draw_def Let_def flip: s_def)
qed

section \<open>The contract of a backoff policy\<close>

text \<open>
  A policy turns a random state and a step number into a delay.  Its nominal value doubles from
  the initial delay and is cut at the maximum; the delay itself is within a fifth of the nominal
  value and never above the maximum.
\<close>

locale backoff_policy =
  fixes delay :: "nat \<Rightarrow> nat \<Rightarrow> duration"
    and initial maximum :: duration
  assumes initial_pos: "0 < initial"
    and initial_le: "initial \<le> maximum"
    and delay_low: "4 * min maximum (initial * 2 ^ (step - 1)) \<le> 5 * delay seed step"
    and delay_high: "5 * delay seed step \<le> 6 * min maximum (initial * 2 ^ (step - 1))"
    and delay_cap: "delay seed step \<le> maximum"
begin

lemma nominal_ge_initial: "initial \<le> min maximum (initial * 2 ^ (step - 1))"
  using initial_pos initial_le by (simp add: mult_le_cancel_left1)

lemma delay_ge_initial: "4 * initial \<le> 5 * delay seed step"
  using nominal_ge_initial [of step] delay_low [of step seed] by linarith

lemma delay_pos: "0 < delay seed step"
  using delay_ge_initial [of seed step] initial_pos by linarith

lemma retry_window: "now < now + delay seed step \<and> now + delay seed step \<le> now + maximum"
  using delay_pos [of seed step] delay_cap [of seed step] by simp

text \<open>Once the nominal value has reached the maximum, no delay is below four fifths of it.\<close>

lemma delay_saturated:
  assumes "maximum \<le> initial * 2 ^ (step - 1)"
  shows "4 * maximum \<le> 5 * delay seed step"
  using delay_low [of step seed] assms by simp

end

text \<open>The delay shape shared by the supervisor and the bridge: loop, jitter, cut at the maximum.\<close>

lemma clipped_draw_policy:
  assumes "0 < initial" "initial \<le> maximum" "maximum \<le> 2 ^ 61"
    and shape: "\<And>seed step. delay seed step
      = min maximum (spread_draw seed (doubling_loop 1 step initial maximum))"
  shows "backoff_policy delay initial maximum"
proof
  fix seed step :: nat
  define n where "n = min maximum (initial * 2 ^ (step - 1))"
  have n: "doubling_loop 1 step initial maximum = n"
    using assms by (simp add: n_def doubling_loop_closed_form)
  have pos: "0 \<le> n" "n \<le> maximum" using assms by (auto simp: n_def)
  have d: "4 * n \<le> 5 * spread_draw seed n" "5 * spread_draw seed n \<le> 6 * n"
    using spread_draw_bounds [OF pos(1)] by auto
  show "4 * min maximum (initial * 2 ^ (step - 1)) \<le> 5 * delay seed step"
    unfolding shape n n_def [symmetric] using d pos by (auto simp: min_def)
  show "5 * delay seed step \<le> 6 * min maximum (initial * 2 ^ (step - 1))"
    unfolding shape n n_def [symmetric] using d pos by (auto simp: min_def)
  show "delay seed step \<le> maximum" by (simp add: shape)
qed (use assms in auto)

end
