(* ===== verification/Breaker.thy ===== *)
theory Breaker
  imports Prelude
begin

text \<open>
  The half-open circuit breaker that two components of the sources implement:
  \<^verbatim>\<open>circuit\<close> of internal/circuitplugin/circuit.go (the AUTO_FORWARD hop) and
  \<^verbatim>\<open>dohUpstream\<close> of cmd/guarddns/dohbridge.go (one encrypted provider).  This theory
  holds the abstract breaker, the system of concurrent callers whose critical sections are the
  atomic steps, and the contract \<open>breaker\<close> with the lemmas both components inherit.
\<close>

section \<open>Permits and the abstract breaker\<close>

text \<open>\<^verbatim>\<open>permit\<close> and \<^verbatim>\<open>dohPermit\<close>: whether the caller is the half-open probe.\<close>

record permit =
  probe :: bool

datatype phase = Closed nat | Open instant | HalfOpen instant

text \<open>What a breaker promises: the threshold of failures that opens it is a parameter, and so is
  whether a failure reported by a probe that finds the breaker closed counts.\<close>

fun acquire_spec :: "instant \<Rightarrow> phase \<Rightarrow> phase \<times> permit option" where
  "acquire_spec now (Closed n) = (Closed n, Some \<lparr>probe = False\<rparr>)"
| "acquire_spec now (Open t) =
     (if now < t then (Open t, None) else (HalfOpen t, Some \<lparr>probe = True\<rparr>))"
| "acquire_spec now (HalfOpen t) = (HalfOpen t, None)"

fun succeed_spec :: "phase \<Rightarrow> phase" where
  "succeed_spec _ = Closed 0"

fun fail_spec :: "nat \<Rightarrow> bool \<Rightarrow> permit \<Rightarrow> instant \<Rightarrow> phase \<Rightarrow> phase" where
  "fail_spec threshold count_stale p until (Closed n) =
     (if probe p \<and> \<not> count_stale then Closed n
      else if Suc n < threshold then Closed (Suc n) else Open until)"
| "fail_spec threshold count_stale p until (Open t) = Open t"
| "fail_spec threshold count_stale p until (HalfOpen t) = (if probe p then Open until else HalfOpen t)"

section \<open>Concurrent callers\<close>

text \<open>
  Every mutex-protected method is one atomic step.  A caller that was granted a permit keeps it in
  flight until it reports success or failure; where the code lets a caller leave without a report
  (\<open>abandon\<close>), a third step drops the permit and leaves the breaker as it is.
\<close>

record 'c system =
  clock :: instant
  brk :: 'c
  inflight :: "nat \<rightharpoonup> permit"

inductive breaker_step ::
  "bool \<Rightarrow> (instant \<Rightarrow> 'c \<Rightarrow> 'c \<times> permit option) \<Rightarrow> ('c \<Rightarrow> 'c) \<Rightarrow>
   (permit \<Rightarrow> instant \<Rightarrow> nat \<Rightarrow> 'c \<Rightarrow> 'c) \<Rightarrow> 'c system \<Rightarrow> 'c system \<Rightarrow> bool"
  for abandons acquire succeed fail where
  grant: "acquire (clock s) (brk s) = (c', Some p) \<Longrightarrow> inflight s i = None \<Longrightarrow>
     breaker_step abandons acquire succeed fail s
       (s\<lparr>brk := c', inflight := (inflight s)(i \<mapsto> p)\<rparr>)"
| refuse: "acquire (clock s) (brk s) = (c', None) \<Longrightarrow>
     breaker_step abandons acquire succeed fail s (s\<lparr>brk := c'\<rparr>)"
| success: "inflight s i = Some p \<Longrightarrow>
     breaker_step abandons acquire succeed fail s
       (s\<lparr>brk := succeed (brk s), inflight := (inflight s)(i := None)\<rparr>)"
| failure: "inflight s i = Some p \<Longrightarrow>
     breaker_step abandons acquire succeed fail s
       (s\<lparr>brk := fail p (clock s) seed (brk s), inflight := (inflight s)(i := None)\<rparr>)"
| abandon: "abandons \<Longrightarrow> inflight s i = Some p \<Longrightarrow>
     breaker_step abandons acquire succeed fail s (s\<lparr>inflight := (inflight s)(i := None)\<rparr>)"
| tick: "clock s \<le> t \<Longrightarrow> breaker_step abandons acquire succeed fail s (s\<lparr>clock := t\<rparr>)"

definition breaker_start :: "instant \<Rightarrow> 'c \<Rightarrow> 'c system" where
  "breaker_start t c = \<lparr>clock = t, brk = c, inflight = Map.empty\<rparr>"

inductive breaker_reach ::
  "bool \<Rightarrow> (instant \<Rightarrow> 'c \<Rightarrow> 'c \<times> permit option) \<Rightarrow> ('c \<Rightarrow> 'c) \<Rightarrow>
   (permit \<Rightarrow> instant \<Rightarrow> nat \<Rightarrow> 'c \<Rightarrow> 'c) \<Rightarrow> 'c system \<Rightarrow> 'c system \<Rightarrow> bool"
  for abandons acquire succeed fail s where
  reach_here: "breaker_reach abandons acquire succeed fail s s"
| reach_step: "breaker_reach abandons acquire succeed fail s t \<Longrightarrow>
     breaker_step abandons acquire succeed fail t u \<Longrightarrow>
     breaker_reach abandons acquire succeed fail s u"

text \<open>A run of failures reported by plain callers.\<close>

fun failure_run ::
  "(permit \<Rightarrow> instant \<Rightarrow> nat \<Rightarrow> 'c \<Rightarrow> 'c) \<Rightarrow> (instant \<times> nat) list \<Rightarrow> 'c \<Rightarrow> 'c" where
  "failure_run fail [] c = c"
| "failure_run fail ((now, seed) # reports) c =
     failure_run fail reports (fail \<lparr>probe = False\<rparr> now seed c)"

lemmas breaker_step_intros = grant refuse success failure abandon tick

lemma breaker_reach_trans:
  assumes "breaker_reach ab acq suc fl t u" "breaker_reach ab acq suc fl s t"
  shows "breaker_reach ab acq suc fl s u"
  using assms by (induction rule: breaker_reach.induct) (auto intro: reach_step)

text \<open>A property that every step keeps holds in every state reached.\<close>

lemma breaker_reach_invariant:
  assumes "breaker_reach ab acq suc fl s t" "P s"
    and "\<And>u v. breaker_step ab acq suc fl u v \<Longrightarrow> P u \<Longrightarrow> P v"
  shows "P t"
  using assms by (induction rule: breaker_reach.induct) auto

text \<open>Finitely many callers are in flight, so there is always room for another.\<close>

lemma breaker_step_finite:
  "breaker_step ab acq suc fl s t \<Longrightarrow> finite (dom (inflight s)) \<Longrightarrow> finite (dom (inflight t))"
  by (induction rule: breaker_step.induct) auto

lemma breaker_free_slot:
  assumes "breaker_reach ab acq suc fl (breaker_start t0 c) s"
  obtains i where "inflight s i = None"
proof -
  have "finite (dom (inflight s))"
    by (rule breaker_reach_invariant [OF assms, where P = "\<lambda>s. finite (dom (inflight s))"])
      (auto simp: breaker_start_def dest: breaker_step_finite)
  then obtain i where "i \<notin> dom (inflight s)" using ex_new_if_finite infinite_UNIV_nat by blast
  then show ?thesis using that by (auto simp: domIff)
qed

section \<open>The contract\<close>

text \<open>
  A breaker implementation: its operations commute with the abstract ones through \<open>view\<close>, wherever
  the representation invariant \<open>ok\<close> holds, and keep \<open>ok\<close>.  \<open>until\<close> is the retry instant a failure
  would set.
\<close>

locale breaker =
  fixes acquire :: "instant \<Rightarrow> 'c \<Rightarrow> 'c \<times> permit option"
    and succeed :: "'c \<Rightarrow> 'c"
    and fail :: "permit \<Rightarrow> instant \<Rightarrow> nat \<Rightarrow> 'c \<Rightarrow> 'c"
    and view :: "'c \<Rightarrow> phase"
    and ok :: "'c \<Rightarrow> bool"
    and threshold :: "'c \<Rightarrow> nat"
    and count_stale :: bool
    and until :: "instant \<Rightarrow> nat \<Rightarrow> 'c \<Rightarrow> instant"
  assumes acquire_view: "ok c \<Longrightarrow> acquire now c = (c', r) \<Longrightarrow> acquire_spec now (view c) = (view c', r)"
    and succeed_view: "ok c \<Longrightarrow> view (succeed c) = succeed_spec (view c)"
    and fail_view: "ok c \<Longrightarrow>
      view (fail p now seed c) = fail_spec (threshold c) count_stale p (until now seed c) (view c)"
    and acquire_ok: "ok c \<Longrightarrow> acquire now c = (c', r) \<Longrightarrow> ok c'"
    and succeed_ok: "ok c \<Longrightarrow> ok (succeed c)"
    and fail_ok: "ok c \<Longrightarrow> ok (fail p now seed c)"
    and acquire_threshold: "threshold (fst (acquire now c)) = threshold c"
    and fail_threshold: "threshold (fail p now seed c) = threshold c"
begin

abbreviation bstep :: "bool \<Rightarrow> 'c system \<Rightarrow> 'c system \<Rightarrow> bool" where
  "bstep ab \<equiv> breaker_step ab acquire succeed fail"

abbreviation breach :: "bool \<Rightarrow> 'c system \<Rightarrow> 'c system \<Rightarrow> bool" where
  "breach ab \<equiv> breaker_reach ab acquire succeed fail"

lemmas step_views = acquire_view succeed_view fail_view

lemma bstep_ok: "bstep ab s t \<Longrightarrow> ok (brk s) \<Longrightarrow> ok (brk t)"
  by (induction rule: breaker_step.induct) (auto intro: acquire_ok succeed_ok fail_ok)

lemma breach_ok: "breach ab s t \<Longrightarrow> ok (brk s) \<Longrightarrow> ok (brk t)"
  using breaker_reach_invariant [where P = "\<lambda>s. ok (brk s)"] bstep_ok by blast

text \<open>A closed breaker grants, an open one refuses before its retry instant and grants one probe
  after it, a half-open one refuses.\<close>

lemma acquire_closed:
  assumes "ok c" "view c = Closed n"
  shows "snd (acquire now c) = Some \<lparr>probe = False\<rparr>"
  using acquire_view [OF assms(1), of now "fst (acquire now c)" "snd (acquire now c)"] assms(2) by simp

lemma acquire_half_open:
  assumes "ok c" "view c = HalfOpen t"
  shows "snd (acquire now c) = None" "view (fst (acquire now c)) = HalfOpen t"
  using acquire_view [OF assms(1), of now "fst (acquire now c)" "snd (acquire now c)"] assms(2) by auto

lemma acquire_open:
  assumes "ok c" "view c = Open t"
  shows "snd (acquire now c) = (if now < t then None else Some \<lparr>probe = True\<rparr>)"
    and "view (fst (acquire now c)) = (if now < t then Open t else HalfOpen t)"
  using acquire_view [OF assms(1), of now "fst (acquire now c)" "snd (acquire now c)"] assms(2)
  by (auto split: if_splits)

text \<open>As long as no caller leaves without a report, a half-open breaker always has its probe in
  flight.\<close>

definition probe_tracked :: "'c system \<Rightarrow> bool" where
  "probe_tracked s \<longleftrightarrow>
     (\<forall>t. view (brk s) = HalfOpen t \<longrightarrow> (\<exists>i. inflight s i = Some \<lparr>probe = True\<rparr>))"

lemma acquire_grants_probe:
  assumes "ok c" "acquire now c = (c', r)" "view c' = HalfOpen t"
  shows "(view c = HalfOpen t \<and> r = None) \<or> r = Some \<lparr>probe = True\<rparr>"
  using acquire_view [OF assms(1,2)] assms(3) by (cases "view c") (auto split: if_splits)

lemma fail_half_open:
  assumes "ok c" "view (fail p now seed c) = HalfOpen t"
  shows "view c = HalfOpen t \<and> \<not> probe p"
  using fail_view [OF assms(1), of p now seed] assms(2) by (cases "view c") (auto split: if_splits)

lemma bstep_probe_tracked: "bstep False s t \<Longrightarrow> ok (brk s) \<Longrightarrow> probe_tracked s \<Longrightarrow> probe_tracked t"
proof (induction rule: breaker_step.induct)
  case (grant s c' p i)
  show ?case
    unfolding probe_tracked_def using acquire_grants_probe [OF grant.prems(1) grant.hyps(1)] by auto
next
  case (refuse s c')
  then show ?case
    unfolding probe_tracked_def using acquire_grants_probe [OF refuse.prems(1) refuse.hyps] by auto
next
  case (success s i p)
  then show ?case by (auto simp: probe_tracked_def succeed_view)
next
  case (failure s i p seed)
  show ?case
    unfolding probe_tracked_def
  proof (intro allI impI)
    fix t assume "view (brk (s\<lparr>brk := fail p (clock s) seed (brk s),
      inflight := (inflight s)(i := None)\<rparr>)) = HalfOpen t"
    then have h: "view (brk s) = HalfOpen t" "\<not> probe p"
      using fail_half_open [OF failure.prems(1)] by auto
    with failure.prems(2) obtain j where j: "inflight s j = Some \<lparr>probe = True\<rparr>"
      by (auto simp: probe_tracked_def)
    with h(2) failure.hyps have "j \<noteq> i" by auto
    with j show "\<exists>i'. inflight (s\<lparr>brk := fail p (clock s) seed (brk s),
      inflight := (inflight s)(i := None)\<rparr>) i' = Some \<lparr>probe = True\<rparr>"
      by (intro exI [of _ j]) simp
  qed
qed (auto simp: probe_tracked_def)

lemma breach_probe_tracked:
  assumes "breach False s t" "ok (brk s)" "probe_tracked s"
  shows "probe_tracked t"
proof -
  have "ok (brk t) \<and> probe_tracked t"
    by (rule breaker_reach_invariant [OF assms(1), where P = "\<lambda>s. ok (brk s) \<and> probe_tracked s"])
      (use assms bstep_ok bstep_probe_tracked in blast)+
  then show ?thesis ..
qed

text \<open>Without abandonment every state reached can still be driven back to closed.\<close>

lemma recover_half_open:
  assumes "ok (brk s)" "inflight s i = Some p"
  shows "\<exists>t. breach ab s t \<and> view (brk t) = Closed 0"
proof (intro exI conjI)
  show "breach ab s (s\<lparr>brk := succeed (brk s), inflight := (inflight s)(i := None)\<rparr>)"
    by (rule reach_step [OF reach_here success [OF assms(2)]])
qed (use assms in \<open>simp add: succeed_view\<close>)

lemma recover_open:
  assumes "ok (brk s)" "view (brk s) = Open t" "inflight s i = None"
  shows "\<exists>u. breach ab s u \<and> view (brk u) = Closed 0"
proof -
  define s1 where "s1 = s\<lparr>clock := max (clock s) t\<rparr>"
  have r1: "breach ab s s1"
    unfolding s1_def by (rule reach_step [OF reach_here tick]) simp
  obtain c' r where acq: "acquire (clock s1) (brk s1) = (c', r)" by (cases "acquire (clock s1) (brk s1)")
  have r: "r = Some \<lparr>probe = True\<rparr>"
    using acquire_open [of "brk s1" t "clock s1"] assms acq by (simp add: s1_def)
  define s2 where "s2 = s1\<lparr>brk := c', inflight := (inflight s1)(i \<mapsto> \<lparr>probe = True\<rparr>)\<rparr>"
  have r2: "breach ab s1 s2"
    unfolding s2_def using acq r assms(3) by (intro reach_step [OF reach_here grant]) (auto simp: s1_def)
  have "ok (brk s2)" "inflight s2 i = Some \<lparr>probe = True\<rparr>"
    using acquire_ok [OF _ acq] assms(1) by (auto simp: s2_def s1_def)
  from recover_half_open [OF this] obtain u where u: "breach ab s2 u" "view (brk u) = Closed 0" by blast
  with r1 r2 show ?thesis by (meson breaker_reach_trans)
qed

lemma recoverable:
  assumes "breach False (breaker_start t0 c) s" "ok c" "view c = Closed n" "inflight s i = None"
  shows "\<exists>u. breach False s u \<and> (\<exists>n. view (brk u) = Closed n)"
proof -
  have start: "ok (brk (breaker_start t0 c))" "probe_tracked (breaker_start t0 c)"
    using assms(2,3) by (auto simp: breaker_start_def probe_tracked_def)
  have ok: "ok (brk s)" using breach_ok [OF assms(1) start(1)] .
  have tracked: "probe_tracked s" using breach_probe_tracked [OF assms(1) start] .
  show ?thesis
  proof (cases "view (brk s)")
    case (Closed n)
    then show ?thesis by (auto intro: reach_here)
  next
    case (Open t)
    with recover_open [OF ok this assms(4)] show ?thesis by blast
  next
    case (HalfOpen t)
    with tracked obtain j where "inflight s j = Some \<lparr>probe = True\<rparr>"
      by (auto simp: probe_tracked_def)
    with recover_half_open [OF ok] show ?thesis by blast
  qed
qed

text \<open>A half-open breaker with no permit in flight refuses every caller for ever.\<close>

definition wedged :: "'c system \<Rightarrow> bool" where
  "wedged s \<longleftrightarrow> ok (brk s) \<and> (\<exists>t. view (brk s) = HalfOpen t) \<and> inflight s = Map.empty"

lemma bstep_wedged: "bstep ab s u \<Longrightarrow> wedged s \<Longrightarrow> wedged u"
proof (induction rule: breaker_step.induct)
  case (grant s c' p i)
  then show ?case using acquire_half_open(1) [of "brk s" _ "clock s"] by (auto simp: wedged_def)
next
  case (refuse s c')
  then have "ok c'" using acquire_ok by (auto simp: wedged_def)
  with refuse show ?case using acquire_half_open(2) [of "brk s" _ "clock s"] by (auto simp: wedged_def)
qed (auto simp: wedged_def)

lemma breach_wedged:
  assumes "breach ab s u" "wedged s"
  shows "wedged u \<and> snd (acquire now (brk u)) = None"
proof -
  have w: "wedged u"
    using breaker_reach_invariant [OF assms(1), where P = wedged] bstep_wedged assms(2) by blast
  then obtain t where "ok (brk u)" "view (brk u) = HalfOpen t" by (auto simp: wedged_def)
  with w show ?thesis using acquire_half_open(1) by blast
qed

text \<open>Failures: \<open>k\<close> failures of plain callers below the threshold keep the breaker closed, the
  failure that reaches it opens the breaker until the retry instant.\<close>

lemma fail_below_threshold:
  assumes "ok c" "view c = Closed n" "Suc n < threshold c" "\<not> probe p"
  shows "view (fail p now seed c) = Closed (Suc n)"
  using fail_view [OF assms(1)] assms(2-) by simp

lemma fail_at_threshold:
  assumes "ok c" "view c = Closed n" "threshold c \<le> Suc n" "\<not> probe p"
  shows "view (fail p now seed c) = Open (until now seed c)"
  using fail_view [OF assms(1)] assms(2-) by simp

lemma plain_failures:
  assumes "ok c" "view c = Closed n" "n + length reports < threshold c"
  shows "view (failure_run fail reports c) = Closed (n + length reports)
    \<and> ok (failure_run fail reports c) \<and> threshold (failure_run fail reports c) = threshold c"
  using assms
proof (induction reports arbitrary: c n)
  case (Cons r reports)
  obtain now seed where r: "r = (now, seed)" by (cases r)
  define c' where "c' = fail \<lparr>probe = False\<rparr> now seed c"
  have v: "view c' = Closed (Suc n)"
    unfolding c'_def using Cons.prems by (intro fail_below_threshold) auto
  have o: "ok c'" "threshold c' = threshold c"
    using Cons.prems fail_ok fail_threshold by (auto simp: c'_def)
  have "Suc n + length reports < threshold c'" using Cons.prems(3) o(2) by simp
  from Cons.IH [OF o(1) v this] o(2) show ?case by (simp add: r flip: c'_def)
qed auto

lemma plain_failures_open:
  assumes "ok c" "view c = Closed n" "n + length reports + 1 = threshold c"
  shows "view (fail \<lparr>probe = False\<rparr> now seed (failure_run fail reports c))
    = Open (until now seed (failure_run fail reports c))"
  using plain_failures [OF assms(1,2), of reports] assms(3) fail_at_threshold by simp

lemma fail_probe:
  assumes "ok c" "view c = HalfOpen t" "probe p"
  shows "view (fail p now seed c) = Open (until now seed c)"
  using fail_view [OF assms(1)] assms(2-) by simp

text \<open>One query that is granted and then fails.\<close>

lemma failing_round:
  assumes "ok (brk s)" "view (brk s) = Closed n" "inflight s = Map.empty"
  obtains u where "breach ab s u" "inflight u = Map.empty" "ok (brk u)"
    "threshold (brk u) = threshold (brk s)"
    "view (brk u) = (if Suc n < threshold (brk s) then Closed (Suc n) else Open (until (clock s) 0 (fst (acquire (clock s) (brk s)))))"
proof -
  define c' where "c' = fst (acquire (clock s) (brk s))"
  have acq: "acquire (clock s) (brk s) = (c', Some \<lparr>probe = False\<rparr>)"
    using acquire_closed [OF assms(1,2)] by (simp add: c'_def prod_eq_iff)
  have c': "ok c'" "view c' = Closed n" "threshold c' = threshold (brk s)"
    using acquire_ok [OF assms(1) acq] acquire_view [OF assms(1) acq] assms(2)
    by (auto simp: c'_def acquire_threshold)
  define s1 where "s1 = s\<lparr>brk := c', inflight := (inflight s)(0 \<mapsto> \<lparr>probe = False\<rparr>)\<rparr>"
  define s2 where "s2 = s1\<lparr>brk := fail \<lparr>probe = False\<rparr> (clock s1) 0 (brk s1), inflight := (inflight s1)(0 := None)\<rparr>"
  have "bstep ab s s1" unfolding s1_def using acq assms(3) by (intro grant) auto
  moreover have "bstep ab s1 s2" unfolding s2_def by (intro failure) (simp add: s1_def)
  ultimately have "breach ab s s2" by (blast intro: reach_here reach_step)
  moreover have "inflight s2 = Map.empty" using assms(3) by (auto simp: s2_def s1_def)
  moreover have "ok (brk s2)" "threshold (brk s2) = threshold (brk s)"
    using c' by (auto simp: s2_def s1_def fail_ok fail_threshold)
  moreover have "view (brk s2) = (if Suc n < threshold (brk s) then Closed (Suc n) else Open (until (clock s) 0 c'))"
    using c' by (simp add: s2_def s1_def fail_view)
  ultimately show ?thesis using that c'_def by blast
qed

lemma open_reachable:
  assumes "ok (brk s)" "view (brk s) = Closed n" "inflight s = Map.empty" "n < threshold (brk s)"
  shows "\<exists>u t. breach ab s u \<and> inflight u = Map.empty \<and> ok (brk u) \<and> view (brk u) = Open t"
  using assms
proof (induction "threshold (brk s) - n" arbitrary: s n rule: less_induct)
  case less
  from failing_round [OF less.prems(1-3), of ab] obtain u where
    u: "breach ab s u" "inflight u = Map.empty" "ok (brk u)" "threshold (brk u) = threshold (brk s)"
    and v: "view (brk u) = (if Suc n < threshold (brk s) then Closed (Suc n) else Open (until (clock s) 0 (fst (acquire (clock s) (brk s)))))" .
  show ?case
  proof (cases "Suc n < threshold (brk s)")
    case True
    with less.prems(4) u(4) have "threshold (brk u) - Suc n < threshold (brk s) - n" by simp
    from less.hyps [OF this u(3) _ u(2)] True u(4) v obtain w t where
      "breach ab u w" "inflight w = Map.empty" "ok (brk w)" "view (brk w) = Open t" by auto
    with u(1) show ?thesis by (meson breaker_reach_trans)
  qed (use u v in auto)
qed

text \<open>Where callers may leave without a report, a wedged state is reachable.\<close>

lemma wedge_reachable:
  assumes "ok c" "view c = Closed n" "n < threshold c"
  shows "\<exists>s. breach True (breaker_start t0 c) s \<and> wedged s"
proof -
  obtain u t where u: "breach True (breaker_start t0 c) u" "inflight u = Map.empty" "ok (brk u)"
    and o: "view (brk u) = Open t"
    using open_reachable [of "breaker_start t0 c" n True] assms by (auto simp: breaker_start_def)
  define s1 where "s1 = u\<lparr>clock := max (clock u) t\<rparr>"
  define c' where "c' = fst (acquire (clock s1) (brk s1))"
  have acq: "acquire (clock s1) (brk s1) = (c', Some \<lparr>probe = True\<rparr>)"
    using acquire_open(1) [OF u(3) o, of "clock s1"] by (simp add: c'_def s1_def prod_eq_iff)
  define s2 where "s2 = s1\<lparr>brk := c', inflight := (inflight s1)(0 \<mapsto> \<lparr>probe = True\<rparr>)\<rparr>"
  define s3 where "s3 = s2\<lparr>inflight := (inflight s2)(0 := None)\<rparr>"
  have "bstep True u s1" unfolding s1_def by (rule tick) simp
  moreover have "bstep True s1 s2" unfolding s2_def using acq u(2) by (intro grant) (auto simp: s1_def)
  moreover have "bstep True s2 s3" unfolding s3_def by (intro abandon) (auto simp: s2_def)
  ultimately have "breach True (breaker_start t0 c) s3" using u(1) by (blast intro: reach_step)
  moreover have "wedged s3"
    using acquire_ok [OF _ acq] acquire_open(2) [OF u(3) o, of "clock s1"] u(2,3)
    by (auto simp: wedged_def s3_def s2_def s1_def c'_def)
  ultimately show ?thesis by blast
qed

end

end
