(* ===== verification/RuntimeState.thy ===== *)
theory RuntimeState
  imports Contracts
begin

text \<open>
  internal/statewire/state.go and cmd/guarddns/state.go: the state the supervisor process keeps
  about its components and encrypted providers, and the snapshots it sends once a second over a
  Unix datagram socket.  Counters are 64-bit words; \<^verbatim>\<open>now\<close> arguments are the clock
  readings the code takes.
\<close>

section \<open>Data\<close>

record component =
  k_enabled :: bool
  k_up :: bool
  k_restarts :: "64 word"
  k_backoffSeconds :: rat

record doh_stats =
  d_requests :: "64 word"
  d_successes :: "64 word"
  d_failures :: "64 word"
  d_backoffSkips :: "64 word"
  d_durationMicroseconds :: "64 word"
  d_retryAtUnixMilli :: int
  d_lastSuccessUnix :: int
  d_lastFailureUnix :: int

record snapshot =
  s_timestamp :: int
  s_components :: "string \<rightharpoonup> component"
  s_dohUpstreams :: "string \<rightharpoonup> doh_stats"

record runtimeState =
  rs_components :: "string \<rightharpoonup> component"
  rs_dohUpstreams :: "string \<rightharpoonup> doh_stats"

text \<open>Go's zero values, read from a map for a missing key.\<close>

definition zero_component :: component where
  "zero_component = \<lparr>k_enabled = False, k_up = False, k_restarts = 0, k_backoffSeconds = 0\<rparr>"

definition zero_stats :: doh_stats where
  "zero_stats = \<lparr>d_requests = 0, d_successes = 0, d_failures = 0, d_backoffSkips = 0,
     d_durationMicroseconds = 0, d_retryAtUnixMilli = 0, d_lastSuccessUnix = 0, d_lastFailureUnix = 0\<rparr>"

definition the_or :: "'a \<Rightarrow> 'a option \<Rightarrow> 'a" where
  [guard_defs]: "the_or d x = (case x of None \<Rightarrow> d | Some v \<Rightarrow> v)"

section \<open>Operations\<close>

definition newRuntimeState :: runtimeState where
  "newRuntimeState = \<lparr>rs_components =
     [''doh_bridge'' \<mapsto> zero_component\<lparr>k_enabled := True\<rparr>,
      ''mosdns'' \<mapsto> zero_component\<lparr>k_enabled := True\<rparr>,
      ''unbound'' \<mapsto> zero_component\<lparr>k_enabled := True\<rparr>,
      ''unbound_recursive'' \<mapsto> zero_component\<lparr>k_enabled := True\<rparr>],
     rs_dohUpstreams = Map.empty\<rparr>"

definition state_update :: "string \<Rightarrow> (component \<Rightarrow> component) \<Rightarrow> runtimeState \<Rightarrow> runtimeState" where
  "state_update name fn s =
     s\<lparr>rs_components := (rs_components s)(name \<mapsto> fn (the_or zero_component (rs_components s name)))\<rparr>"

datatype dohObservation = dohSuccess | dohFailure | dohBackoffSkip

definition registerDoHUpstream :: "string \<Rightarrow> runtimeState \<Rightarrow> runtimeState" where
  "registerDoHUpstream name s =
     (if rs_dohUpstreams s name = None
      then s\<lparr>rs_dohUpstreams := (rs_dohUpstreams s)(name \<mapsto> zero_stats)\<rparr> else s)"

definition unix_seconds :: "instant \<Rightarrow> int" where
  [guard_defs]: "unix_seconds t = t div 1000000000"

definition unix_milli :: "instant \<Rightarrow> int" where
  [guard_defs]: "unix_milli t = t div 1000000"

definition count_observation :: "dohObservation \<Rightarrow> instant \<Rightarrow> doh_stats \<Rightarrow> doh_stats" where
  "count_observation result now u =
     (case result of
        dohSuccess \<Rightarrow> u\<lparr>d_successes := d_successes u + 1, d_lastSuccessUnix := unix_seconds now\<rparr>
      | dohFailure \<Rightarrow> u\<lparr>d_failures := d_failures u + 1, d_lastFailureUnix := unix_seconds now\<rparr>
      | dohBackoffSkip \<Rightarrow> u\<lparr>d_backoffSkips := d_backoffSkips u + 1\<rparr>)"

definition observeDoHUpstream ::
  "string \<Rightarrow> dohObservation \<Rightarrow> duration \<Rightarrow> instant \<Rightarrow> instant \<Rightarrow> runtimeState \<Rightarrow> runtimeState" where
  "observeDoHUpstream name result duration retryAt now s =
     (let u = the_or zero_stats (rs_dohUpstreams s name);
          u = u\<lparr>d_requests := d_requests u + 1\<rparr>;
          u = (if 0 < duration
               then u\<lparr>d_durationMicroseconds := d_durationMicroseconds u + of_int (duration div 1000)\<rparr>
               else u);
          u = count_observation result now u;
          u = u\<lparr>d_retryAtUnixMilli := (if retryAt = zero_time then 0 else unix_milli retryAt)\<rparr>
      in s\<lparr>rs_dohUpstreams := (rs_dohUpstreams s)(name \<mapsto> u)\<rparr>)"

definition state_snapshot :: "instant \<Rightarrow> runtimeState \<Rightarrow> snapshot" where
  "state_snapshot now s =
     \<lparr>s_timestamp = unix_seconds now, s_components = rs_components s, s_dohUpstreams = rs_dohUpstreams s\<rparr>"

text \<open>
  \<^verbatim>\<open>sendState\<close>: the datagram that reaches the socket, if any.  The JSON encoder and whether
  the address resolves, the socket can be dialled and the write succeeds are parameters.
\<close>

definition sendState ::
  "(snapshot \<Rightarrow> string option) \<Rightarrow> bool \<Rightarrow> bool \<Rightarrow> bool \<Rightarrow> instant \<Rightarrow> runtimeState \<Rightarrow> string option" where
  "sendState marshal addr_ok dial_ok write_ok now s =
     (case marshal (state_snapshot now s) of
        None \<Rightarrow> None
      | Some payload \<Rightarrow> if \<not> addr_ok then None else if \<not> dial_ok then None
          else if \<not> write_ok then None else Some payload)"

text \<open>
  \<^verbatim>\<open>sendStateLoop\<close>: one send at the start and one per tick until the context is done.
  An iteration is the clock reading, the state at that moment, whether the socket can be
  dialled, whether it accepts the datagram, and whether the \<^verbatim>\<open>select\<close> after it sees the context done.  Resolving the address
  of a known socket family cannot fail.
\<close>

record send_iteration =
  it_now :: instant
  it_state :: runtimeState
  it_dial :: bool
  it_write :: bool
  it_done :: bool

fun sendStateLoop :: "(snapshot \<Rightarrow> string option) \<Rightarrow> send_iteration list \<Rightarrow> (instant \<times> string) list" where
  "sendStateLoop marshal [] = []"
| "sendStateLoop marshal (it # its) =
     (case sendState marshal True (it_dial it) (it_write it) (it_now it) (it_state it) of
        None \<Rightarrow> []
      | Some payload \<Rightarrow> [(it_now it, payload)])
     @ (if it_done it then [] else sendStateLoop marshal its)"

section \<open>Components and statistics as stores\<close>

text \<open>What a reader finds under a name; Go maps answer a missing key with the zero value.\<close>

definition comp_of :: "string \<Rightarrow> runtimeState \<Rightarrow> component" where
  "comp_of name s = the_or zero_component (rs_components s name)"

definition stats_of :: "string \<Rightarrow> runtimeState \<Rightarrow> doh_stats" where
  "stats_of name s = the_or zero_stats (rs_dohUpstreams s name)"

definition stats_update :: "string \<Rightarrow> (doh_stats \<Rightarrow> doh_stats) \<Rightarrow> runtimeState \<Rightarrow> runtimeState" where
  "stats_update name f s = s\<lparr>rs_dohUpstreams := (rs_dohUpstreams s)(name \<mapsto> f (stats_of name s))\<rparr>"

text \<open>The change one observation makes to a provider's statistics.\<close>

definition observation_change :: "dohObservation \<Rightarrow> duration \<Rightarrow> instant \<Rightarrow> instant \<Rightarrow> doh_stats \<Rightarrow> doh_stats" where
  "observation_change result duration retryAt now u =
     (let u = u\<lparr>d_requests := d_requests u + 1\<rparr>;
          u = (if 0 < duration
               then u\<lparr>d_durationMicroseconds := d_durationMicroseconds u + of_int (duration div 1000)\<rparr>
               else u);
          u = count_observation result now u
      in u\<lparr>d_retryAtUnixMilli := (if retryAt = zero_time then 0 else unix_milli retryAt)\<rparr>)"

interpretation components: keyed_store comp_of state_update
  by unfold_locales (simp_all add: comp_of_def state_update_def the_or_def)

interpretation statistics: keyed_store stats_of stats_update
  by unfold_locales (simp_all add: stats_of_def stats_update_def the_or_def)

lemma comp_of_update [simp]:
  "comp_of name (state_update n fn s) = (if n = name then fn (comp_of name s) else comp_of name s)"
  by (simp add: components.get_put_if)

lemma observe_is_update:
  "observeDoHUpstream name result duration retryAt now s
     = stats_update name (observation_change result duration retryAt now) s"
  by (simp add: observeDoHUpstream_def stats_update_def observation_change_def stats_of_def Let_def)

text \<open>Components and statistics do not interfere.\<close>

lemma comp_of_observe [simp]: "comp_of name (observeDoHUpstream n r d t now s) = comp_of name s"
  by (simp add: comp_of_def observe_is_update stats_update_def)

lemma stats_of_state_update [simp]: "stats_of name (state_update n fn s) = stats_of name s"
  by (simp add: stats_of_def state_update_def)

section \<open>Counting observations\<close>

text \<open>A history of observations: provider, result, duration, retry instant, clock.\<close>

type_synonym observation = "string \<times> dohObservation \<times> duration \<times> instant \<times> instant"

fun observe_all :: "observation list \<Rightarrow> runtimeState \<Rightarrow> runtimeState" where
  "observe_all [] s = s"
| "observe_all ((name, result, duration, retryAt, now) # os) s =
     observe_all os (observeDoHUpstream name result duration retryAt now s)"

definition result_count :: "string \<Rightarrow> dohObservation \<Rightarrow> observation list \<Rightarrow> nat" where
  "result_count name r os = length (filter (\<lambda>(n, r', _). n = name \<and> r' = r) os)"

lemmas state_defs = state_update_def registerDoHUpstream_def observeDoHUpstream_def
  count_observation_def stats_of_def the_or_def Let_def

lemma stats_of_observe_other: "n \<noteq> name \<Longrightarrow> stats_of name (observeDoHUpstream n r d t now s) = stats_of name s"
  by (simp add: observe_is_update statistics.get_put_other)

lemma observation_change_counts [simp]:
  "d_requests (observation_change r d t now u) = d_requests u + 1"
  "d_successes (observation_change r d t now u) = d_successes u + (if r = dohSuccess then 1 else 0)"
  "d_failures (observation_change r d t now u) = d_failures u + (if r = dohFailure then 1 else 0)"
  "d_backoffSkips (observation_change r d t now u) = d_backoffSkips u + (if r = dohBackoffSkip then 1 else 0)"
  by (auto simp: observation_change_def count_observation_def Let_def split: dohObservation.splits)

lemma stats_of_observe:
  "stats_of name (observeDoHUpstream name r d t now s) = observation_change r d t now (stats_of name s)"
  by (simp add: observe_is_update statistics.get_put)

lemma stats_of_observe_all:
  "d_successes (stats_of name (observe_all os s))
     = d_successes (stats_of name s) + of_nat (result_count name dohSuccess os) \<and>
   d_failures (stats_of name (observe_all os s))
     = d_failures (stats_of name s) + of_nat (result_count name dohFailure os) \<and>
   d_backoffSkips (stats_of name (observe_all os s))
     = d_backoffSkips (stats_of name s) + of_nat (result_count name dohBackoffSkip os) \<and>
   d_requests (stats_of name (observe_all os s))
     = d_requests (stats_of name s) + of_nat (result_count name dohSuccess os
       + result_count name dohFailure os + result_count name dohBackoffSkip os)"
proof (induction os s rule: observe_all.induct)
  case (2 n r d t now os s)
  then show ?case
    by (cases "n = name"; cases r)
      (auto simp: result_count_def stats_of_observe stats_of_observe_other algebra_simps)
qed (simp add: result_count_def)

lemma stats_of_start [simp]: "stats_of name newRuntimeState = zero_stats"
  by (simp add: stats_of_def newRuntimeState_def the_or_def)

lemma stats_of_register [simp]: "stats_of name (registerDoHUpstream n s) = stats_of name s"
  by (auto simp: state_defs)

section \<open>Properties\<close>

text \<open>
  Whatever the interleaving of providers and results, the exported counters of a
  provider equal the number of its observations of each kind, and its request counter is their
  sum (modulo the 64-bit width).
\<close>

lemma doh_counters_exact:
  "d_successes (stats_of name (observe_all os newRuntimeState)) = of_nat (result_count name dohSuccess os) \<and>
   d_failures (stats_of name (observe_all os newRuntimeState)) = of_nat (result_count name dohFailure os) \<and>
   d_backoffSkips (stats_of name (observe_all os newRuntimeState)) = of_nat (result_count name dohBackoffSkip os) \<and>
   d_requests (stats_of name (observe_all os newRuntimeState))
     = d_successes (stats_of name (observe_all os newRuntimeState))
       + d_failures (stats_of name (observe_all os newRuntimeState))
       + d_backoffSkips (stats_of name (observe_all os newRuntimeState))"
  using stats_of_observe_all [of name os newRuntimeState] by (simp add: zero_stats_def)

end
