(* ===== verification/DoHBridge.thy ===== *)
theory DoHBridge
  imports Backoff Breaker RuntimeState Config
begin

text \<open>
  cmd/guarddns/dohbridge.go: the encrypted DNS bridge.  One \<open>dohUpstream\<close> per provider (dial
  address cache, round-robin dialling, half-open backoff, one HTTPS exchange), the ordered failover
  of \<^verbatim>\<open>ServeDNS\<close>, the rate-limited warning, and the life cycle of the bridge.  The DNS codec,
  the HTTP client, the bootstrap DNS client and the sockets are parameters.
\<close>

section \<open>Dial addresses\<close>

definition dialAddressTTL :: duration where
  "dialAddressTTL = minute"

record dialAddressCache =
  dc_addresses :: "string list"
  dc_expiresAt :: instant

definition new_cache :: dialAddressCache where
  "new_cache = \<lparr>dc_addresses = [], dc_expiresAt = zero_time\<rparr>"

definition cache_hit :: "instant \<Rightarrow> dialAddressCache \<Rightarrow> bool" where
  "cache_hit now c \<longleftrightarrow> 0 < length (dc_addresses c) \<and> now < dc_expiresAt c"

definition cache_store :: "string list \<Rightarrow> instant \<Rightarrow> dialAddressCache \<Rightarrow> dialAddressCache" where
  "cache_store addresses stored c = c\<lparr>dc_addresses := addresses, dc_expiresAt := stored + dialAddressTTL\<rparr>"

text \<open>
  \<^verbatim>\<open>get\<close> releases the mutex while it resolves: \<open>others\<close> is what other dials do to the cache
  meanwhile, \<open>now\<close> and \<open>stored\<close> are its two clock readings.
\<close>

definition cache_get ::
  "instant \<Rightarrow> (goerr + string list) \<Rightarrow> (dialAddressCache \<Rightarrow> dialAddressCache) \<Rightarrow> instant \<Rightarrow> dialAddressCache
    \<Rightarrow> dialAddressCache \<times> (goerr + string list)" where
  "cache_get now resolve others stored c =
     (if cache_hit now c then (c, Inr (dc_addresses c))
      else case resolve of
          Inl e \<Rightarrow> (others c, Inl e)
        | Inr addresses \<Rightarrow> (cache_store addresses stored (others c), Inr addresses))"

definition cache_invalidate :: "dialAddressCache \<Rightarrow> dialAddressCache" where
  "cache_invalidate c = c\<lparr>dc_addresses := [], dc_expiresAt := zero_time\<rparr>"

text \<open>\<^verbatim>\<open>resolveDoHAddresses\<close>: \<open>client\<close> is the bootstrap DNS client, asked for the address
  records of the provider's name.\<close>

definition resolveDoHAddresses ::
  "(int \<Rightarrow> string) \<Rightarrow> (string \<Rightarrow> string \<Rightarrow> nat \<Rightarrow> goerr + dns_msg) \<Rightarrow> string \<Rightarrow> string \<Rightarrow> goerr + string list" where
  "resolveDoHAddresses rcode_name client bootstrapDNS serverName =
     (case client bootstrapDNS serverName dns_TypeA of
        Inl e \<Rightarrow> Inl e
      | Inr response \<Rightarrow>
          if m_rcode response \<noteq> RcodeSuccess
          then Inl (error_new (''bootstrap DNS returned '' @ rcode_name (m_rcode response)))
          else let addresses = map rr_addr (filter (\<lambda>rr. rr_type rr = dns_TypeA) (m_answer response))
               in if length addresses = 0 then Inl (error_new ''bootstrap DNS returned no IPv4 address'')
                  else Inr addresses)"

section \<open>Providers\<close>

text \<open>Where a provider's dial addresses come from: a fixed list, or a bootstrap server behind a
  cache.\<close>

datatype dial_source =
    Static "string list"
  | Bootstrapped string dialAddressCache

record dohUpstream =
  u_tag :: string
  u_url :: string
  u_serverName :: string
  u_source :: dial_source
  u_next :: "64 word"
  u_observed :: bool
  u_backoffStep :: nat
  u_failures :: nat
  u_retryAt :: instant
  u_probing :: bool

definition newDoHUpstreamWithResolver :: "string \<Rightarrow> string \<Rightarrow> string \<Rightarrow> dial_source \<Rightarrow> dohUpstream" where
  "newDoHUpstreamWithResolver tag url serverName source =
     \<lparr>u_tag = tag, u_url = url, u_serverName = serverName, u_source = source, u_next = 0,
      u_observed = False, u_backoffStep = 0, u_failures = 0, u_retryAt = zero_time, u_probing = False\<rparr>"

definition newDoHUpstream :: "string \<Rightarrow> string \<Rightarrow> string \<Rightarrow> string list \<Rightarrow> dohUpstream" where
  "newDoHUpstream tag url serverName dialIPs = newDoHUpstreamWithResolver tag url serverName (Static dialIPs)"

definition newBootstrappedDoHUpstream :: "string \<Rightarrow> string \<Rightarrow> string \<Rightarrow> string \<Rightarrow> dohUpstream" where
  "newBootstrappedDoHUpstream tag url serverName bootstrapDNS =
     newDoHUpstreamWithResolver tag url serverName (Bootstrapped bootstrapDNS new_cache)"

definition autoDoHUpstreams :: "config \<Rightarrow> dohUpstream list" where
  "autoDoHUpstreams cfg =
     (if \<not> cfg_autoEnabled cfg then []
      else [newBootstrappedDoHUpstream ''nextdns-via-auto-forward'' ''https://dns.nextdns.io''
              ''dns.nextdns.io'' (cfg_autoDNS cfg),
            newBootstrappedDoHUpstream ''quad9-via-auto-forward'' ''https://dns.quad9.net/dns-query''
              ''dns.quad9.net'' (cfg_autoDNS cfg)])"

definition directDoHUpstreams :: "dohUpstream list" where
  "directDoHUpstreams =
     [newDoHUpstream ''cloudflare'' ''https://cloudflare-dns.com/dns-query'' ''cloudflare-dns.com''
        [''104.16.248.249'', ''104.16.249.249''],
      newDoHUpstream ''360'' ''https://doh.360.cn/dns-query'' ''doh.360.cn''
        [''101.226.4.6'', ''218.30.118.6'', ''101.91.111.153'', ''36.99.170.86'', ''106.63.24.74'']]"

section \<open>Dialling\<close>

text \<open>
  \<^verbatim>\<open>int(next.Add(1)-1) % len(dialIPs)\<close>: the counter is read as a signed 64-bit number and
  Go's remainder takes the sign of the dividend; a negative index panics.
\<close>

definition go_rem :: "int \<Rightarrow> int \<Rightarrow> int" where
  "go_rem a b = (if a < 0 then - (- a mod b) else a mod b)"

datatype dial_result = DialError goerr | DialTo string | DialPanic

definition dial_target :: "string \<Rightarrow> goerr + string list \<Rightarrow> 64 word \<Rightarrow> 64 word \<times> dial_result" where
  "dial_target tag resolved counter =
     (case resolved of
        Inl e \<Rightarrow> (counter, DialError (error_wrap (tag @ '' resolve dial address'') e))
      | Inr dialIPs \<Rightarrow>
          if length dialIPs = 0 then (counter, DialError (error_new ''encrypted upstream has no dial address''))
          else let index = go_rem (sint counter) (int (length dialIPs))
               in (counter + 1,
                   if index < 0 then DialPanic
                   else DialTo (net_JoinHostPort (dialIPs ! nat index) ''443'')))"

text \<open>\<^verbatim>\<open>DialContext\<close> of the provider's transport; \<open>lookup\<close> asks a bootstrap server.\<close>

definition dialContext ::
  "(string \<Rightarrow> string \<Rightarrow> goerr + string list) \<Rightarrow> instant \<Rightarrow> instant \<Rightarrow> dohUpstream \<Rightarrow> dohUpstream \<times> dial_result" where
  "dialContext lookup now stored u =
     (let (source, resolved) =
        (case u_source u of
           Static ips \<Rightarrow> (Static ips, Inr ips)
         | Bootstrapped server cache \<Rightarrow>
             (case cache_get now (lookup server (u_serverName u)) id stored cache of
                (cache', r) \<Rightarrow> (Bootstrapped server cache', r)));
          (counter, result) = dial_target (u_tag u) resolved (u_next u)
      in (u\<lparr>u_source := source, u_next := counter\<rparr>, result))"

definition invalidateDialIPs :: "dohUpstream \<Rightarrow> dohUpstream" where
  "invalidateDialIPs u =
     (case u_source u of
        Static ips \<Rightarrow> u
      | Bootstrapped server cache \<Rightarrow> u\<lparr>u_source := Bootstrapped server (cache_invalidate cache)\<rparr>)"

section \<open>Backoff\<close>

definition dohFailureThreshold :: nat where
  "dohFailureThreshold = 2"

definition jitterDoHBackoff :: "nat \<Rightarrow> nat \<Rightarrow> duration" where
  "jitterDoHBackoff seed step =
     (let maximum = 5 * minute;
          delay = doubling_loop 1 step second maximum;
          jittered = spread_draw seed delay
      in if maximum < jittered then maximum else jittered)"

definition doh_acquire :: "instant \<Rightarrow> dohUpstream \<Rightarrow> dohUpstream \<times> permit option" where
  "doh_acquire now u =
     (if u_backoffStep u = 0 then (u, Some \<lparr>probe = False\<rparr>)
      else if now < u_retryAt u \<or> u_probing u then (u, None)
      else (u\<lparr>u_probing := True\<rparr>, Some \<lparr>probe = True\<rparr>))"

definition doh_park :: "instant \<Rightarrow> nat \<Rightarrow> dohUpstream \<Rightarrow> dohUpstream" where
  "doh_park now seed u =
     u\<lparr>u_probing := False, u_retryAt := now + jitterDoHBackoff seed (u_backoffStep u)\<rparr>"

definition doh_fail :: "permit \<Rightarrow> instant \<Rightarrow> nat \<Rightarrow> dohUpstream \<Rightarrow> dohUpstream" where
  "doh_fail p now seed u =
     (if u_backoffStep u = 0 then
        let u = u\<lparr>u_failures := u_failures u + 1\<rparr>
        in if u_failures u < dohFailureThreshold then u
           else doh_park now seed (u\<lparr>u_backoffStep := 1\<rparr>)
      else if probe p \<and> u_probing u then doh_park now seed (u\<lparr>u_backoffStep := u_backoffStep u + 1\<rparr>)
      else u)"

definition doh_succeed :: "dohUpstream \<Rightarrow> dohUpstream" where
  "doh_succeed u =
     u\<lparr>u_backoffStep := 0, u_failures := 0, u_retryAt := zero_time, u_probing := False\<rparr>"

section \<open>One exchange\<close>

text \<open>
  What the exchange calls: the codec, the request constructor (which may refuse the URL) and the
  HTTP client.  The client gives an error, or a status code with the bytes of the body and the
  error that ends the stream, if it does not end cleanly.
\<close>

record doh_net =
  net_pack :: "dns_msg \<Rightarrow> goerr + string"
  net_unpack :: "string \<Rightarrow> goerr + dns_msg"
  net_newRequest :: "string \<Rightarrow> goerr option"
  net_do :: "string \<Rightarrow> string \<Rightarrow> goerr + (nat \<times> string \<times> goerr option)"

definition dns_MaxMsgSize :: nat where
  "dns_MaxMsgSize = 65535"

text \<open>\<^verbatim>\<open>io.ReadAll(io.LimitReader(body, n))\<close>: the limit ends the stream before its error.\<close>

definition read_limited :: "nat \<Rightarrow> string \<times> goerr option \<Rightarrow> goerr + string" where
  "read_limited n body =
     (case body of (bytes, failure) \<Rightarrow>
        if n \<le> length bytes then Inr (take n bytes)
        else case failure of Some e \<Rightarrow> Inl e | None \<Rightarrow> Inr bytes)"

definition exchangeOnce :: "doh_net \<Rightarrow> dohUpstream \<Rightarrow> dns_msg \<Rightarrow> goerr + dns_msg" where
  "exchangeOnce net u query =
     (case net_pack net query of
        Inl e \<Rightarrow> Inl (error_wrap (u_tag u @ '' pack query'') e)
      | Inr payload \<Rightarrow>
          (case net_newRequest net (u_url u) of
             Some e \<Rightarrow> Inl (error_wrap (u_tag u @ '' create request'') e)
           | None \<Rightarrow>
               (case net_do net (u_url u) payload of
                  Inl e \<Rightarrow> Inl (error_wrap (u_tag u @ '' request'') e)
                | Inr (status, body) \<Rightarrow>
                    if status \<noteq> 200
                    then Inl (error_new (u_tag u @ '' returned HTTP '' @ strconv_Itoa (int status)))
                    else case read_limited dns_MaxMsgSize body of
                        Inl e \<Rightarrow> Inl (error_wrap (u_tag u @ '' read response'') e)
                      | Inr bytes \<Rightarrow>
                          (case net_unpack net bytes of
                             Inl e \<Rightarrow> Inl (error_wrap (u_tag u @ '' decode response'') e)
                           | Inr answer \<Rightarrow>
                               if \<not> m_response answer \<or> length (m_question answer) \<noteq> length (m_question query)
                               then Inl (error_new (u_tag u @ '' returned an invalid DNS response''))
                               else Inr (answer\<lparr>m_id := m_id query\<rparr>)))))"

text \<open>
  The surroundings of one call of \<^verbatim>\<open>exchange\<close>: its network, the clock readings at the start,
  in \<^verbatim>\<open>acquire\<close>, at the report, when the duration is taken and at the observation, the random state, and what other goroutines (concurrent
  exchanges and the dials of the transport) do to the provider between the critical sections.
\<close>

record doh_call =
  x_net :: doh_net
  x_started :: instant
  x_acquired :: instant
  x_reported :: instant
  x_measured :: instant
  x_recorded :: instant
  x_seed :: nat
  x_during :: "dohUpstream \<Rightarrow> dohUpstream"
  x_after :: "dohUpstream \<Rightarrow> dohUpstream"

definition doh_record :: "dohObservation \<Rightarrow> doh_call \<Rightarrow> dohUpstream \<Rightarrow> observation list" where
  "doh_record result x u =
     (if \<not> u_observed u then []
      else [(u_tag u, result, time_sub (x_measured x) (x_started x), u_retryAt u, x_recorded x)])"

text \<open>\<^verbatim>\<open>exchange\<close>: the provider afterwards, the result, and the observations it makes.\<close>

definition doh_exchange ::
  "doh_call \<Rightarrow> dns_msg \<Rightarrow> dohUpstream \<Rightarrow> dohUpstream \<times> (goerr + dns_msg) \<times> observation list" where
  "doh_exchange x query u =
     (case doh_acquire (x_acquired x) u of
        (u1, None) \<Rightarrow>
          (let u2 = x_after x u1
           in (u2, Inl (error_new (u_tag u @ '' retry is in exponential backoff'')), doh_record dohBackoffSkip x u2))
      | (u1, Some permit) \<Rightarrow>
          (case exchangeOnce (x_net x) u query of
             Inl e \<Rightarrow>
               (let u2 = x_after x (doh_fail permit (x_reported x) (x_seed x) (invalidateDialIPs (x_during x u1)))
                in (u2, Inl e, doh_record dohFailure x u2))
           | Inr answer \<Rightarrow>
               (let u2 = x_after x (doh_succeed (x_during x u1))
                in (u2, Inr answer, doh_record dohSuccess x u2))))"

section \<open>Failover\<close>

text \<open>
  \<^verbatim>\<open>resolverFunc\<close>: a response and an error, either of which may be absent, and an effect on
  the bridge's world.  The loop of \<^verbatim>\<open>ServeDNS\<close> pairs each resolver with the error of the
  request context read after it.
\<close>

type_synonym 's resolverFunc = "dns_msg \<Rightarrow> 's \<Rightarrow> 's \<times> dns_msg option \<times> goerr option"

fun serve_loop ::
  "('s resolverFunc \<times> goerr option) list \<Rightarrow> dns_msg \<Rightarrow> goerr option \<Rightarrow> 's \<Rightarrow> 's \<times> dns_msg option \<times> goerr option" where
  "serve_loop [] query lastErr w = (w, None, lastErr)"
| "serve_loop ((resolver, ctxErr) # rs) query lastErr w =
     (case resolver query w of
        (w', Some response, None) \<Rightarrow> (w', Some response, None)
      | (w', _, err) \<Rightarrow>
          (case ctxErr of
             Some e \<Rightarrow> (w', None, Some e)
           | None \<Rightarrow> serve_loop rs query err w'))"

text \<open>The part of \<^verbatim>\<open>dohBridge\<close> that changes while it serves.\<close>

record dohBridge =
  b_lastWarn :: instant
  b_closed :: bool
  b_shutdowns :: "string list"

text \<open>\<^verbatim>\<open>warnUnavailable\<close> reads the clock twice, for the check and for the stamp it leaves; a
  logged warning is given with its stamp.\<close>

definition warnUnavailable ::
  "instant \<times> instant \<Rightarrow> goerr option \<Rightarrow> dohBridge \<Rightarrow> dohBridge \<times> (instant \<times> goerr option) list" where
  "warnUnavailable now err b =
     (if time_sub (fst now) (b_lastWarn b) < 30 * second then (b, [])
      else (b\<lparr>b_lastWarn := snd now\<rparr>, [(snd now, err)]))"

text \<open>\<^verbatim>\<open>ServeDNS\<close>: the world, the bridge, the warnings logged and the messages written.
  \<open>setRcode\<close> is \<^verbatim>\<open>Msg.SetRcode\<close> on an empty message.\<close>

definition ServeDNS ::
  "(dns_msg \<Rightarrow> int \<Rightarrow> dns_msg) \<Rightarrow> ('s resolverFunc \<times> goerr option) list \<Rightarrow> instant \<times> instant \<Rightarrow> dns_msg \<Rightarrow> 's \<times> dohBridge
    \<Rightarrow> ('s \<times> dohBridge) \<times> (instant \<times> goerr option) list \<times> dns_msg list" where
  "ServeDNS setRcode resolvers now query wb =
     (case serve_loop resolvers query None (fst wb) of
        (w', Some response, _) \<Rightarrow> ((w', snd wb), [], [response])
      | (w', None, lastErr) \<Rightarrow>
          (let (b', warnings) = warnUnavailable now lastErr (snd wb)
           in ((w', b'), warnings, [setRcode query RcodeServerFailure])))"

text \<open>The world of the bridge's own resolvers: the providers in order and the supervisor state.\<close>

record doh_world =
  w_upstreams :: "dohUpstream list"
  w_state :: runtimeState

definition upstream_resolver :: "nat \<Rightarrow> doh_call \<Rightarrow> doh_world resolverFunc" where
  "upstream_resolver i x query w =
     (case doh_exchange x query (w_upstreams w ! i) of
        (u', r, obs) \<Rightarrow>
          (w\<lparr>w_upstreams := (w_upstreams w)[i := u'], w_state := observe_all obs (w_state w)\<rparr>,
           (case r of Inl _ \<Rightarrow> None | Inr m \<Rightarrow> Some m), (case r of Inl e \<Rightarrow> Some e | Inr _ \<Rightarrow> None)))"

text \<open>The resolvers \<^verbatim>\<open>startDoHBridge\<close> installs, one call each.\<close>

definition bridge_resolvers :: "(doh_call \<times> goerr option) list \<Rightarrow> (doh_world resolverFunc \<times> goerr option) list" where
  "bridge_resolvers calls = map (\<lambda>i. (upstream_resolver i (fst (calls ! i)), snd (calls ! i))) [0..<length calls]"

section \<open>Startup\<close>

text \<open>\<^verbatim>\<open>probeDoHUpstream\<close>: the query it builds (its identifier is random) and what it accepts.\<close>

definition probe_query :: "nat \<Rightarrow> dns_msg" where
  "probe_query ident = \<lparr>m_id = ident, m_response = False, m_rcode = RcodeSuccess, m_checking_disabled = True,
     m_edns = Some (1232, True), m_question = [\<lparr>q_name = ''dns.google.'', q_type = dns_TypeA\<rparr>], m_answer = []\<rparr>"

definition probe_check :: "(int \<Rightarrow> string) \<Rightarrow> dns_msg \<Rightarrow> goerr option" where
  "probe_check rcode_name response =
     (if m_rcode response \<noteq> RcodeSuccess
      then Some (error_new (''probe returned '' @ rcode_name (m_rcode response)))
      else let hasAddress = list_ex (\<lambda>rr. rr_type rr = dns_TypeA) (m_answer response);
               hasSignature = list_ex (\<lambda>rr. rr_type rr = dns_TypeRRSIG) (m_answer response)
           in if \<not> hasAddress then Some (error_new ''probe returned no IPv4 address'')
              else if \<not> hasSignature then Some (error_new ''probe stripped DNSSEC signatures'')
              else None)"

definition probeDoHUpstream ::
  "(int \<Rightarrow> string) \<Rightarrow> nat \<Rightarrow> doh_call \<Rightarrow> dohUpstream \<Rightarrow> dohUpstream \<times> observation list \<times> goerr option" where
  "probeDoHUpstream rcode_name ident x u =
     (case doh_exchange x (probe_query ident) u of
        (u', Inl e, obs) \<Rightarrow> (u', obs, Some e)
      | (u', Inr response, obs) \<Rightarrow> (u', obs, probe_check rcode_name response))"

definition attachDoHObservation :: "dohUpstream \<Rightarrow> runtimeState \<Rightarrow> dohUpstream \<times> runtimeState" where
  "attachDoHObservation u s = (u\<lparr>u_observed := True\<rparr>, registerDoHUpstream (u_tag u) s)"

text \<open>The log lines of the selection, all at info level: whether the provider answered its probe.\<close>

datatype probe_line = ProbeUnavailable string goerr | ProbeEnabled string

fun select_auto ::
  "(int \<Rightarrow> string) \<Rightarrow> (nat \<times> doh_call) list \<Rightarrow> dohUpstream list \<Rightarrow> runtimeState
    \<Rightarrow> dohUpstream list \<times> runtimeState \<times> probe_line list" where
  "select_auto rcode_name (call # calls) (u # us) s =
     (let (u1, s1) = attachDoHObservation u s;
          (u2, obs, err) = probeDoHUpstream rcode_name (fst call) (snd call) u1;
          (us', s', lines) = select_auto rcode_name calls us (observe_all obs s1)
      in (u2 # us', s', (case err of Some e \<Rightarrow> ProbeUnavailable (u_tag u2) e | None \<Rightarrow> ProbeEnabled (u_tag u2)) # lines))"
| "select_auto rcode_name _ _ s = ([], s, [])"

fun select_direct :: "dohUpstream list \<Rightarrow> runtimeState \<Rightarrow> dohUpstream list \<times> runtimeState" where
  "select_direct [] s = ([], s)"
| "select_direct (u # us) s =
     (let (u', s1) = attachDoHObservation u s; (us', s') = select_direct us s1 in (u' # us', s'))"

text \<open>There are at most two providers to probe; \<open>call1\<close> and \<open>call2\<close> are the query identifiers and
  the surroundings of their probes.\<close>

definition selectDoHUpstreams ::
  "(int \<Rightarrow> string) \<Rightarrow> nat \<times> doh_call \<Rightarrow> nat \<times> doh_call \<Rightarrow> config \<Rightarrow> runtimeState
    \<Rightarrow> dohUpstream list \<times> runtimeState \<times> probe_line list" where
  "selectDoHUpstreams rcode_name call1 call2 cfg s =
     (let (auto_us, s1, lines) = select_auto rcode_name [call1, call2] (autoDoHUpstreams cfg) s;
          (direct_us, s2) = select_direct directDoHUpstreams s1
      in (auto_us @ direct_us, s2, lines))"

definition set_up :: "bool \<Rightarrow> component \<Rightarrow> component" where
  "set_up v k = k\<lparr>k_up := v\<rparr>"

text \<open>\<^verbatim>\<open>startDoHBridge\<close>: the sockets may fail to open; the second component of the failure says
  which sockets were closed again.\<close>

definition startDoHBridge ::
  "(int \<Rightarrow> string) \<Rightarrow> nat \<times> doh_call \<Rightarrow> nat \<times> doh_call \<Rightarrow> goerr option \<Rightarrow> goerr option \<Rightarrow> config \<Rightarrow> runtimeState
    \<Rightarrow> runtimeState \<times> (goerr \<times> string list + dohUpstream list \<times> dohBridge)" where
  "startDoHBridge rcode_name call1 call2 udp_err tcp_err cfg s =
     (let (us, s1, lines) = selectDoHUpstreams rcode_name call1 call2 cfg s
      in case udp_err of
           Some e \<Rightarrow> (s1, Inl (error_wrap ''listen encrypted bridge UDP'' e, []))
         | None \<Rightarrow>
             (case tcp_err of
                Some e \<Rightarrow> (s1, Inl (error_wrap ''listen encrypted bridge TCP'' e, [''udp'']))
              | None \<Rightarrow>
                  (state_update ''doh_bridge'' (set_up True) s1,
                   Inr (us, \<lparr>b_lastWarn = zero_time, b_closed = False, b_shutdowns = []\<rparr>))))"

text \<open>\<^verbatim>\<open>close\<close> runs its body once.\<close>

definition bridge_close :: "dohBridge \<Rightarrow> dohBridge" where
  "bridge_close b =
     (if b_closed b then b else b\<lparr>b_closed := True, b_shutdowns := b_shutdowns b @ [''udp'', ''tcp'']\<rparr>)"

text \<open>What happens to a started bridge: a server goroutine ends (with its error and whether the
  context was done by then), or the context is done.\<close>

datatype bridge_event = ServeEnded "goerr option" bool | ContextDone

fun bridge_event_step :: "bridge_event \<Rightarrow> dohBridge \<times> runtimeState \<Rightarrow> dohBridge \<times> runtimeState" where
  "bridge_event_step (ServeEnded err done) (b, s) =
     (if err \<noteq> None \<and> \<not> done then (b, state_update ''doh_bridge'' (set_up False) s) else (b, s))"
| "bridge_event_step ContextDone (b, s) = (bridge_close b, state_update ''doh_bridge'' (set_up False) s)"

section \<open>The provider as a breaker\<close>

definition doh_ok :: "dohUpstream \<Rightarrow> bool" where
  "doh_ok u \<longleftrightarrow> (u_backoffStep u = 0 \<longrightarrow> u_failures u < dohFailureThreshold \<and> \<not> u_probing u)"

definition doh_view :: "dohUpstream \<Rightarrow> phase" where
  "doh_view u =
     (if u_backoffStep u = 0 then Closed (u_failures u)
      else if u_probing u then HalfOpen (u_retryAt u) else Open (u_retryAt u))"

definition doh_until :: "instant \<Rightarrow> nat \<Rightarrow> dohUpstream \<Rightarrow> instant" where
  "doh_until now seed u = now + jitterDoHBackoff seed (Suc (u_backoffStep u))"

lemmas doh_defs = doh_acquire_def doh_succeed_def doh_fail_def doh_park_def doh_ok_def doh_view_def
  doh_until_def dohFailureThreshold_def Let_def

interpretation doh_breaker: breaker doh_acquire doh_succeed doh_fail doh_view doh_ok
  "\<lambda>_. dohFailureThreshold" True doh_until
  by unfold_locales (auto simp: doh_defs split: if_splits)

interpretation doh_backoff: backoff_policy jitterDoHBackoff second "5 * minute"
  by (rule clipped_draw_policy) (auto simp: jitterDoHBackoff_def Let_def second_def minute_def)

lemma new_upstream_ok [simp]: "doh_ok (newDoHUpstreamWithResolver tag url name source)"
  by (simp add: doh_defs newDoHUpstreamWithResolver_def)

lemma new_upstream_view [simp]: "doh_view (newDoHUpstreamWithResolver tag url name source) = Closed 0"
  by (simp add: doh_defs newDoHUpstreamWithResolver_def)

lemma invalidateDialIPs_fields [simp]:
  "u_backoffStep (invalidateDialIPs u) = u_backoffStep u" "u_failures (invalidateDialIPs u) = u_failures u"
  "u_retryAt (invalidateDialIPs u) = u_retryAt u" "u_probing (invalidateDialIPs u) = u_probing u"
  "u_tag (invalidateDialIPs u) = u_tag u" "u_observed (invalidateDialIPs u) = u_observed u"
  by (simp_all add: invalidateDialIPs_def split: dial_source.splits)

lemma doh_fail_frame [simp]:
  "u_tag (doh_fail p now seed u) = u_tag u" "u_observed (doh_fail p now seed u) = u_observed u"
  "u_source (doh_fail p now seed u) = u_source u" "u_url (doh_fail p now seed u) = u_url u"
  by (simp_all add: doh_defs)

lemma doh_succeed_frame [simp]:
  "u_tag (doh_succeed u) = u_tag u" "u_observed (doh_succeed u) = u_observed u"
  by (simp_all add: doh_defs)

lemma doh_acquire_frame:
  "doh_acquire now u = (u1, r) \<Longrightarrow> u_tag u1 = u_tag u \<and> u_observed u1 = u_observed u"
  by (auto simp: doh_defs split: if_splits)

section \<open>Lemmas\<close>

subsection \<open>Exchanges\<close>

lemma exchangeOnce_Inr:
  "exchangeOnce net u query = Inr answer \<longleftrightarrow>
     (\<exists>payload bytes failure body raw.
        net_pack net query = Inr payload \<and> net_newRequest net (u_url u) = None \<and>
        net_do net (u_url u) payload = Inr (200, bytes, failure) \<and>
        body = take dns_MaxMsgSize bytes \<and> (length bytes < dns_MaxMsgSize \<longrightarrow> failure = None) \<and>
        net_unpack net body = Inr raw \<and> m_response raw \<and>
        length (m_question raw) = length (m_question query) \<and> answer = raw\<lparr>m_id := m_id query\<rparr>)"
  by (auto simp: exchangeOnce_def read_limited_def not_le
      split: sum.splits option.splits prod.splits if_splits)

lemma exchangeOnce_id: "exchangeOnce net u query = Inr answer \<Longrightarrow> m_id answer = m_id query \<and> m_response answer"
  by (auto simp: exchangeOnce_Inr)

lemma doh_exchange_id:
  "doh_exchange x query u = (u', Inr answer, obs) \<Longrightarrow> m_id answer = m_id query \<and> m_response answer"
  by (auto simp: doh_exchange_def Let_def dest: exchangeOnce_id split: prod.splits option.splits sum.splits)

text \<open>What the surroundings may not do: turn off the observation of a provider or rename it.\<close>

definition call_ok :: "doh_call \<Rightarrow> bool" where
  "call_ok x \<longleftrightarrow> (\<forall>u. u_tag (x_during x u) = u_tag u \<and> u_observed (x_during x u) = u_observed u
     \<and> u_tag (x_after x u) = u_tag u \<and> u_observed (x_after x u) = u_observed u)"

lemma doh_exchange_obs:
  assumes "doh_exchange x query u = (u', r, obs)" "call_ok x" "u_observed u"
  shows "\<exists>res d t now. obs = [(u_tag u, res, d, t, now)] \<and> (res = dohSuccess \<longleftrightarrow> (\<exists>m. r = Inr m))
    \<and> (res = dohBackoffSkip \<longleftrightarrow> snd (doh_acquire (x_acquired x) u) = None)
    \<and> u_tag u' = u_tag u \<and> u_observed u'"
proof -
  obtain u1 g where a: "doh_acquire (x_acquired x) u = (u1, g)" by fastforce
  have u1: "u_tag u1 = u_tag u" "u_observed u1"
    using doh_acquire_frame [OF a] assms(3) by auto
  note frame = assms(2) [unfolded call_ok_def, rule_format]
  show ?thesis
  proof (cases g)
    case None
    with assms(1) a u1 frame show ?thesis by (auto simp: doh_exchange_def Let_def doh_record_def)
  next
    case (Some p)
    show ?thesis
    proof (cases "exchangeOnce (x_net x) u query")
      case (Inl e)
      with Some assms(1) a u1 frame show ?thesis by (auto simp: doh_exchange_def Let_def doh_record_def)
    next
      case (Inr m)
      then have "u' = x_after x (doh_succeed (x_during x u1))" "r = Inr m" "obs = doh_record dohSuccess x u'"
        using Some assms(1) a by (auto simp: doh_exchange_def Let_def)
      with Some a u1 frame show ?thesis by (simp add: doh_record_def)
    qed
  qed
qed

subsection \<open>Failover\<close>

lemma serve_loop_success:
  assumes "i < length rs" "fst (rs ! i) q (ws i) = (w', Some r, None)"
    and "ws 0 = w"
    and "\<And>j. j < i \<Longrightarrow> \<exists>m e. fst (rs ! j) q (ws j) = (ws (Suc j), m, e) \<and> (m = None \<or> e \<noteq> None)"
    and "\<And>j. j < i \<Longrightarrow> snd (rs ! j) = None"
  shows "serve_loop rs q lastErr w = (w', Some r, None)"
  using assms
proof (induction rs arbitrary: i ws w lastErr)
  case (Cons r0 rs)
  obtain f ctx where r0: "r0 = (f, ctx)" by fastforce
  show ?case
  proof (cases i)
    case 0
    with Cons.prems show ?thesis by (simp add: r0)
  next
    case (Suc k)
    from Cons.prems(4) [of 0] Suc obtain m e where f: "f q w = (ws 1, m, e)" "m = None \<or> e \<noteq> None"
      using Cons.prems(3) by (auto simp: r0)
    have ctx: "ctx = None" using Cons.prems(5) [of 0] Suc by (simp add: r0)
    have "serve_loop rs q e (ws 1) = (w', Some r, None)"
    proof (rule Cons.IH [of k "\<lambda>j. ws (Suc j)" "ws 1"])
      fix j assume "j < k"
      then show "\<exists>m e. fst (rs ! j) q (ws (Suc j)) = (ws (Suc (Suc j)), m, e) \<and> (m = None \<or> e \<noteq> None)"
        "snd (rs ! j) = None"
        using Cons.prems(4,5) [of "Suc j"] Suc by auto
    qed (use Cons.prems Suc in auto)
    with f ctx show ?thesis by (auto simp: r0 split: option.splits)
  qed
qed simp

lemma serve_loop_failure:
  assumes "\<And>f ctx w. (f, ctx) \<in> set rs \<Longrightarrow> P w \<Longrightarrow> \<exists>w' m e. f q w = (w', m, e) \<and> P w' \<and> (m = None \<or> e \<noteq> None)" "P w"
  shows "\<exists>w' e. serve_loop rs q lastErr w = (w', None, e)"
  using assms
proof (induction rs arbitrary: w lastErr)
  case (Cons r0 rs)
  obtain f ctx where r0: "r0 = (f, ctx)" by fastforce
  obtain w' m e where f: "f q w = (w', m, e)" "P w'" "m = None \<or> e \<noteq> None"
    using Cons.prems(1) [of f ctx w] Cons.prems(2) by (auto simp: r0)
  have "\<exists>w'' e'. serve_loop rs q e w' = (w'', None, e')"
    by (rule Cons.IH [OF _ f(2)], rule Cons.prems(1)) auto
  with f show ?case by (auto simp: r0 split: option.splits)
qed simp

text \<open>The bridge's resolvers touch only their own provider.\<close>

lemma upstream_resolver_frame:
  assumes "upstream_resolver i x q w = (w', m, e)"
  shows "length (w_upstreams w') = length (w_upstreams w)"
    and "j \<noteq> i \<Longrightarrow> w_upstreams w' ! j = w_upstreams w ! j"
    and "(m = None \<longleftrightarrow> e \<noteq> None)"
  using assms by (auto simp: upstream_resolver_def split: prod.splits sum.splits)

definition resolves :: "doh_call \<times> goerr option \<Rightarrow> dns_msg \<Rightarrow> dohUpstream \<Rightarrow> dns_msg option" where
  "resolves call q u = (case fst (snd (doh_exchange (fst call) q u)) of Inl _ \<Rightarrow> None | Inr m \<Rightarrow> Some m)"

lemma upstream_resolver_result:
  "fst (snd (upstream_resolver i x q w)) = resolves (x, c) q (w_upstreams w ! i)"
  by (auto simp: upstream_resolver_def resolves_def split: prod.splits)

text \<open>The worlds the failover passes through.\<close>

primrec world_at :: "(doh_call \<times> goerr option) list \<Rightarrow> dns_msg \<Rightarrow> doh_world \<Rightarrow> nat \<Rightarrow> doh_world" where
  "world_at calls q w 0 = w"
| "world_at calls q w (Suc i) = fst (upstream_resolver i (fst (calls ! i)) q (world_at calls q w i))"

lemma world_at_frame:
  "length (w_upstreams (world_at calls q w i)) = length (w_upstreams w)"
  "i \<le> j \<Longrightarrow> w_upstreams (world_at calls q w i) ! j = w_upstreams w ! j"
proof (induction i)
  case (Suc i)
  obtain w' m e where u: "upstream_resolver i (fst (calls ! i)) q (world_at calls q w i) = (w', m, e)"
    by (cases "upstream_resolver i (fst (calls ! i)) q (world_at calls q w i)") auto
  { case 1 then show ?case using Suc upstream_resolver_frame(1) [OF u] by (simp add: u) }
  { case 2 then show ?case using Suc upstream_resolver_frame(2) [OF u, of j] by (simp add: u) }
qed auto

lemma bridge_success:
  assumes "i < length calls" "resolves (calls ! i) q (w_upstreams w ! i) = Some r"
    and "\<And>j. j < i \<Longrightarrow> resolves (calls ! j) q (w_upstreams w ! j) = None"
    and "\<And>j. j < i \<Longrightarrow> snd (calls ! j) = None"
  shows "serve_loop (bridge_resolvers calls) q lastErr w = (world_at calls q w (Suc i), Some r, None)"
proof (rule serve_loop_success [where i = i and ws = "world_at calls q w"])
  have step: "\<exists>m e. upstream_resolver j (fst (calls ! j)) q (world_at calls q w j) = (world_at calls q w (Suc j), m, e)
      \<and> m = resolves (calls ! j) q (w_upstreams w ! j) \<and> (m = None \<longleftrightarrow> e \<noteq> None)" for j
    using upstream_resolver_result [of j "fst (calls ! j)" q "world_at calls q w j" "snd (calls ! j)"]
      upstream_resolver_frame(3) [of j "fst (calls ! j)" q "world_at calls q w j"] world_at_frame(2) [of j j calls q w]
    by (cases "upstream_resolver j (fst (calls ! j)) q (world_at calls q w j)") auto
  show "fst (bridge_resolvers calls ! i) q (world_at calls q w i) = (world_at calls q w (Suc i), Some r, None)"
    using step [of i] assms(1,2) by (auto simp: bridge_resolvers_def)
  fix j assume j: "j < i"
  show "\<exists>m e. fst (bridge_resolvers calls ! j) q (world_at calls q w j) = (world_at calls q w (Suc j), m, e)
      \<and> (m = None \<or> e \<noteq> None)"
    using step [of j] assms(1) assms(3) [OF j] j by (auto simp: bridge_resolvers_def)
  show "snd (bridge_resolvers calls ! j) = None"
    using assms(1,4) j by (simp add: bridge_resolvers_def)
qed (use assms in \<open>auto simp: bridge_resolvers_def\<close>)

lemma serve_loop_origin:
  assumes "serve_loop rs q lastErr w = (w', Some r, e)"
  shows "\<exists>f ctx w0. (f, ctx) \<in> set rs \<and> fst (snd (f q w0)) = Some r \<and> snd (snd (f q w0)) = None"
  using assms
proof (induction rs q lastErr w rule: serve_loop.induct)
  case (2 f ctx rs q lastErr w)
  obtain w1 m1 e1 where f: "f q w = (w1, m1, e1)" by (cases "f q w") auto
  show ?case
  proof (cases "m1 \<noteq> None \<and> e1 = None")
    case True
    with 2 f have "fst (snd (f q w)) = Some r" "snd (snd (f q w)) = None" by auto
    then show ?thesis by force
  next
    case False
    with 2 f show ?thesis by (fastforce split: option.splits)
  qed
qed simp

section \<open>Properties\<close>

text \<open>
  Property C2.  Every provider state that concurrent exchanges can reach follows the three-phase
  breaker with threshold two: granting, failing and succeeding all do what the breaker does, so that
  a success forgets the failures before it and only two failures in a row park a provider.  And since \<^verbatim>\<open>exchange\<close> reports every permit it was granted, a
  parked provider is never lost: from each such state some continuation closes the breaker again.
\<close>

theorem doh_refines_breaker_recoverable:
  assumes "breaker_reach False doh_acquire doh_succeed doh_fail
      (breaker_start t0 (newDoHUpstreamWithResolver tag url name source)) s"
  shows "acquire_spec now (doh_view (brk s)) = (doh_view (fst (doh_acquire now (brk s))), snd (doh_acquire now (brk s)))
    \<and> doh_view (doh_fail p now seed (brk s))
      = fail_spec 2 True p (doh_until now seed (brk s)) (doh_view (brk s))
    \<and> doh_view (doh_succeed (brk s)) = succeed_spec (doh_view (brk s))
    \<and> (\<exists>u n. breaker_reach False doh_acquire doh_succeed doh_fail s u \<and> doh_view (brk u) = Closed n)"
proof -
  have start: "doh_ok (brk (breaker_start t0 (newDoHUpstreamWithResolver tag url name source)))"
    by (simp add: breaker_start_def)
  have ok: "doh_ok (brk s)" using doh_breaker.breach_ok [OF assms start] .
  obtain i where "inflight s i = None" using breaker_free_slot [OF assms] .
  then have "\<exists>u n. breaker_reach False doh_acquire doh_succeed doh_fail s u \<and> doh_view (brk u) = Closed n"
    using doh_breaker.recoverable [OF assms] by force
  then show ?thesis
    using doh_breaker.acquire_view [OF ok, of now "fst (doh_acquire now (brk s))"]
      doh_breaker.fail_view [OF ok, of p now seed] doh_breaker.succeed_view [OF ok]
    by (simp add: dohFailureThreshold_def)
qed

theorem doh_refines_breaker_recoverable_witness:
  "\<exists>u n. breaker_reach False doh_acquire doh_succeed doh_fail
      (breaker_start 0 (newDoHUpstreamWithResolver ''t'' ''u'' ''n'' (Static []))) u \<and> doh_view (brk u) = Closed n"
  using doh_refines_breaker_recoverable [OF reach_here] by blast

text \<open>
  Property C27.  A single failure never parks a provider: the first one only counts, the second
  consecutive one parks it for between 0.8 and 1.2 seconds, and any later failing probe waits
  between four fifths of a second and five minutes.
\<close>

theorem doh_park_window:
  assumes "u_backoffStep u = 0" "u_failures u = 0"
  shows "doh_view (doh_fail p now seed u) = Closed 1
    \<and> (\<exists>t. doh_view (doh_fail q later seed' (doh_fail p now seed u)) = Open t
         \<and> 4 * second \<le> 5 * (t - later) \<and> 5 * (t - later) \<le> 6 * second)
    \<and> (\<forall>step. 4 * second \<le> 5 * jitterDoHBackoff seed step \<and> jitterDoHBackoff seed step \<le> 5 * minute)"
proof -
  have "4 * second \<le> 5 * jitterDoHBackoff seed' 1 \<and> 5 * jitterDoHBackoff seed' 1 \<le> 6 * second"
    using doh_backoff.delay_low [of 1 seed'] doh_backoff.delay_high [of seed' 1]
    by (simp add: second_def minute_def)
  then show ?thesis
    using assms doh_backoff.delay_ge_initial doh_backoff.delay_cap by (simp add: doh_defs)
qed

theorem doh_park_window_witness:
  "doh_view (doh_fail \<lparr>probe = False\<rparr> 0 0 (newDoHUpstream ''t'' ''u'' ''n'' [])) = Closed 1"
  using doh_park_window [of "newDoHUpstream ''t'' ''u'' ''n'' []" "\<lparr>probe = False\<rparr>" 0 0]
  by (simp add: newDoHUpstream_def newDoHUpstreamWithResolver_def)

text \<open>
  An exchange accepts an answer exactly when the query packs, the provider replies
  with HTTP 200 and a body whose first 65535 bytes decode to a DNS response with as many questions
  as the query; the answer is that message under the query's identifier.
\<close>

lemma exchangeOnce_accepts:
  "exchangeOnce net u query = Inr answer \<longleftrightarrow>
     (\<exists>payload bytes failure raw.
        net_pack net query = Inr payload \<and> net_newRequest net (u_url u) = None \<and>
        net_do net (u_url u) payload = Inr (200, bytes, failure) \<and>
        (dns_MaxMsgSize \<le> length bytes \<or> failure = None) \<and>
        net_unpack net (take dns_MaxMsgSize bytes) = Inr raw \<and> m_response raw \<and>
        length (m_question raw) = length (m_question query) \<and> answer = raw\<lparr>m_id := m_id query\<rparr>)"
  unfolding exchangeOnce_Inr by (auto simp: not_le)

text \<open>
  Property C26.  While a provider is parked or its probe is in flight, a query is refused whatever
  the network would do; and every exchange of an observed provider records exactly one observation
  under the provider's name: a skip when it was refused, otherwise success or failure as returned.
\<close>

theorem doh_exchange_observed:
  assumes "call_ok x" "u_observed u"
  shows "(0 < u_backoffStep u \<and> (x_acquired x < u_retryAt u \<or> u_probing u) \<longrightarrow>
      (\<forall>net. doh_exchange (x\<lparr>x_net := net\<rparr>) query u = doh_exchange x query u)
      \<and> (\<exists>e. fst (snd (doh_exchange x query u)) = Inl e))
    \<and> (\<exists>res d t now. snd (snd (doh_exchange x query u)) = [(u_tag u, res, d, t, now)]
         \<and> (res = dohSuccess \<longleftrightarrow> (\<exists>m. fst (snd (doh_exchange x query u)) = Inr m))
         \<and> (res = dohBackoffSkip \<longleftrightarrow> 0 < u_backoffStep u \<and> (x_acquired x < u_retryAt u \<or> u_probing u)))"
proof -
  have refuse: "snd (doh_acquire (x_acquired x) u) = None \<longleftrightarrow>
      0 < u_backoffStep u \<and> (x_acquired x < u_retryAt u \<or> u_probing u)"
    by (auto simp: doh_acquire_def)
  obtain u' r obs where e: "doh_exchange x query u = (u', r, obs)" by (cases "doh_exchange x query u") auto
  have "(\<forall>net. doh_exchange (x\<lparr>x_net := net\<rparr>) query u = doh_exchange x query u)
      \<and> (\<exists>e. fst (snd (doh_exchange x query u)) = Inl e)"
    if "0 < u_backoffStep u \<and> (x_acquired x < u_retryAt u \<or> u_probing u)"
    using that by (auto simp: doh_exchange_def doh_acquire_def doh_record_def Let_def)
  then show ?thesis
    using doh_exchange_obs [OF e assms] by (auto simp: e refuse)
qed

definition plain_call :: "doh_net \<Rightarrow> doh_call" where
  "plain_call net = \<lparr>x_net = net, x_started = 0, x_acquired = 0, x_reported = 1, x_measured = 2, x_recorded = 2, x_seed = 0, x_during = id, x_after = id\<rparr>"

definition echo_net :: doh_net where
  "echo_net = \<lparr>net_pack = (\<lambda>_. Inr []),
     net_unpack = (\<lambda>_. Inr \<lparr>m_id = 0, m_response = True, m_rcode = 0, m_checking_disabled = False, m_edns = None,
        m_question = [], m_answer = []\<rparr>),
     net_newRequest = (\<lambda>_. None), net_do = (\<lambda>_ _. Inr (200, [], None))\<rparr>"

lemma plain_call_ok [simp]: "call_ok (plain_call net)"
  by (simp add: call_ok_def plain_call_def)

theorem doh_exchange_observed_witness:
  "\<exists>obs. snd (snd (doh_exchange (plain_call echo_net) (probe_query 7)
      (newDoHUpstream ''t'' ''u'' ''n'' []\<lparr>u_observed := True\<rparr>))) = [obs]"
  using doh_exchange_observed [of "plain_call echo_net" "newDoHUpstream ''t'' ''u'' ''n'' []\<lparr>u_observed := True\<rparr>" "probe_query 7"]
  by auto

text \<open>
  Property C4.  The bridge writes exactly one message per query, a response under the query's own
  identifier; it is either an answer that some provider's exchange returned, or the server failure
  built from the query.  The facts about \<^verbatim>\<open>SetRcode\<close> are those of the DNS library.
\<close>

theorem serve_one_response:
  assumes "\<And>q r. m_id (setRcode q r) = m_id q \<and> m_response (setRcode q r)"
  shows "\<exists>msg. snd (snd (ServeDNS setRcode (bridge_resolvers calls) now query wb)) = [msg]
    \<and> m_id msg = m_id query \<and> m_response msg
    \<and> (msg = setRcode query RcodeServerFailure
       \<or> (\<exists>i<length calls. \<exists>u. fst (snd (doh_exchange (fst (calls ! i)) query u)) = Inr msg))"
proof -
  obtain w' m e where l: "serve_loop (bridge_resolvers calls) query None (fst wb) = (w', m, e)"
    by (cases "serve_loop (bridge_resolvers calls) query None (fst wb)") auto
  show ?thesis
  proof (cases m)
    case None
    with l assms [of query RcodeServerFailure] show ?thesis
      by (auto simp: ServeDNS_def Let_def split: prod.splits)
  next
    case (Some msg)
    from serve_loop_origin [OF l [unfolded Some]]
    obtain i w0 where i: "i < length calls"
      "fst (snd (upstream_resolver i (fst (calls ! i)) query w0)) = Some msg"
      by (auto simp: bridge_resolvers_def)
    then have "resolves (calls ! i) query (w_upstreams w0 ! i) = Some msg"
      using upstream_resolver_result [of i "fst (calls ! i)" query w0 "snd (calls ! i)"] by simp
    then have x: "fst (snd (doh_exchange (fst (calls ! i)) query (w_upstreams w0 ! i))) = Inr msg"
      by (auto simp: resolves_def split: sum.splits)
    then have "m_id msg = m_id query \<and> m_response msg"
      using doh_exchange_id [of "fst (calls ! i)" query "w_upstreams w0 ! i"]
      by (metis prod.collapse)
    with x i l Some show ?thesis by (auto simp: ServeDNS_def)
  qed
qed

definition reply_rcode :: "dns_msg \<Rightarrow> int \<Rightarrow> dns_msg" where
  "reply_rcode q r = q\<lparr>m_response := True, m_rcode := r, m_answer := []\<rparr>"

definition idle_bridge :: dohBridge where
  "idle_bridge = \<lparr>b_lastWarn = zero_time, b_closed = False, b_shutdowns = []\<rparr>"

definition sample_world :: doh_world where
  "sample_world = \<lparr>w_upstreams = directDoHUpstreams, w_state = newRuntimeState\<rparr>"

theorem serve_one_response_witness:
  "\<exists>msg. snd (snd (ServeDNS reply_rcode (bridge_resolvers [(plain_call echo_net, None)]) (5, 5) (probe_query 9)
      (sample_world, idle_bridge))) = [msg] \<and> m_id msg = 9"
  using serve_one_response [of reply_rcode "[(plain_call echo_net, None)]" "(5, 5)" "probe_query 9" "(sample_world, idle_bridge)"]
  by (auto simp: reply_rcode_def probe_query_def)

text \<open>
  Property C5.  Priority order: when the providers before the \<open>i\<close>-th fail while the request
  is alive and the \<open>i\<close>-th answers, its answer is what the client gets; no warning is logged and no
  provider after it is touched.
\<close>

theorem serve_priority:
  assumes "i < length calls" "length calls = length (w_upstreams w)"
    and "resolves (calls ! i) query (w_upstreams w ! i) = Some answer"
    and "\<forall>j<i. resolves (calls ! j) query (w_upstreams w ! j) = None \<and> snd (calls ! j) = None"
  shows "snd (ServeDNS setRcode (bridge_resolvers calls) now query (w, b)) = ([], [answer])
    \<and> (\<forall>j. i < j \<longrightarrow> w_upstreams (fst (fst (ServeDNS setRcode (bridge_resolvers calls) now query (w, b)))) ! j
          = w_upstreams w ! j)"
proof -
  have "serve_loop (bridge_resolvers calls) query None w = (world_at calls query w (Suc i), Some answer, None)"
    using assms by (intro bridge_success) auto
  then show ?thesis
    using world_at_frame(2) [of "Suc i" _ calls query w] by (simp add: ServeDNS_def)
qed

definition dead_net :: doh_net where
  "dead_net = echo_net\<lparr>net_do := (\<lambda>_ _. Inl (error_new ''connection refused''))\<rparr>"

definition empty_query :: dns_msg where
  "empty_query = probe_query 3\<lparr>m_question := []\<rparr>"

lemma sample_resolves:
  "resolves (plain_call dead_net, None) empty_query (directDoHUpstreams ! 0) = None"
  "resolves (plain_call echo_net, None) empty_query (directDoHUpstreams ! 1)
     = Some \<lparr>m_id = 3, m_response = True, m_rcode = 0, m_checking_disabled = False, m_edns = None,
         m_question = [], m_answer = []\<rparr>"
  by (simp_all add: resolves_def doh_exchange_def doh_acquire_def directDoHUpstreams_def newDoHUpstream_def
      newDoHUpstreamWithResolver_def exchangeOnce_def dead_net_def echo_net_def plain_call_def Let_def
      empty_query_def probe_query_def read_limited_def dns_MaxMsgSize_def)

theorem serve_priority_witness:
  "fst (snd (ServeDNS reply_rcode (bridge_resolvers [(plain_call dead_net, None), (plain_call echo_net, None)]) (5, 5)
     empty_query (sample_world, idle_bridge))) = []"
proof -
  have "\<forall>j<1. resolves ([(plain_call dead_net, None), (plain_call echo_net, None)] ! j) empty_query
      (w_upstreams sample_world ! j) = None \<and> snd ([(plain_call dead_net, None), (plain_call echo_net, None)] ! j) = None"
    using sample_resolves by (simp add: sample_world_def)
  from serve_priority [OF _ _ _ this] sample_resolves(2) show ?thesis
    by (simp add: sample_world_def directDoHUpstreams_def)
qed

text \<open>A sequence of exhausted queries, each with the two clock readings of its warning: the warnings
  they log.\<close>

fun warn_run :: "((instant \<times> instant) \<times> goerr option) list \<Rightarrow> dohBridge \<Rightarrow> (instant \<times> goerr option) list" where
  "warn_run [] b = []"
| "warn_run ((now, err) # es) b =
     (case warnUnavailable now err b of (b', logged) \<Rightarrow> logged @ warn_run es b')"

text \<open>Under the warning's mutex the queries check and stamp one after the other.\<close>

definition in_turn :: "((instant \<times> instant) \<times> goerr option) list \<Rightarrow> bool" where
  "in_turn es \<longleftrightarrow> sorted (concat (map (\<lambda>((checked, stamped), err). [checked, stamped]) es))"

lemma in_turn_Cons:
  "in_turn (((c, t), err) # es) \<longleftrightarrow> c \<le> t \<and> (\<forall>((c', t'), _)\<in>set es. t \<le> c' \<and> t \<le> t') \<and> in_turn es"
  by (force simp: in_turn_def)

lemma warn_run_after:
  "in_turn es \<Longrightarrow> (\<forall>((c, t), _)\<in>set es. b_lastWarn b \<le> c) \<Longrightarrow>
     sorted_wrt (\<lambda>x y. fst x + 30 * second \<le> fst y) (warn_run es b)
     \<and> (\<forall>x\<in>set (warn_run es b). b_lastWarn b + 30 * second \<le> fst x)"
proof (induction es b rule: warn_run.induct)
  case (2 now err es b)
  obtain c t where now: "now = (c, t)" by fastforce
  have d: "time_sub c (b_lastWarn b) < 30 * second \<longleftrightarrow> c - b_lastWarn b < 30 * second"
    by (rule time_sub_less_iff) (simp_all add: second_def)
  have turn: "c \<le> t" "in_turn es" "\<forall>((c', t'), _)\<in>set es. t \<le> c'" "\<forall>((c', t'), _)\<in>set es. b_lastWarn b \<le> c'"
    using "2.prems" by (auto simp: now in_turn_Cons)
  show ?case
  proof (cases "c - b_lastWarn b < 30 * second")
    case True
    with "2.IH" [of b "[]"] d turn(2,4) show ?thesis by (simp add: warnUnavailable_def now)
  next
    case False
    with "2.IH" [of "b\<lparr>b_lastWarn := t\<rparr>" "[(t, err)]"] d turn show ?thesis by (fastforce simp: warnUnavailable_def now second_def)
  qed
qed simp

lemma warn_run_first:
  assumes "zero_time + 30 * second \<le> fst now" "b_lastWarn b = zero_time"
  shows "warn_run ((now, err) # es) b = (snd now, err) # warn_run es (b\<lparr>b_lastWarn := snd now\<rparr>)"
proof -
  have "time_sub (fst now) zero_time < 30 * second \<longleftrightarrow> fst now - zero_time < 30 * second"
    by (rule time_sub_less_iff) (simp_all add: second_def)
  with assms show ?thesis by (simp add: warnUnavailable_def)
qed

text \<open>
  Property C38.  The warning about unavailable providers is rate limited and not lost: over any
  sequence of exhausted queries whose clock readings are in time order, warnings are at least thirty
  seconds apart, and the first exhausted query of a fresh bridge is always reported.
\<close>

theorem warnings_rate_limited:
  assumes "in_turn es" "\<forall>((checked, stamped), _)\<in>set es. 0 \<le> checked"
  shows "sorted_wrt (\<lambda>x y. fst x + 30 * second \<le> fst y) (warn_run es idle_bridge)
    \<and> (es \<noteq> [] \<longrightarrow> warn_run es idle_bridge \<noteq> [] \<and> hd (warn_run es idle_bridge) = (snd (fst (hd es)), snd (hd es)))"
proof (cases es)
  case (Cons e rest)
  obtain now err where e: "e = (now, err)" by fastforce
  have "0 \<le> fst now" using assms(2) Cons by (auto simp: e)
  then have "warn_run es idle_bridge = (snd now, err) # warn_run rest (idle_bridge\<lparr>b_lastWarn := snd now\<rparr>)"
    using Cons warn_run_first [of now idle_bridge err rest]
    by (simp add: e idle_bridge_def zero_time_def second_def)
  moreover have "sorted_wrt (\<lambda>x y. fst x + 30 * second \<le> fst y) (warn_run es idle_bridge)"
  proof -
    have "\<forall>((c, t), _)\<in>set es. b_lastWarn idle_bridge \<le> c"
      using assms(2) by (force simp: idle_bridge_def zero_time_def)
    then show ?thesis using warn_run_after [OF assms(1)] by blast
  qed
  ultimately show ?thesis by (simp add: Cons e)
qed simp

theorem warnings_rate_limited_witness:
  "hd (warn_run [((0, 1), None), ((2, 2), None)] idle_bridge) = (1, None)"
  using warnings_rate_limited [of "[((0, 1), None), ((2, 2), None)]"] by (simp add: in_turn_def)

lemma dial_target_nth:
  assumes "k < 2 ^ 63" "ips \<noteq> []"
  shows "dial_target tag (Inr ips) (of_nat k) = (of_nat (Suc k), DialTo (net_JoinHostPort (ips ! (k mod length ips)) ''443''))"
proof -
  have "sint (of_nat k :: 64 word) = int k"
    using assms(1) by (simp add: signed_of_nat signed_take_bit_int_eq_self)
  moreover have "\<not> int k mod int (length ips) < 0" "nat (int k mod int (length ips)) = k mod length ips"
    using assms(2) by (simp_all add: nat_mod_distrib not_less)
  ultimately show ?thesis
    using assms by (simp add: dial_target_def go_rem_def Let_def algebra_simps)
qed

text \<open>The targets of successive dials of a provider with fixed addresses.\<close>

primrec dial_run :: "string \<Rightarrow> string list \<Rightarrow> 64 word \<Rightarrow> nat \<Rightarrow> dial_result list" where
  "dial_run tag ips counter 0 = []"
| "dial_run tag ips counter (Suc n) =
     (case dial_target tag (Inr ips) counter of (counter', r) \<Rightarrow> r # dial_run tag ips counter' n)"

lemma dial_run_eq:
  "ips \<noteq> [] \<Longrightarrow> k + n \<le> 2 ^ 63 \<Longrightarrow>
     dial_run tag ips (of_nat k) n
     = map (\<lambda>i. DialTo (net_JoinHostPort (ips ! (i mod length ips)) ''443'')) [k..<k + n]"
proof (induction n arbitrary: k)
  case (Suc n)
  have "[k..<k + Suc n] = k # [Suc k..<Suc k + n]" by (simp add: upt_rec)
  with Suc.IH [of "Suc k"] Suc.prems dial_target_nth [of k ips tag] show ?case by simp
qed simp

text \<open>
  Dialling is fair: within the first \<open>2 ^ 63\<close> dials of a provider, any block of as many
  successive dials as it has addresses tries each address exactly once, in rotated list order, and
  no index is out of range.
\<close>

lemma dial_round_robin:
  assumes "ips \<noteq> []" "k + length ips \<le> 2 ^ 63"
  shows "dial_run tag ips (of_nat k) (length ips)
    = map (\<lambda>ip. DialTo (net_JoinHostPort ip ''443'')) (rotate k ips)"
proof (rule nth_equalityI)
  fix i assume "i < length (dial_run tag ips (of_nat k) (length ips))"
  then show "dial_run tag ips (of_nat k) (length ips) ! i
      = map (\<lambda>ip. DialTo (net_JoinHostPort ip ''443'')) (rotate k ips) ! i"
    using assms by (simp add: dial_run_eq nth_rotate add.commute)
qed (use assms in \<open>simp add: dial_run_eq\<close>)

lemma dial_round_robin_sample:
  "dial_run ''t'' [''a'', ''b'', ''c''] 4 (Suc (Suc (Suc 0))) = map (\<lambda>ip. DialTo (net_JoinHostPort ip ''443'')) (rotate 4 [''a'', ''b'', ''c''])"
  using dial_round_robin [of "[''a'', ''b'', ''c'']" 4 "''t''"] by (simp del: dial_run.simps)

text \<open>The atomic steps on the dial cache: a finished lookup is stored, or a failed exchange discards.\<close>

datatype cache_op = Stored "string list" instant | Discarded

fun cache_exec :: "cache_op list \<Rightarrow> dialAddressCache \<Rightarrow> dialAddressCache" where
  "cache_exec [] c = c"
| "cache_exec (Stored addresses t # ops) c = cache_exec ops (cache_store addresses t c)"
| "cache_exec (Discarded # ops) c = cache_exec ops (cache_invalidate c)"

lemma cache_exec_snoc [simp]:
  "cache_exec (ops @ [Stored a t]) c = cache_store a t (cache_exec ops c)"
  "cache_exec (ops @ [Discarded]) c = cache_invalidate (cache_exec ops c)"
  by (induction ops c rule: cache_exec.induct) auto

text \<open>
  Property C28.  Whatever lookups and failures interleave, a dial that is served from the cache gets
  the addresses of the last stored lookup, less than a minute after it was stored and with no failed
  exchange in between; and a dial right after a failed exchange always asks the bootstrap server.
\<close>

theorem dial_cache_fresh:
  assumes "cache_hit now (cache_exec ops new_cache)"
  shows "\<exists>addresses t. ops \<noteq> [] \<and> last ops = Stored addresses t
      \<and> cache_get now resolve others stored (cache_exec ops new_cache) = (cache_exec ops new_cache, Inr addresses)
      \<and> addresses \<noteq> [] \<and> now < t + minute"
proof (cases ops rule: rev_exhaust)
  case Nil
  with assms show ?thesis by (simp add: cache_hit_def new_cache_def)
next
  case (snoc pre op)
  show ?thesis
  proof (cases op)
    case (Stored a t)
    with assms snoc show ?thesis
      by (auto simp: cache_get_def cache_hit_def cache_store_def dialAddressTTL_def)
  next
    case Discarded
    with assms snoc show ?thesis by (simp add: cache_hit_def cache_invalidate_def)
  qed
qed

theorem dial_cache_fresh_witness:
  "snd (cache_get 7 (Inl (error_new ''unused'')) id 8 (cache_exec [Discarded, Stored [''198.18.0.1''] 5] new_cache))
     = Inr [''198.18.0.1'']"
proof -
  have "cache_hit 7 (cache_exec [Discarded, Stored [''198.18.0.1''] 5] new_cache)"
    by (simp add: cache_hit_def cache_store_def dialAddressTTL_def minute_def)
  from dial_cache_fresh [OF this, of "Inl (error_new ''unused'')" id 8] show ?thesis by auto
qed

subsection \<open>Startup and life cycle\<close>

definition registered :: "runtimeState \<Rightarrow> string \<Rightarrow> bool" where
  "registered s name \<longleftrightarrow> rs_dohUpstreams s name \<noteq> None"

lemma registered_keep:
  "registered s name \<Longrightarrow> registered (registerDoHUpstream n s) name"
  "registered (registerDoHUpstream name s) name"
  "registered s name \<Longrightarrow> registered (observeDoHUpstream n r d t now s) name"
  by (auto simp: registered_def registerDoHUpstream_def observeDoHUpstream_def Let_def)

lemma registered_observe_all: "registered s name \<Longrightarrow> registered (observe_all os s) name"
  by (induction os s rule: observe_all.induct) (auto intro: registered_keep)

lemma probe_frame:
  assumes "probeDoHUpstream rn ident x u = (u', obs, err)" "call_ok x" "u_observed u"
  shows "u_tag u' = u_tag u \<and> u_observed u'"
proof -
  obtain u2 r o2 where e: "doh_exchange x (probe_query ident) u = (u2, r, o2)"
    by (cases "doh_exchange x (probe_query ident) u") auto
  then have "u' = u2" using assms(1) by (auto simp: probeDoHUpstream_def split: sum.splits)
  with doh_exchange_obs [OF e assms(2,3)] show ?thesis by blast
qed

lemma select_auto_spec:
  assumes "select_auto rn calls us s = (us', s', lines)" "length us \<le> length calls" "\<forall>c\<in>set calls. call_ok (snd c)"
  shows "map u_tag us' = map u_tag us \<and> length lines = length us
    \<and> (\<forall>u\<in>set us'. u_observed u \<and> registered s' (u_tag u)) \<and> (\<forall>n. registered s n \<longrightarrow> registered s' n)"
  using assms
proof (induction us arbitrary: calls s us' s' lines)
  case (Cons u us)
  obtain call rest where c: "calls = call # rest" using Cons.prems(2) by (cases calls) auto
  define s1 where "s1 = registerDoHUpstream (u_tag u) s"
  obtain u2 obs err where p: "probeDoHUpstream rn (fst call) (snd call) (u\<lparr>u_observed := True\<rparr>) = (u2, obs, err)"
    by (cases "probeDoHUpstream rn (fst call) (snd call) (u\<lparr>u_observed := True\<rparr>)") auto
  obtain us2 s2 l2 where r: "select_auto rn rest us (observe_all obs s1) = (us2, s2, l2)"
    by (cases "select_auto rn rest us (observe_all obs s1)") auto
  have u2: "u_tag u2 = u_tag u" "u_observed u2"
    using probe_frame [OF p] Cons.prems(3) c by auto
  have ih: "map u_tag us2 = map u_tag us \<and> length l2 = length us
      \<and> (\<forall>u\<in>set us2. u_observed u \<and> registered s2 (u_tag u)) \<and> (\<forall>n. registered (observe_all obs s1) n \<longrightarrow> registered s2 n)"
    using Cons.IH [OF r] Cons.prems(2,3) c by simp
  have reg: "registered (observe_all obs s1) (u_tag u)"
    unfolding s1_def by (intro registered_observe_all registered_keep)
  have keep: "registered s n \<Longrightarrow> registered (observe_all obs s1) n" for n
    unfolding s1_def by (intro registered_observe_all registered_keep)
  have "us' = u2 # us2" "s' = s2" "length lines = Suc (length l2)"
    using Cons.prems(1) p r c by (auto simp: attachDoHObservation_def Let_def s1_def)
  with ih u2 reg keep show ?case by simp
qed simp

lemma select_direct_spec:
  "select_direct us s = (us', s') \<Longrightarrow> map u_tag us' = map u_tag us
     \<and> (\<forall>u\<in>set us'. u_observed u \<and> registered s' (u_tag u)) \<and> (\<forall>n. registered s n \<longrightarrow> registered s' n)"
proof (induction us arbitrary: s us' s')
  case (Cons u us)
  define s1 where "s1 = registerDoHUpstream (u_tag u) s"
  obtain us2 s2 where r: "select_direct us s1 = (us2, s2)" by fastforce
  have "us' = u\<lparr>u_observed := True\<rparr> # us2" "s' = s2"
    using Cons.prems r by (auto simp: attachDoHObservation_def Let_def s1_def)
  moreover have "registered s1 (u_tag u)" "registered s n \<Longrightarrow> registered s1 n" for n
    unfolding s1_def by (auto intro: registered_keep)
  ultimately show ?case using Cons.IH [OF r] by simp
qed simp

text \<open>
  Failover order is fixed at startup and no probe result removes a provider: the two
  AUTO_FORWARD providers come first when forwarding is enabled, then the two direct ones; every one
  is observed and registered for export.
\<close>

lemma selected_providers:
  assumes "call_ok (snd call1)" "call_ok (snd call2)"
    and "selectDoHUpstreams rcode_name call1 call2 cfg s = (us, s', lines)"
  shows "map u_tag us
      = (if cfg_autoEnabled cfg then [''nextdns-via-auto-forward'', ''quad9-via-auto-forward''] else [])
        @ [''cloudflare'', ''360'']
    \<and> (\<forall>u\<in>set us. u_observed u \<and> registered s' (u_tag u))"
proof -
  obtain aus s1 l where a: "select_auto rcode_name [call1, call2] (autoDoHUpstreams cfg) s = (aus, s1, l)"
    by (cases "select_auto rcode_name [call1, call2] (autoDoHUpstreams cfg) s") auto
  obtain dus s2 where d: "select_direct directDoHUpstreams s1 = (dus, s2)" by fastforce
  have "us = aus @ dus" "s' = s2" using assms(3) a d by (auto simp: selectDoHUpstreams_def)
  moreover have "length (autoDoHUpstreams cfg) \<le> 2" by (simp add: autoDoHUpstreams_def)
  ultimately show ?thesis
    using select_auto_spec [OF a] select_direct_spec [OF d] assms(1,2)
    by (auto simp: autoDoHUpstreams_def directDoHUpstreams_def newDoHUpstream_def
        newBootstrappedDoHUpstream_def newDoHUpstreamWithResolver_def)
qed

definition secure_config :: config where
  "secure_config = \<lparr>cfg_autoForwardRaw = ''no'', cfg_autoEnabled = False, cfg_autoDNS = [],
     cfg_logLevel = ''warn'', cfg_unboundLog = ''0''\<rparr>"

lemma selected_providers_sample:
  "map u_tag (fst (selectDoHUpstreams (\<lambda>_. []) (0, plain_call dead_net) (0, plain_call dead_net)
     secure_config newRuntimeState)) = [''cloudflare'', ''360'']"
proof -
  obtain us s' lines where r: "selectDoHUpstreams (\<lambda>_. []) (0, plain_call dead_net) (0, plain_call dead_net)
      secure_config newRuntimeState = (us, s', lines)"
    by (cases "selectDoHUpstreams (\<lambda>_. []) (0, plain_call dead_net) (0, plain_call dead_net) secure_config newRuntimeState")
  from selected_providers [OF _ _ r] show ?thesis unfolding r by (simp add: secure_config_def)
qed

text \<open>
  The startup probe accepts a provider exactly when its exchange returns a successful
  answer that holds both an address record and a DNSSEC signature.
\<close>

lemma probe_accepts:
  "snd (snd (probeDoHUpstream rcode_name ident x u)) = None \<longleftrightarrow>
     (\<exists>m. fst (snd (doh_exchange x (probe_query ident) u)) = Inr m \<and> m_rcode m = RcodeSuccess
        \<and> (\<exists>rr\<in>set (m_answer m). rr_type rr = dns_TypeA) \<and> (\<exists>rr\<in>set (m_answer m). rr_type rr = dns_TypeRRSIG))"
  by (auto simp: probeDoHUpstream_def probe_check_def Let_def list_ex_iff
      split: prod.splits sum.splits if_splits)

fun bridge_run :: "bridge_event list \<Rightarrow> dohBridge \<times> runtimeState \<Rightarrow> dohBridge \<times> runtimeState" where
  "bridge_run [] bs = bs"
| "bridge_run (e # es) bs = bridge_run es (bridge_event_step e bs)"

definition bridge_up :: "runtimeState \<Rightarrow> bool" where
  "bridge_up s \<longleftrightarrow> k_up (the_or zero_component (rs_components s ''doh_bridge''))"

definition fatal :: "bridge_event \<Rightarrow> bool" where
  "fatal e \<longleftrightarrow> e = ContextDone \<or> (\<exists>err. e = ServeEnded (Some err) False)"

lemma bridge_event_up:
  "bridge_up (snd (bridge_event_step e (b, s))) \<longleftrightarrow> \<not> fatal e \<and> bridge_up s"
  "fst (bridge_event_step e (b, s)) = (if e = ContextDone then bridge_close b else b)"
  by (cases e; auto simp: bridge_up_def fatal_def state_update_def set_up_def the_or_def)+

lemma bridge_run_spec:
  "bridge_up (snd (bridge_run es (b, s))) \<longleftrightarrow> bridge_up s \<and> (\<forall>e\<in>set es. \<not> fatal e)"
  "fst (bridge_run es (b, s)) = (if ContextDone \<in> set es then bridge_close b else b)"
proof (induction es arbitrary: b s)
  case (Cons e es)
  { case 1 show ?case
      using Cons(1) bridge_event_up(1) [of e b s] by (cases "bridge_event_step e (b, s)") auto }
  { case 2 show ?case
      using Cons(2) bridge_event_up(2) [of e b s]
      by (cases "bridge_event_step e (b, s)") (auto simp: bridge_close_def) }
qed auto

text \<open>Selecting and observing providers leaves the components alone.\<close>

lemma observe_all_components [simp]: "rs_components (observe_all os s) = rs_components s"
  by (induction os s rule: observe_all.induct) (simp_all add: observeDoHUpstream_def Let_def)

lemma attach_components [simp]: "rs_components (snd (attachDoHObservation u s)) = rs_components s"
  by (simp add: attachDoHObservation_def registerDoHUpstream_def)

lemma select_auto_components: "rs_components (fst (snd (select_auto rn calls us s))) = rs_components s"
proof (induction us arbitrary: calls s)
  case (Cons u us)
  show ?case
  proof (cases calls)
    case (Cons call rest)
    then show ?thesis
      using Cons.IH attach_components [of u s] by (simp add: Let_def split_beta)
  qed simp
qed simp

lemma select_direct_components: "rs_components (snd (select_direct us s)) = rs_components s"
  by (induction us arbitrary: s) (simp_all add: Let_def split_beta)

lemma select_components: "rs_components (fst (snd (selectDoHUpstreams rn c1 c2 cfg s))) = rs_components s"
  by (simp add: selectDoHUpstreams_def Let_def split_beta select_auto_components select_direct_components)

lemma startDoHBridge_components:
  assumes "startDoHBridge rn c1 c2 udp_err tcp_err cfg s = (s', Inr (us, b))"
  shows "rs_components s' = (rs_components s)(''doh_bridge'' \<mapsto> set_up True (the_or zero_component (rs_components s ''doh_bridge'')))"
  using assms select_components [of rn c1 c2 cfg s]
  by (auto simp: startDoHBridge_def state_update_def split: option.splits prod.splits)

lemma startDoHBridge_up:
  assumes "startDoHBridge rcode_name call1 call2 udp_err tcp_err cfg s = (s', Inr (us, b))"
  shows "bridge_up s'" "b = idle_bridge"
  using assms
  by (auto simp: startDoHBridge_def bridge_up_def state_update_def set_up_def the_or_def idle_bridge_def
      split: option.splits prod.splits)

text \<open>
  The exported state of the bridge is truthful: after a successful start it is up
  until a server fails while the context lives or the context is done, and from then on it is down;
  each server is shut down once, however often the context is seen done.
\<close>

lemma bridge_lifecycle:
  assumes "startDoHBridge rcode_name call1 call2 udp_err tcp_err cfg s = (s', Inr (us, b))"
  shows "(bridge_up (snd (bridge_run es (b, s'))) \<longleftrightarrow> (\<forall>e\<in>set es. \<not> fatal e))
    \<and> b_shutdowns (fst (bridge_run es (b, s'))) = (if ContextDone \<in> set es then [''udp'', ''tcp''] else [])"
  using startDoHBridge_up [OF assms] by (auto simp: bridge_run_spec bridge_close_def idle_bridge_def)

lemma bridge_lifecycle_sample:
  "\<exists>s' us b. startDoHBridge (\<lambda>_. []) (0, plain_call dead_net) (0, plain_call dead_net) None None
     secure_config newRuntimeState = (s', Inr (us, b)) \<and> bridge_up (snd (bridge_run [] (b, s')))
     \<and> \<not> bridge_up (snd (bridge_run [ContextDone] (b, s')))"
proof -
  have "\<exists>s' us b. startDoHBridge (\<lambda>_. []) (0, plain_call dead_net) (0, plain_call dead_net) None None
     secure_config newRuntimeState = (s', Inr (us, b))"
    by (auto simp: startDoHBridge_def split: prod.splits)
  then obtain s' us b where st: "startDoHBridge (\<lambda>_. []) (0, plain_call dead_net) (0, plain_call dead_net) None None
     secure_config newRuntimeState = (s', Inr (us, b))" by blast
  show ?thesis
    using st bridge_lifecycle [OF st, of "[]"] bridge_lifecycle [OF st, of "[ContextDone]"]
    by (intro exI [of _ s'] exI [of _ us] exI [of _ b]) (auto simp: fatal_def)
qed

end
