(* ===== verification/ChildProcess.thy ===== *)
theory ChildProcess
  imports Backoff GoStrings RuntimeState
begin

text \<open>
  cmd/guarddns/process.go (with process_unix.go and process_windows.go): the supervision of one
  child process, the delays between its restarts, its shutdown, and the wait for a listening port.
  The child's behaviour and the clock are given per iteration of the loop.
\<close>

section \<open>Constants and data\<close>

definition restartInitial :: duration where "restartInitial = second"
definition restartMaximum :: duration where "restartMaximum = 30 * second"
definition stableRuntime :: duration where "stableRuntime = 5 * minute"
definition shutdownGrace :: duration where "shutdownGrace = 5 * second"

record childSpec =
  cs_name :: string
  cs_path :: string
  cs_args :: "string list"
  cs_suppressStartupInfo :: bool

definition restartDelay :: "nat \<Rightarrow> nat \<Rightarrow> duration" where
  "restartDelay seed step =
     (let nominal = doubling_loop 1 step restartInitial restartMaximum;
          delay = spread_draw seed nominal
      in if restartMaximum < delay then restartMaximum else delay)"

section \<open>Processes\<close>

text \<open>Signals: on Unix they go to the process group (the negated process number), on Windows the
  process is killed either way.\<close>

datatype signal = SIGINT | SIGTERM | SIGKILL

definition terminateProcess :: "int option \<Rightarrow> (int \<times> signal) list" where
  "terminateProcess process = (case process of None \<Rightarrow> [] | Some pid \<Rightarrow> [(- pid, SIGTERM)])"

definition killProcess :: "int option \<Rightarrow> (int \<times> signal) list" where
  "killProcess process = (case process of None \<Rightarrow> [] | Some pid \<Rightarrow> [(- pid, SIGKILL)])"

definition terminationSignals :: "signal list" where
  "terminationSignals = [SIGINT, SIGTERM]"

definition windows_terminateProcess :: "int option \<Rightarrow> (int \<times> signal) list" where
  "windows_terminateProcess process = (case process of None \<Rightarrow> [] | Some pid \<Rightarrow> [(pid, SIGKILL)])"

definition windows_killProcess :: "int option \<Rightarrow> (int \<times> signal) list" where
  "windows_killProcess process = (case process of None \<Rightarrow> [] | Some pid \<Rightarrow> [(pid, SIGKILL)])"

definition windows_terminationSignals :: "signal list" where
  "windows_terminationSignals = [SIGINT]"

section \<open>Supervision\<close>

text \<open>
  How a started child ends: by itself, with the error of waiting and flushing and whether the
  context is done by then; or the context is done first, and then it exits a given time after the
  termination signal, or never before it is killed.
\<close>

datatype child_end = Exited "goerr option" bool | Shutdown "duration option"

record child_iter =
  ci_ctx :: bool
  ci_startedAt :: instant
  ci_start :: "goerr + int"
  ci_end :: child_end
  ci_checked :: instant
  ci_seed :: nat
  ci_delay_ctx :: bool

datatype child_act =
    StartFailed goerr
  | Started int
  | ExitedWith "goerr option"
  | Signalled int signal
  | RestartIn duration

definition mark_down :: "component \<Rightarrow> component" where
  "mark_down k = k\<lparr>k_up := False\<rparr>"

definition mark_running :: "component \<Rightarrow> component" where
  "mark_running k = k\<lparr>k_up := True, k_backoffSeconds := 0\<rparr>"

definition mark_restart :: "duration \<Rightarrow> component \<Rightarrow> component" where
  "mark_restart delay k = k\<lparr>k_up := False, k_restarts := k_restarts k + 1, k_backoffSeconds := seconds delay\<rparr>"

definition signals :: "(int \<times> signal) list \<Rightarrow> child_act list" where
  "signals ss = map (\<lambda>(pid, s). Signalled pid s) ss"

text \<open>The tail of an iteration: reset the step after a stable run, schedule the restart.\<close>

definition schedule_restart ::
  "childSpec \<Rightarrow> child_iter \<Rightarrow> child_act list \<Rightarrow> nat \<Rightarrow> runtimeState \<Rightarrow> nat \<times> runtimeState \<times> child_act list \<times> bool" where
  "schedule_restart spec it acts step s =
     (let step = (if stableRuntime \<le> time_sub (ci_checked it) (ci_startedAt it) then 0 else step);
          step = step + 1;
          delay = restartDelay (ci_seed it) step
      in (step, state_update (cs_name spec) (mark_restart delay) s, acts @ [RestartIn delay], \<not> ci_delay_ctx it))"

text \<open>One iteration: the step, the state, what was done, and whether the loop goes on.\<close>

definition child_iteration ::
  "childSpec \<Rightarrow> child_iter \<Rightarrow> nat \<Rightarrow> runtimeState \<Rightarrow> nat \<times> runtimeState \<times> child_act list \<times> bool" where
  "child_iteration spec it step s =
     (if ci_ctx it then (step, s, [], False)
      else case ci_start it of
          Inl e \<Rightarrow> schedule_restart spec it [StartFailed e] step (state_update (cs_name spec) mark_down s)
        | Inr pid \<Rightarrow>
            (let s1 = state_update (cs_name spec) mark_running s
             in case ci_end it of
                  Exited err done \<Rightarrow>
                    (let s2 = state_update (cs_name spec) mark_down s1
                     in if done then (step, s2, [Started pid], False)
                        else schedule_restart spec it [Started pid, ExitedWith err] step s2)
                | Shutdown exit_after \<Rightarrow>
                    (step, state_update (cs_name spec) mark_down s1,
                     [Started pid] @ signals (terminateProcess (Some pid))
                     @ (case exit_after of
                          Some d \<Rightarrow> if d \<le> shutdownGrace then [] else signals (killProcess (Some pid))
                        | None \<Rightarrow> signals (killProcess (Some pid))),
                     False)))"

text \<open>The loop over a script of iterations; the last result says whether it still runs.\<close>

fun superviseChild ::
  "childSpec \<Rightarrow> child_iter list \<Rightarrow> nat \<Rightarrow> runtimeState \<Rightarrow> nat \<times> runtimeState \<times> child_act list \<times> bool" where
  "superviseChild spec [] step s = (step, s, [], True)"
| "superviseChild spec (it # its) step s =
     (case child_iteration spec it step s of
        (step1, s1, acts, False) \<Rightarrow> (step1, s1, acts, False)
      | (step1, s1, acts, True) \<Rightarrow>
          (case superviseChild spec its step1 s1 of (step2, s2, acts2, runs) \<Rightarrow> (step2, s2, acts @ acts2, runs)))"

section \<open>Waiting for a port\<close>

text \<open>One attempt: the clock at the loop head and when the dial returned, whether it connected, and the
  error of the context if it is done before the pause ends.\<close>

record tcp_attempt =
  ta_now :: instant
  ta_dialled :: instant
  ta_connected :: bool
  ta_ctx :: "goerr option"

text \<open>\<^verbatim>\<open>waitForTCP\<close> with a bound on the number of attempts: \<open>None\<close> when the bound is too small.\<close>

fun wait_loop :: "nat \<Rightarrow> string \<Rightarrow> duration \<Rightarrow> instant \<Rightarrow> (nat \<Rightarrow> tcp_attempt) \<Rightarrow> nat \<Rightarrow> (goerr option) option" where
  "wait_loop 0 address timeout deadline attempts k = None"
| "wait_loop (Suc fuel) address timeout deadline attempts k =
     (if \<not> ta_now (attempts k) < deadline
      then Some (Some (error_new (address @ '' did not become ready within '' @ duration_String timeout)))
      else if ta_connected (attempts k) then Some None
      else case ta_ctx (attempts k) of
          Some e \<Rightarrow> Some (Some e)
        | None \<Rightarrow> wait_loop fuel address timeout deadline attempts (Suc k))"

definition waitForTCP :: "nat \<Rightarrow> string \<Rightarrow> duration \<Rightarrow> instant \<Rightarrow> (nat \<Rightarrow> tcp_attempt) \<Rightarrow> (goerr option) option" where
  "waitForTCP fuel address timeout now attempts = wait_loop fuel address timeout (now + timeout) attempts 0"

section \<open>Lemmas\<close>

interpretation restart_backoff: backoff_policy restartDelay restartInitial restartMaximum
  by (rule clipped_draw_policy)
    (auto simp: restartDelay_def Let_def restartInitial_def restartMaximum_def second_def)

lemmas mark_defs = mark_down_def mark_running_def mark_restart_def

definition restart_delays :: "child_act list \<Rightarrow> duration list" where
  "restart_delays acts = List.map_filter (\<lambda>a. case a of RestartIn d \<Rightarrow> Some d | _ \<Rightarrow> None) acts"

lemma restart_delays_simps [simp]:
  "restart_delays [] = []"
  "restart_delays (a # as) = (case a of RestartIn d \<Rightarrow> [d] | _ \<Rightarrow> []) @ restart_delays as"
  "restart_delays (as @ bs) = restart_delays as @ restart_delays bs"
  by (auto simp: restart_delays_def map_filter_def split: child_act.splits)

lemma restart_delays_signals [simp]: "restart_delays (signals ss) = []"
  by (induction ss) (auto simp: signals_def)

lemma schedule_restart_spec:
  assumes "schedule_restart spec it acts0 step s = (step', s', acts, goes)" "restart_delays acts0 = []"
  shows "restart_delays acts = [restartDelay (ci_seed it) step']
    \<and> step' = Suc (if stableRuntime \<le> time_sub (ci_checked it) (ci_startedAt it) then 0 else step)
    \<and> k_restarts (comp_of (cs_name spec) s') = k_restarts (comp_of (cs_name spec) s) + 1
    \<and> \<not> k_up (comp_of (cs_name spec) s')
    \<and> k_backoffSeconds (comp_of (cs_name spec) s') = seconds (restartDelay (ci_seed it) step')
    \<and> (goes \<longleftrightarrow> \<not> ci_delay_ctx it)"
  using assms by (auto simp: schedule_restart_def Let_def mark_restart_def)

text \<open>One iteration: either it stops with the component down and nothing scheduled (or nothing
  done at all), or it schedules one restart.\<close>

lemma child_iteration_cases:
  assumes "child_iteration spec it step s = (step', s', acts, goes)"
  obtains (halted) "\<not> goes" "restart_delays acts = []" "step' = step"
      "k_restarts (comp_of (cs_name spec) s') = k_restarts (comp_of (cs_name spec) s)"
      "s' = s \<and> acts = [] \<or> \<not> k_up (comp_of (cs_name spec) s')"
  | (scheduled) d where "restart_delays acts = [d]" "d = restartDelay (ci_seed it) step'"
      "step' = Suc (if stableRuntime \<le> time_sub (ci_checked it) (ci_startedAt it) then 0 else step)"
      "k_restarts (comp_of (cs_name spec) s') = k_restarts (comp_of (cs_name spec) s) + 1"
      "\<not> k_up (comp_of (cs_name spec) s')" "k_backoffSeconds (comp_of (cs_name spec) s') = seconds d"
      "goes \<longleftrightarrow> \<not> ci_delay_ctx it"
proof (cases "ci_ctx it")
  case True
  with assms halted show ?thesis by (simp add: child_iteration_def)
next
  case ctx: False
  show ?thesis
  proof (cases "ci_start it")
    case (Inl e)
    have "schedule_restart spec it [StartFailed e] step (state_update (cs_name spec) mark_down s) = (step', s', acts, goes)"
      using assms ctx Inl by (simp add: child_iteration_def)
    from schedule_restart_spec [OF this] scheduled show ?thesis by (simp add: mark_defs)
  next
    case (Inr pid)
    show ?thesis
    proof (cases "ci_end it")
      case (Exited err fin)
      show ?thesis
      proof (cases fin)
        case True
        with Exited Inr ctx assms halted show ?thesis
          by (auto simp: child_iteration_def Let_def mark_defs)
      next
        case False
        have "schedule_restart spec it [Started pid, ExitedWith err] step
            (state_update (cs_name spec) mark_down (state_update (cs_name spec) mark_running s)) = (step', s', acts, goes)"
          using assms ctx Inr Exited False by (simp add: child_iteration_def)
        from schedule_restart_spec [OF this] scheduled show ?thesis by (simp add: mark_defs)
      qed
    next
      case (Shutdown d)
      with Inr ctx assms halted show ?thesis
        by (auto simp: child_iteration_def Let_def mark_defs split: option.splits)
    qed
  qed
qed

lemma child_iteration_others:
  assumes "child_iteration spec it step s = (step', s', acts, goes)" "name \<noteq> cs_name spec"
  shows "comp_of name s' = comp_of name s"
  using assms
  by (auto simp: child_iteration_def schedule_restart_def Let_def
      split: if_splits sum.splits child_end.splits option.splits)

lemma superviseChild_step:
  assumes "superviseChild spec (it # its) step s = (step', s', acts, runs)"
  obtains (stops) "child_iteration spec it step s = (step', s', acts, False)" "\<not> runs"
  | (continues) step1 s1 acts1 acts2 where "child_iteration spec it step s = (step1, s1, acts1, True)"
      "superviseChild spec its step1 s1 = (step', s', acts2, runs)" "acts = acts1 @ acts2"
  using assms by (auto split: prod.splits bool.splits)

lemma superviseChild_restarts:
  assumes "superviseChild spec its step s = (step', s', acts, runs)"
  shows "k_restarts (comp_of (cs_name spec) s')
      = k_restarts (comp_of (cs_name spec) s) + of_nat (length (restart_delays acts))"
  using assms
proof (induction its arbitrary: step s acts)
  case (Cons it its)
  from Cons.prems show ?case
  proof (cases rule: superviseChild_step)
    case stops
    from stops(1) show ?thesis by (cases rule: child_iteration_cases) auto
  next
    case (continues step1 s1 acts1 acts2)
    from continues(1) show ?thesis
      by (cases rule: child_iteration_cases) (use Cons.IH [OF continues(2)] continues(3) in auto)
  qed
qed simp

lemma superviseChild_up:
  assumes "superviseChild spec its step s = (step', s', acts, runs)" "\<not> k_up (comp_of (cs_name spec) s)"
  shows "\<not> k_up (comp_of (cs_name spec) s')"
  using assms
proof (induction its arbitrary: step s acts)
  case (Cons it its)
  from Cons.prems(1) show ?case
  proof (cases rule: superviseChild_step)
    case stops
    from stops(1) Cons.prems(2) show ?thesis by (cases rule: child_iteration_cases) auto
  next
    case (continues step1 s1 acts1 acts2)
    from continues(1) show ?thesis
      by (cases rule: child_iteration_cases) (use Cons.IH [OF continues(2)] in auto)
  qed
qed simp

lemma superviseChild_others:
  assumes "superviseChild spec its step s = (step', s', acts, runs)" "name \<noteq> cs_name spec"
  shows "comp_of name s' = comp_of name s"
  using assms
proof (induction its arbitrary: step s acts)
  case (Cons it its)
  from Cons.prems(1) show ?case
    by (cases rule: superviseChild_step)
      (use Cons.IH Cons.prems(2) child_iteration_others in \<open>metis+\<close>)
qed simp

text \<open>Crashes in a row, none of them after a stable run.\<close>

lemma superviseChild_delays:
  assumes "superviseChild spec its step s = (step', s', acts, runs)"
    and "\<forall>it\<in>set its. time_sub (ci_checked it) (ci_startedAt it) < stableRuntime"
    and "i < length (restart_delays acts)"
  shows "\<exists>seed. restart_delays acts ! i = restartDelay seed (step + i + 1)"
  using assms
proof (induction its arbitrary: step s acts i)
  case (Cons it its)
  from Cons.prems(1) show ?case
  proof (cases rule: superviseChild_step)
    case stops
    from stops(1) show ?thesis
      by (cases rule: child_iteration_cases) (use Cons.prems(2,3) in \<open>auto simp: not_le\<close>)
  next
    case (continues step1 s1 acts1 acts2)
    from continues(1) show ?thesis
    proof (cases rule: child_iteration_cases)
      case (scheduled d)
      then have s1: "step1 = Suc step" "restart_delays acts = d # restart_delays acts2"
        using Cons.prems(2) continues(3) by (auto simp: not_le)
      show ?thesis
      proof (cases i)
        case 0
        with s1 scheduled(2) show ?thesis by auto
      next
        case (Suc j)
        with Cons.IH [OF continues(2), of j] Cons.prems(2,3) s1 show ?thesis by auto
      qed
    qed simp
  qed
qed simp

lemma superviseChild_policy:
  assumes "superviseChild spec its step s = (step', s', acts, runs)" "d \<in> set (restart_delays acts)"
  shows "\<exists>seed n. d = restartDelay seed n"
  using assms
proof (induction its arbitrary: step s acts)
  case (Cons it its)
  from Cons.prems(1) show ?case
  proof (cases rule: superviseChild_step)
    case stops
    from stops(1) show ?thesis by (cases rule: child_iteration_cases) (use Cons.prems(2) in auto)
  next
    case (continues step1 s1 acts1 acts2)
    from continues(1) show ?thesis
      by (cases rule: child_iteration_cases) (use Cons.IH [OF continues(2)] Cons.prems(2) continues(3) in auto)
  qed
qed simp

text \<open>Attempts under a clock that does not go back, with the pause between them; and the attempts after
  which the loop goes on.\<close>

definition attempts_timed :: "instant \<Rightarrow> (nat \<Rightarrow> tcp_attempt) \<Rightarrow> bool" where
  "attempts_timed now attempts \<longleftrightarrow> now \<le> ta_now (attempts 0)
     \<and> (\<forall>k. ta_now (attempts k) \<le> ta_dialled (attempts k)
          \<and> ta_dialled (attempts k) + 100 * millisecond \<le> ta_now (attempts (Suc k)))"

definition goes_on :: "instant \<Rightarrow> tcp_attempt \<Rightarrow> bool" where
  "goes_on deadline a \<longleftrightarrow> ta_now a < deadline \<and> \<not> ta_connected a \<and> ta_ctx a = None"

lemma attempts_spaced: "attempts_timed now attempts \<Longrightarrow> now + int k * (100 * millisecond) \<le> ta_now (attempts k)"
proof (induction k)
  case (Suc k)
  then have "ta_now (attempts k) + 100 * millisecond \<le> ta_now (attempts (Suc k))"
    unfolding attempts_timed_def by (meson add_right_mono order.trans)
  with Suc show ?case by (simp add: algebra_simps)
qed (simp add: attempts_timed_def)

lemma wait_loop_skips:
  "(\<And>i. i < n \<Longrightarrow> goes_on deadline (attempts (k + i))) \<Longrightarrow>
     wait_loop (n + fuel) address timeout deadline attempts k = wait_loop fuel address timeout deadline attempts (k + n)"
proof (induction n arbitrary: k)
  case (Suc n)
  from Suc.prems [of 0] Suc.IH [of "Suc k"] Suc.prems [of "Suc _"] show ?case by (simp add: goes_on_def)
qed simp

section \<open>Properties\<close>

text \<open>
  Whatever a child does, its exported state is consistent: the restart counter grew by
  exactly the number of scheduled restarts (modulo its 64-bit width), outside a running child the
  component is reported down, no other component is touched, every wait lies between 0.8 and 30
  seconds, and while no run is stable the \<open>i\<close>-th wait is within a fifth of a second doubled \<open>i\<close> times,
  cut at 30 seconds.
\<close>

lemma supervision_accounting:
  assumes "superviseChild spec its 0 s = (step', s', acts, runs)" "\<not> k_up (comp_of (cs_name spec) s)"
  shows "k_restarts (comp_of (cs_name spec) s')
      = k_restarts (comp_of (cs_name spec) s) + of_nat (length (restart_delays acts))
    \<and> \<not> k_up (comp_of (cs_name spec) s')
    \<and> (\<forall>name. name \<noteq> cs_name spec \<longrightarrow> comp_of name s' = comp_of name s)
    \<and> (\<forall>d\<in>set (restart_delays acts). 4 * second \<le> 5 * d \<and> d \<le> 30 * second)
    \<and> ((\<forall>it\<in>set its. time_sub (ci_checked it) (ci_startedAt it) < stableRuntime) \<longrightarrow>
        (\<forall>i<length (restart_delays acts).
           4 * min (30 * second) (second * 2 ^ i) \<le> 5 * restart_delays acts ! i
           \<and> 5 * restart_delays acts ! i \<le> 6 * min (30 * second) (second * 2 ^ i)))"
proof (intro conjI allI impI ballI)
  fix d assume "d \<in> set (restart_delays acts)"
  then obtain seed n where "d = restartDelay seed n" using superviseChild_policy [OF assms(1)] by blast
  then show "4 * second \<le> 5 * d" "d \<le> 30 * second"
    using restart_backoff.delay_ge_initial [of seed n] restart_backoff.delay_cap [of seed n]
    by (auto simp: restartInitial_def restartMaximum_def)
next
  fix i assume "\<forall>it\<in>set its. time_sub (ci_checked it) (ci_startedAt it) < stableRuntime"
    and "i < length (restart_delays acts)"
  then obtain seed where d: "restart_delays acts ! i = restartDelay seed (i + 1)"
    using superviseChild_delays [OF assms(1)] by auto
  show "4 * min (30 * second) (second * 2 ^ i) \<le> 5 * restart_delays acts ! i"
    "5 * restart_delays acts ! i \<le> 6 * min (30 * second) (second * 2 ^ i)"
    using restart_backoff.delay_low [of "i + 1" seed] restart_backoff.delay_high [of seed "i + 1"]
    by (auto simp: d restartInitial_def restartMaximum_def)
qed (use superviseChild_restarts [OF assms(1)] superviseChild_up [OF assms(1,2)]
    superviseChild_others [OF assms(1)] in auto)

definition crash :: child_iter where
  "crash = \<lparr>ci_ctx = False, ci_startedAt = 0, ci_start = Inr 7, ci_end = Exited None False, ci_checked = 1,
     ci_seed = 0, ci_delay_ctx = False\<rparr>"

lemma supervision_accounting_sample:
  "\<not> k_up (comp_of ''unbound'' (fst (snd (superviseChild
     \<lparr>cs_name = ''unbound'', cs_path = [], cs_args = [], cs_suppressStartupInfo = False\<rparr> [crash, crash] 0 newRuntimeState))))"
proof -
  define spec where "spec = \<lparr>cs_name = ''unbound'', cs_path = [], cs_args = [], cs_suppressStartupInfo = False\<rparr>"
  obtain st s' acts runs where r: "superviseChild spec [crash, crash] 0 newRuntimeState = (st, s', acts, runs)"
    by (cases "superviseChild spec [crash, crash] 0 newRuntimeState") auto
  have "\<not> k_up (comp_of (cs_name spec) newRuntimeState)"
    by (simp add: spec_def comp_of_def newRuntimeState_def the_or_def zero_component_def)
  then show ?thesis
    using supervision_accounting [OF r] unfolding r [unfolded spec_def] by (simp add: r [unfolded spec_def] spec_def)
qed

text \<open>
  Property C39.  Waiting for a port always ends, after at most one attempt more than the timeout has
  tenths of a second.  All attempts but the last fail, uncancelled, before the deadline; the last one
  decides: at the deadline the wait fails with the timeout, a connection ends it with success, and
  otherwise the error of the context is returned.  An attempt begun before the deadline may
  connect after it, by less than the dial's own limit of 100 milliseconds.
\<close>

theorem waitForTCP_terminates:
  assumes "attempts_timed now attempts" "0 \<le> timeout" "nat (timeout div (100 * millisecond)) + 2 \<le> fuel"
  shows "\<exists>n \<le> nat (timeout div (100 * millisecond)) + 1.
      (\<forall>i<n. ta_now (attempts i) < now + timeout \<and> \<not> ta_connected (attempts i) \<and> ta_ctx (attempts i) = None)
      \<and> (if now + timeout \<le> ta_now (attempts n)
         then waitForTCP fuel address timeout now attempts
           = Some (Some (error_new (address @ '' did not become ready within '' @ duration_String timeout)))
         else if ta_connected (attempts n)
         then waitForTCP fuel address timeout now attempts = Some None
           \<and> (ta_dialled (attempts n) \<le> ta_now (attempts n) + 100 * millisecond \<longrightarrow>
                ta_dialled (attempts n) < now + timeout + 100 * millisecond)
         else \<exists>e. ta_ctx (attempts n) = Some e \<and> waitForTCP fuel address timeout now attempts = Some (Some e))"
proof -
  define last where "last = nat (timeout div (100 * millisecond)) + 1"
  define n where "n = (LEAST n. \<not> goes_on (now + timeout) (attempts n))"
  have "timeout < (timeout div (100 * millisecond) + 1) * (100 * millisecond)" by (simp add: millisecond_def)
  also have "\<dots> = int last * (100 * millisecond)"
    using assms(2) by (simp add: last_def millisecond_def pos_imp_zdiv_nonneg_iff)
  finally have stop: "\<not> goes_on (now + timeout) (attempts last)"
    using attempts_spaced [OF assms(1), of last] by (simp add: goes_on_def)
  then have n: "n \<le> last" "\<not> goes_on (now + timeout) (attempts n)"
    unfolding n_def by (rule Least_le, rule LeastI)
  have before: "goes_on (now + timeout) (attempts i)" if "i < n" for i
    using that not_less_Least unfolding n_def by blast
  define f where "f = fuel - Suc n"
  have f: "fuel = n + Suc f" using n(1) assms(3) by (simp add: f_def last_def)
  have "waitForTCP fuel address timeout now attempts = wait_loop (Suc f) address timeout (now + timeout) attempts n"
    unfolding waitForTCP_def f using wait_loop_skips [of n "now + timeout" attempts 0 "Suc f"] before by simp
  with n(2) before n(1) show ?thesis
    by (intro exI [of _ n]) (auto simp: goes_on_def last_def)
qed

theorem waitForTCP_terminates_witness:
  "waitForTCP 32 ''127.0.0.1:53'' (3 * second) 0
     (\<lambda>k. \<lparr>ta_now = int k * (200 * millisecond), ta_dialled = int k * (200 * millisecond) + 100 * millisecond,
        ta_connected = False, ta_ctx = None\<rparr>)
   = Some (Some (error_new ''127.0.0.1:53 did not become ready within 3s''))"
proof -
  have c: "char_of (48 :: nat) = CHR ''0''" "char_of (51 :: nat) = CHR ''3''" by (simp_all add: char_of_eq_iff)
  have "duration_String (3 * second) = ''3s''"
    by (simp add: duration_String_def fraction_def decimal.simps digit_def second_def c)
  with waitForTCP_terminates [of 0 "\<lambda>k. \<lparr>ta_now = int k * (200 * millisecond),
      ta_dialled = int k * (200 * millisecond) + 100 * millisecond, ta_connected = False, ta_ctx = None\<rparr>"
      "3 * second" 32 "''127.0.0.1:53''"]
  show ?thesis by (auto simp: attempts_timed_def second_def millisecond_def split: if_splits)
qed

end
