(* ===== verification/SupervisorPlugin.thy ===== *)
theory SupervisorPlugin
  imports RuntimeState GoStrings
begin

text \<open>
  internal/supervisorplugin/plugin.go: the MosDNS plugin that receives the supervisor's snapshots,
  answers the health endpoints and exports the metrics.  The JSON decoder, the socket calls and the
  metrics registry are parameters; a handler's answer is the status code and the body it writes.
\<close>

text \<open>\<^verbatim>\<open>init\<close>\<close>

definition supervisor_register :: registration where
  "supervisor_register = RegNewPluginFunc ''guarddns_supervisor''"

section \<open>Data\<close>

record sup_plugin =
  sp_snapshot :: snapshot
  sp_receivedAt :: instant
  sp_socketPath :: string

definition zero_snapshot :: snapshot where
  "zero_snapshot = \<lparr>s_timestamp = 0, s_components = Map.empty, s_dohUpstreams = Map.empty\<rparr>"

definition StatusOK :: nat where [guard_defs]: "StatusOK = 200"
definition StatusServiceUnavailable :: nat where [guard_defs]: "StatusServiceUnavailable = 503"

section \<open>Start, receive, stop\<close>

text \<open>The outcome of each call that can fail while the plugin starts.\<close>

record sup_io =
  io_resolve :: "goerr option"
  io_listen :: "goerr option"
  io_chmod :: "goerr option"
  io_register :: "goerr option"

text \<open>The result and whether a listening connection is left open.\<close>

definition sup_initPlugin :: "sup_io \<Rightarrow> string \<Rightarrow> (goerr + sup_plugin) \<times> bool" where
  "sup_initPlugin io socket =
     (if socket = [] then (Inl (error_new ''socket is required''), False)
      else case io_resolve io of Some e \<Rightarrow> (Inl e, False) | None \<Rightarrow>
           case io_listen io of Some e \<Rightarrow> (Inl e, False) | None \<Rightarrow>
           case io_chmod io of Some e \<Rightarrow> (Inl e, False) | None \<Rightarrow>
           case io_register io of Some e \<Rightarrow> (Inl e, False) | None \<Rightarrow>
             (Inr \<lparr>sp_snapshot = zero_snapshot, sp_receivedAt = zero_time, sp_socketPath = socket\<rparr>, True))"

definition receive :: "(string \<Rightarrow> snapshot option) \<Rightarrow> instant \<Rightarrow> string \<Rightarrow> sup_plugin \<Rightarrow> sup_plugin" where
  "receive unmarshal now datagram p =
     (case unmarshal (take 65535 datagram) of
        None \<Rightarrow> p
      | Some snap \<Rightarrow> p\<lparr>sp_snapshot := snap, sp_receivedAt := now\<rparr>)"

text \<open>\<^verbatim>\<open>readLoop\<close> on the datagrams that arrive before the read fails.\<close>

fun readLoop :: "(string \<Rightarrow> snapshot option) \<Rightarrow> (instant \<times> string) list \<Rightarrow> sup_plugin \<Rightarrow> sup_plugin" where
  "readLoop unmarshal [] p = p"
| "readLoop unmarshal ((now, datagram) # ds) p = readLoop unmarshal ds (receive unmarshal now datagram p)"

definition currentSnapshot :: "instant \<Rightarrow> sup_plugin \<Rightarrow> snapshot \<times> duration" where
  "currentSnapshot now p = (sp_snapshot p, time_sub now (sp_receivedAt p))"

section \<open>Health\<close>

text \<open>\<^verbatim>\<open>c, ok := Components[name]; ok && c.Enabled && !c.Up\<close>\<close>

definition component_down :: "snapshot \<Rightarrow> string \<Rightarrow> bool" where
  "component_down snap name =
     (case s_components snap name of None \<Rightarrow> False | Some c \<Rightarrow> k_enabled c \<and> \<not> k_up c)"

definition liveStatus :: "snapshot \<Rightarrow> duration \<Rightarrow> nat \<times> string" where
  "liveStatus snap age =
     (if s_timestamp snap = 0 \<or> 5 * second < age
      then (StatusServiceUnavailable, ''unhealthy: supervisor state is stale'')
      else if component_down snap ''mosdns''
      then (StatusServiceUnavailable, ''unhealthy: mosdns is restarting'')
      else (StatusOK, ''ok''))"

definition readyStatus :: "snapshot \<Rightarrow> duration \<Rightarrow> nat \<times> string" where
  "readyStatus snap age =
     (if fst (liveStatus snap age) \<noteq> StatusOK then liveStatus snap age
      else if component_down snap ''doh_bridge''
      then (StatusServiceUnavailable, ''unhealthy: encrypted DNS bridge is unavailable'')
      else if component_down snap ''unbound''
      then (StatusOK, ''degraded: unbound is restarting'')
      else if component_down snap ''unbound_recursive''
      then (StatusOK, ''degraded: CN classification resolver is restarting'')
      else (StatusOK, ''ok''))"

definition writeStatus :: "nat \<times> string \<Rightarrow> nat \<times> string" where
  "writeStatus = (\<lambda>(status, message). (status, message @ [CHR 0x0A]))"

definition live_handler :: "instant \<Rightarrow> sup_plugin \<Rightarrow> nat \<times> string" where
  "live_handler now p = (case currentSnapshot now p of (snap, age) \<Rightarrow> writeStatus (liveStatus snap age))"

definition ready_handler :: "instant \<Rightarrow> sup_plugin \<Rightarrow> nat \<times> string" where
  "ready_handler now p = (case currentSnapshot now p of (snap, age) \<Rightarrow> writeStatus (readyStatus snap age))"

record dependencyReport =
  r_status :: string
  r_message :: string
  r_timestamp :: int
  r_stateAgeSeconds :: rat
  r_components :: "string \<rightharpoonup> component"
  r_dohUpstreams :: "string \<rightharpoonup> doh_stats"

definition dependencies :: "instant \<Rightarrow> sup_plugin \<Rightarrow> dependencyReport" where
  "dependencies now p =
     (case currentSnapshot now p of (snap, age) \<Rightarrow>
        let message = snd (readyStatus snap age);
            status = (if strings_HasPrefix message ''unhealthy'' then ''unhealthy''
                      else if strings_HasPrefix message ''degraded'' then ''degraded''
                      else ''ready'')
        in \<lparr>r_status = status, r_message = message, r_timestamp = s_timestamp snap,
            r_stateAgeSeconds = seconds age, r_components = s_components snap,
            r_dohUpstreams = s_dohUpstreams snap\<rparr>)"

section \<open>Metrics\<close>

datatype metric_kind = CounterValue | GaugeValue

text \<open>A constant metric: descriptor name, kind, value, label value if labelled.\<close>

type_synonym metric = "string \<times> metric_kind \<times> rat \<times> string option"

definition component_descs :: "string list" where
  "component_descs = [''guarddns_component_up'', ''guarddns_component_enabled'',
     ''guarddns_component_restarts_total'', ''guarddns_component_backoff_seconds'']"

definition dohMetricDescriptions :: "string list" where
  "dohMetricDescriptions =
     [''guarddns_doh_upstream_requests_total'', ''guarddns_doh_upstream_successes_total'',
      ''guarddns_doh_upstream_failures_total'', ''guarddns_doh_upstream_backoff_skips_total'',
      ''guarddns_doh_upstream_request_duration_seconds_total'',
      ''guarddns_doh_upstream_backoff_seconds'',
      ''guarddns_doh_upstream_last_success_timestamp_seconds'',
      ''guarddns_doh_upstream_last_failure_timestamp_seconds'']"

definition sup_Describe :: "string list" where
  "sup_Describe = component_descs @ [''guarddns_supervisor_state_age_seconds''] @ dohMetricDescriptions"

definition boolFloat :: "bool \<Rightarrow> rat" where
  "boolFloat v = (if v then 1 else 0)"

definition remainingBackoffSeconds :: "doh_stats \<Rightarrow> instant \<Rightarrow> rat" where
  "remainingBackoffSeconds u now =
     (if d_retryAtUnixMilli u = 0 then 0
      else let remaining = time_sub (d_retryAtUnixMilli u * 1000000) now
           in if remaining < 0 then 0 else seconds remaining)"

definition component_metrics :: "string \<Rightarrow> component \<Rightarrow> metric list" where
  "component_metrics name c =
     [(''guarddns_component_up'', GaugeValue, boolFloat (k_up c), Some name),
      (''guarddns_component_enabled'', GaugeValue, boolFloat (k_enabled c), Some name),
      (''guarddns_component_restarts_total'', CounterValue, of_nat (unat (k_restarts c)), Some name),
      (''guarddns_component_backoff_seconds'', GaugeValue, k_backoffSeconds c, Some name)]"

definition doh_values :: "doh_stats \<Rightarrow> instant \<Rightarrow> (metric_kind \<times> rat) list" where
  "doh_values u now =
     [(CounterValue, of_nat (unat (d_requests u))), (CounterValue, of_nat (unat (d_successes u))),
      (CounterValue, of_nat (unat (d_failures u))), (CounterValue, of_nat (unat (d_backoffSkips u))),
      (CounterValue, of_nat (unat (d_durationMicroseconds u)) / 1000000),
      (GaugeValue, remainingBackoffSeconds u now),
      (GaugeValue, of_int (d_lastSuccessUnix u)), (GaugeValue, of_int (d_lastFailureUnix u))]"

definition doh_metrics :: "string \<Rightarrow> doh_stats \<Rightarrow> instant \<Rightarrow> metric list" where
  "doh_metrics name u now =
     map (\<lambda>i. (dohMetricDescriptions ! i, fst (doh_values u now ! i), snd (doh_values u now ! i), Some name))
       [0..<length (doh_values u now)]"

text \<open>
  \<^verbatim>\<open>Collect\<close>: Go iterates over maps in no fixed order, so the two iteration orders are
  parameters.
\<close>

definition sup_Collect :: "string list \<Rightarrow> string list \<Rightarrow> instant \<Rightarrow> sup_plugin \<Rightarrow> metric list" where
  "sup_Collect names upstreams now p =
     concat (map (\<lambda>name. case s_components (sp_snapshot p) name of
         None \<Rightarrow> [] | Some c \<Rightarrow> component_metrics name c) names)
     @ [(''guarddns_supervisor_state_age_seconds'', GaugeValue,
         (if sp_receivedAt p = zero_time then 0 else seconds (time_sub now (sp_receivedAt p))), None)]
     @ concat (map (\<lambda>name. case s_dohUpstreams (sp_snapshot p) name of
         None \<Rightarrow> [] | Some u \<Rightarrow> doh_metrics name u now) upstreams)"

text \<open>\<^verbatim>\<open>Close\<close>: the calls it makes, in order, and the error it returns.\<close>

datatype close_call = Unregister | ConnClose | RemoveSocket string

definition sup_Close :: "goerr option \<Rightarrow> sup_plugin \<Rightarrow> close_call list \<times> goerr option" where
  "sup_Close conn_err p = ([Unregister, ConnClose, RemoveSocket (sp_socketPath p)], conn_err)"

section \<open>Lemmas\<close>

lemmas status_defs = liveStatus_def readyStatus_def StatusOK_def StatusServiceUnavailable_def

definition unhealthy :: "snapshot \<Rightarrow> duration \<Rightarrow> bool" where
  "unhealthy snap age \<longleftrightarrow> s_timestamp snap = 0 \<or> 5 * second < age
     \<or> component_down snap ''mosdns'' \<or> component_down snap ''doh_bridge''"

definition degraded :: "snapshot \<Rightarrow> bool" where
  "degraded snap \<longleftrightarrow> component_down snap ''unbound'' \<or> component_down snap ''unbound_recursive''"

lemma readyStatus_code: "fst (readyStatus snap age) = (if unhealthy snap age then 503 else 200)"
  by (auto simp: status_defs unhealthy_def)

lemma readyStatus_message:
  "snd (readyStatus snap age) \<in>
     (if unhealthy snap age
      then {''unhealthy: supervisor state is stale'', ''unhealthy: mosdns is restarting'',
            ''unhealthy: encrypted DNS bridge is unavailable''}
      else if degraded snap
      then {''degraded: unbound is restarting'', ''degraded: CN classification resolver is restarting''}
      else {''ok''})"
  by (auto simp: status_defs unhealthy_def degraded_def)

lemma readyStatus_message_cases:
  obtains (stale) "unhealthy snap age" "snd (readyStatus snap age) = ''unhealthy: supervisor state is stale''"
  | (mosdns) "unhealthy snap age" "snd (readyStatus snap age) = ''unhealthy: mosdns is restarting''"
  | (bridge) "unhealthy snap age" "snd (readyStatus snap age) = ''unhealthy: encrypted DNS bridge is unavailable''"
  | (unbound) "\<not> unhealthy snap age" "degraded snap" "snd (readyStatus snap age) = ''degraded: unbound is restarting''"
  | (recursive) "\<not> unhealthy snap age" "degraded snap"
      "snd (readyStatus snap age) = ''degraded: CN classification resolver is restarting''"
  | (fine) "\<not> unhealthy snap age" "\<not> degraded snap" "snd (readyStatus snap age) = ''ok''"
  using readyStatus_message [of snap age] by (auto split: if_splits)

lemma liveStatus_stale: "5 * second < age \<Longrightarrow> fst (liveStatus snap age) = 503"
  by (simp add: status_defs)

lemma receive_ok:
  assumes "unmarshal (take 65535 d) = Some snap"
  shows "receive unmarshal now d p = p\<lparr>sp_snapshot := snap, sp_receivedAt := now\<rparr>"
  using assms by (simp add: receive_def)

lemma readLoop_receivedAt:
  "sp_receivedAt (readLoop unmarshal ds p) \<in> insert (sp_receivedAt p) (fst ` set ds)"
proof (induction ds arbitrary: p)
  case (Cons d ds)
  obtain now x where d: "d = (now, x)" by (cases d)
  have "sp_receivedAt (receive unmarshal now x p) \<in> {sp_receivedAt p, now}"
    by (simp add: receive_def split: option.splits)
  with Cons [of "receive unmarshal now x p"] show ?case by (auto simp: d)
qed simp

lemma handlers [simp]:
  "fst (live_handler now p) = fst (liveStatus (sp_snapshot p) (time_sub now (sp_receivedAt p)))"
  "fst (ready_handler now p) = fst (readyStatus (sp_snapshot p) (time_sub now (sp_receivedAt p)))"
  "snd (ready_handler now p) = snd (readyStatus (sp_snapshot p) (time_sub now (sp_receivedAt p))) @ [CHR 0x0A]"
  by (simp_all add: live_handler_def ready_handler_def currentSnapshot_def writeStatus_def case_prod_beta)

section \<open>Properties\<close>

text \<open>
  The readiness decision: HTTP 503 with an \<^verbatim>\<open>unhealthy\<close> message exactly when
  the state is missing or older than five seconds, or MosDNS or the encrypted bridge is enabled but
  down; otherwise HTTP 200, with a \<^verbatim>\<open>degraded\<close> message exactly when one of the two
  Unbound processes is enabled but down.
\<close>

lemma readyStatus_decision:
  "(fst (readyStatus snap age) = 503 \<longleftrightarrow>
      s_timestamp snap = 0 \<or> 5 * second < age \<or> component_down snap ''mosdns'' \<or> component_down snap ''doh_bridge'')
   \<and> (fst (readyStatus snap age) = 200 \<longleftrightarrow> fst (readyStatus snap age) \<noteq> 503)
   \<and> (strings_HasPrefix (snd (readyStatus snap age)) ''unhealthy'' \<longleftrightarrow> fst (readyStatus snap age) = 503)
   \<and> (strings_HasPrefix (snd (readyStatus snap age)) ''degraded'' \<longleftrightarrow>
        fst (readyStatus snap age) = 200 \<and>
        (component_down snap ''unbound'' \<or> component_down snap ''unbound_recursive''))
   \<and> (fst (readyStatus snap age) = 200 \<longleftrightarrow>
        fst (liveStatus snap age) = 200 \<and> \<not> component_down snap ''doh_bridge'')"
proof -
  have "fst (liveStatus snap age) = 200 \<and> \<not> component_down snap ''doh_bridge'' \<longleftrightarrow> \<not> unhealthy snap age"
    by (auto simp: status_defs unhealthy_def)
  then show ?thesis
    by (cases snap age rule: readyStatus_message_cases)
      (auto simp: readyStatus_code strings_HasPrefix_def unhealthy_def degraded_def)
qed

text \<open>
  The JSON dependency report classifies the system as the readiness endpoint does.
\<close>

lemma dependencies_agrees_with_ready:
  "r_status (dependencies now p) =
     (if fst (ready_handler now p) = 503 then ''unhealthy''
      else if degraded (sp_snapshot p) then ''degraded'' else ''ready'')
   \<and> snd (ready_handler now p) = r_message (dependencies now p) @ [CHR 0x0A]
   \<and> r_components (dependencies now p) = s_components (sp_snapshot p)"
proof -
  define age where "age = time_sub now (sp_receivedAt p)"
  show ?thesis
    by (cases "sp_snapshot p" age rule: readyStatus_message_cases)
      (auto simp: readyStatus_code dependencies_def currentSnapshot_def strings_HasPrefix_def
        simp flip: age_def)
qed

text \<open>
  Property C23.  Staleness is fail-safe: whatever datagrams arrived, once more than five seconds have
  passed since the last of them both endpoints answer 503; a plugin that has received nothing
  answers 503 at once.
\<close>

theorem stale_state_unhealthy:
  assumes "sup_initPlugin io socket = (Inr p, True)" "0 < now"
    and "\<forall>(t, d)\<in>set datagrams. t + 5 * second < now"
  shows "fst (live_handler now (readLoop unmarshal datagrams p)) = 503
    \<and> fst (ready_handler now (readLoop unmarshal datagrams p)) = 503"
proof -
  have "sp_receivedAt p = zero_time"
    using assms(1) by (auto simp: sup_initPlugin_def split: if_splits option.splits)
  then have "sp_receivedAt (readLoop unmarshal datagrams p) + 5 * second < now"
    using readLoop_receivedAt [of unmarshal datagrams p] assms(2,3)
    by (auto simp: zero_time_def second_def)
  then have "5 * second < time_sub now (sp_receivedAt (readLoop unmarshal datagrams p))"
    by (subst time_sub_gt_iff) (auto simp: second_def)
  then show ?thesis by (simp add: readyStatus_code unhealthy_def liveStatus_stale)
qed

theorem stale_state_unhealthy_witness:
  "fst (live_handler (20 * second) (readLoop (\<lambda>_. Some (state_snapshot second newRuntimeState))
      [(second, ''x'')] \<lparr>sp_snapshot = zero_snapshot, sp_receivedAt = zero_time, sp_socketPath = ''s''\<rparr>)) = 503"
  using stale_state_unhealthy [of "\<lparr>io_resolve = None, io_listen = None, io_chmod = None, io_register = None\<rparr>" "''s''"
      "\<lparr>sp_snapshot = zero_snapshot, sp_receivedAt = zero_time, sp_socketPath = ''s''\<rparr>" "20 * second" "[(second, ''x'')]"
      "\<lambda>_. Some (state_snapshot second newRuntimeState)"]
  by (simp add: sup_initPlugin_def second_def)

text \<open>
  Every metric that \<^verbatim>\<open>Collect\<close> emits was announced by
  \<^verbatim>\<open>Describe\<close>, and the eight values of a provider are paired with the eight
  descriptors in order, no value or descriptor left over.
\<close>

lemma collect_described:
  "set (map fst (sup_Collect names upstreams now p)) \<subseteq> set sup_Describe
   \<and> map fst (doh_metrics name u now) = dohMetricDescriptions
   \<and> map (\<lambda>m. (fst (snd m), fst (snd (snd m)))) (doh_metrics name u now) = doh_values u now"
proof -
  have len: "length (doh_values u now) = length dohMetricDescriptions" for u
    by (simp add: doh_values_def dohMetricDescriptions_def)
  have names: "map fst (doh_metrics name u now) = dohMetricDescriptions" for name u
    by (rule nth_equalityI) (auto simp: doh_metrics_def len)
  have vals: "map (\<lambda>m. (fst (snd m), fst (snd (snd m)))) (doh_metrics name u now) = doh_values u now"
    by (rule nth_equalityI) (auto simp: doh_metrics_def)
  have doh: "fst m \<in> set dohMetricDescriptions" if "m \<in> set (doh_metrics name u now)" for m name u
    using that arg_cong [OF names [of name u], of set] by auto
  have comp: "fst m \<in> set component_descs" if "m \<in> set (component_metrics name c)" for m name c
    using that by (auto simp: component_metrics_def component_descs_def)
  have "fst m \<in> set sup_Describe" if m: "m \<in> set (sup_Collect names upstreams now p)" for m
  proof -
    from m consider (c) name c where "m \<in> set (component_metrics name c)"
      | (age) "fst m = ''guarddns_supervisor_state_age_seconds''"
      | (d) name u where "m \<in> set (doh_metrics name u now)"
      unfolding sup_Collect_def by (auto split: option.splits)
    then show ?thesis unfolding sup_Describe_def by cases (use comp doh in auto)
  qed
  then have "set (map fst (sup_Collect names upstreams now p)) \<subseteq> set sup_Describe" by auto
  with names vals show ?thesis by blast
qed

end
