(* ===== verification/Healthcheck.thy ===== *)
theory Healthcheck
  imports SupervisorPlugin
begin

text \<open>
  cmd/guarddns/healthcheck.go: the container health check, a readiness request to the supervisor
  plugin followed by a real A query through the encrypted listener.  The HTTP and DNS exchanges are
  parameters: what the client calls returned.  A check returns \<open>None\<close> when it passes.
\<close>

section \<open>The check\<close>

text \<open>The HTTP exchange: a transport error, or a status with the body (or the read error).\<close>

type_synonym http_result = "goerr + (nat \<times> (goerr + string))"

definition checkSupervisorHealth :: "http_result \<Rightarrow> goerr option" where
  "checkSupervisorHealth result =
     (case result of
        Inl e \<Rightarrow> Some (error_wrap ''supervisor endpoint'' e)
      | Inr (code, Inl e) \<Rightarrow> Some (error_wrap ''supervisor response'' e)
      | Inr (code, Inr body) \<Rightarrow>
          let status = strings_TrimSpace (take 256 body)
          in if code \<noteq> StatusOK
                \<or> (\<not> strings_HasPrefix status ''ok'' \<and> \<not> strings_HasPrefix status ''degraded'')
             then Some (error_new (''supervisor is not ready: HTTP '' @ strconv_Itoa (int code) @ '': '' @ status))
             else None)"

text \<open>The DNS exchange: an error, or the response message (which may be absent).\<close>

definition checkSecureDNS :: "(int \<Rightarrow> string) \<Rightarrow> goerr + dns_msg option \<Rightarrow> goerr option" where
  "checkSecureDNS rcode_name result =
     (case result of
        Inl e \<Rightarrow> Some (error_wrap ''secure DNS query'' e)
      | Inr None \<Rightarrow> Some (error_new ''secure DNS query returned no response'')
      | Inr (Some response) \<Rightarrow>
          if m_rcode response \<noteq> RcodeSuccess
          then Some (error_new (''secure DNS query returned '' @ rcode_name (m_rcode response)))
          else if list_ex (\<lambda>rr. rr_type rr = dns_TypeA) (m_answer response) then None
          else Some (error_new ''secure DNS query returned no A record''))"

definition runHealthcheck ::
  "(int \<Rightarrow> string) \<Rightarrow> http_result \<Rightarrow> goerr + dns_msg option \<Rightarrow> goerr option" where
  "runHealthcheck rcode_name http dns =
     (case checkSupervisorHealth http of
        Some e \<Rightarrow> Some e
      | None \<Rightarrow> checkSecureDNS rcode_name dns)"

section \<open>Lemmas\<close>

text \<open>The six messages the readiness endpoint can send survive the body limit and trimming.\<close>

lemma trimmed_messages:
  "strings_TrimSpace (take 256 (''ok'' @ [CHR 0x0A])) = ''ok''"
  "strings_TrimSpace (take 256 (''degraded: unbound is restarting'' @ [CHR 0x0A])) = ''degraded: unbound is restarting''"
  "strings_TrimSpace (take 256 (''degraded: CN classification resolver is restarting'' @ [CHR 0x0A]))
     = ''degraded: CN classification resolver is restarting''"
  by code_simp+

text \<open>The verdict on the readiness endpoint's own answer is positive exactly when that answer is HTTP
  200, and the whole check passes exactly when, in addition, the encrypted listener returned a
  successful response holding an A record.\<close>

lemma healthcheck_verdict:
  "(checkSupervisorHealth (Inr (fst (ready_handler now p), Inr (snd (ready_handler now p)))) = None
      \<longleftrightarrow> fst (ready_handler now p) = 200)
   \<and> (runHealthcheck rn (Inr (fst (ready_handler now p), Inr (snd (ready_handler now p)))) dns = None
      \<longleftrightarrow> fst (ready_handler now p) = 200
        \<and> (\<exists>r. dns = Inr (Some r) \<and> m_rcode r = 0 \<and> (\<exists>rr\<in>set (m_answer r). rr_type rr = 1)))"
proof -
  define age where "age = time_sub now (sp_receivedAt p)"
  have h: "fst (ready_handler now p) = fst (readyStatus (sp_snapshot p) age)"
    "snd (ready_handler now p) = snd (readyStatus (sp_snapshot p) age) @ [CHR 0x0A]"
    by (simp_all add: age_def)
  have first: "checkSupervisorHealth (Inr (fst (ready_handler now p), Inr (snd (ready_handler now p)))) = None
      \<longleftrightarrow> fst (ready_handler now p) = 200"
    unfolding h
    by (cases "sp_snapshot p" age rule: readyStatus_message_cases)
      (simp_all only: checkSupervisorHealth_def sum.case prod.case Let_def trimmed_messages
        readyStatus_code StatusOK_def if_True if_False, simp_all add: strings_HasPrefix_def)
  have "checkSecureDNS rn dns = None
      \<longleftrightarrow> (\<exists>r. dns = Inr (Some r) \<and> m_rcode r = 0 \<and> (\<exists>rr\<in>set (m_answer r). rr_type rr = 1))"
    by (auto simp: checkSecureDNS_def RcodeSuccess_def dns_TypeA_def list_ex_iff
        split: sum.splits option.splits)
  with first show ?thesis by (auto simp: runHealthcheck_def split: option.splits)
qed

end
