(* ===== verification/GuardMain.thy ===== *)
theory GuardMain
  imports Config DoHBridge ChildProcess Healthcheck
begin

text \<open>
  The entry point cmd/guarddns/main.go (with logger.go), which prepares the runtime, starts the
  encrypted bridge and supervises the three children.  Everything the process asks of its
  surroundings is in one record.
\<close>

section \<open>The logger\<close>

record logger =
  lg_threshold :: int

definition newLogger :: "string \<Rightarrow> logger" where
  "newLogger level = \<lparr>lg_threshold =
     (if level = ''debug'' then 0
      else if level = ''info'' then 1
      else if level = ''warn'' then 2
      else if level = ''error'' then 3
      else 2)\<rparr>"

text \<open>The lines a call prints, the message already formatted.\<close>

definition infof :: "logger \<Rightarrow> string \<Rightarrow> string list" where
  "infof l message = (if lg_threshold l \<le> 1 then [''[GuardDNS] INFO '' @ message] else [])"

definition warnf :: "logger \<Rightarrow> string \<Rightarrow> string list" where
  "warnf l message = (if lg_threshold l \<le> 2 then [''[GuardDNS] WARN '' @ message] else [])"

definition errorf :: "logger \<Rightarrow> string \<Rightarrow> string list" where
  "errorf l message = [''[GuardDNS] ERROR '' @ message]"

text \<open>The levels by name, in their order; the logger's threshold is the number of its level, and an
  unknown name counts as a warning level.\<close>

datatype log_level = Debug | Info | Warn | Error

fun level_number :: "log_level \<Rightarrow> int" where
  "level_number Debug = 0" | "level_number Info = 1" | "level_number Warn = 2" | "level_number Error = 3"

instantiation log_level :: linorder
begin

definition less_eq_log_level :: "log_level \<Rightarrow> log_level \<Rightarrow> bool" where
  "a \<le> b \<longleftrightarrow> level_number a \<le> level_number b"

definition less_log_level :: "log_level \<Rightarrow> log_level \<Rightarrow> bool" where
  "a < b \<longleftrightarrow> level_number a < level_number b"

instance
proof
  fix a b :: log_level
  assume "a \<le> b" "b \<le> a"
  then show "a = b" by (cases a; cases b) (simp_all add: less_eq_log_level_def)
qed (auto simp: less_eq_log_level_def less_log_level_def)

end

definition level_of :: "string \<Rightarrow> log_level" where
  "level_of name = (if name = ''debug'' then Debug else if name = ''info'' then Info
     else if name = ''error'' then Error else Warn)"

lemma newLogger_level: "lg_threshold (newLogger name) = level_number (level_of name)"
  by (simp add: newLogger_def level_of_def)

text \<open>A line is printed when its level is not below the logger's.\<close>

lemma printed_iff:
  "infof (newLogger name) msg \<noteq> [] \<longleftrightarrow> level_of name \<le> Info"
  "warnf (newLogger name) msg \<noteq> [] \<longleftrightarrow> level_of name \<le> Warn"
  "errorf (newLogger name) msg \<noteq> []"
  by (simp_all add: infof_def warnf_def errorf_def newLogger_level less_eq_log_level_def)

section \<open>The supervisor process\<close>

record main_env =
  me_getenv :: "string \<Rightarrow> string"
  me_os :: os
  me_uid :: string
  me_gid :: string
  me_checkconf :: "string \<Rightarrow> string option \<Rightarrow> goerr option"
  me_rcode_name :: "int \<Rightarrow> string"
  me_probe1 :: "nat \<times> doh_call"
  me_probe2 :: "nat \<times> doh_call"
  me_udp :: "goerr option"
  me_tcp :: "goerr option"
  me_health_http :: http_result
  me_health_dns :: "goerr + dns_msg option"
  me_waits :: "goerr option \<times> goerr option \<times> goerr option"
  me_version :: string

text \<open>The children in the order they are started.\<close>

definition main_children :: "config \<Rightarrow> childSpec list" where
  "main_children cfg =
     (let quiet = cfg_logLevel cfg = ''warn'' \<or> cfg_logLevel cfg = ''error''
      in [\<lparr>cs_name = ''unbound'', cs_path = ''/usr/sbin/unbound'', cs_args = [''-d'', ''-c'', unboundRuntimeConfig],
           cs_suppressStartupInfo = quiet\<rparr>,
          \<lparr>cs_name = ''unbound_recursive'', cs_path = ''/usr/sbin/unbound'',
           cs_args = [''-d'', ''-c'', unboundRecursiveRuntimeConfig], cs_suppressStartupInfo = quiet\<rparr>,
          \<lparr>cs_name = ''mosdns'', cs_path = ''/usr/local/bin/mosdns'', cs_args = [''start'', ''-c'', mosdnsRuntimeConfig],
           cs_suppressStartupInfo = False\<rparr>])"

definition main_mode :: "config \<Rightarrow> string" where
  "main_mode cfg = (if cfg_autoEnabled cfg then ''auto-forward'' else ''secure'')"

text \<open>What is logged while the children come up: the results of waiting for the ports of the two
  Unbound processes (three seconds each) and of MosDNS (five seconds).\<close>

definition main_log :: "config \<Rightarrow> goerr option \<times> goerr option \<times> goerr option \<Rightarrow> string list" where
  "main_log cfg waits =
     (case waits of (unbound, recursive, mosdns) \<Rightarrow>
        let l = newLogger (cfg_logLevel cfg)
        in (case unbound of
              Some e \<Rightarrow> warnf l (''Unbound is not ready; starting MosDNS in degraded mode: '' @ err_text e)
            | None \<Rightarrow> [])
         @ (case recursive of
              Some e \<Rightarrow> warnf l (''CN classification resolver is not ready: '' @ err_text e)
            | None \<Rightarrow> [])
         @ (case mosdns of
              Some e \<Rightarrow> warnf l (''MosDNS is not ready and will keep restarting: '' @ err_text e)
            | None \<Rightarrow> infof l (''ready mode='' @ main_mode cfg @ '' dns=:53 secure=:5304 metrics=:5308'')))"

record serving =
  sv_config :: config
  sv_files :: fs
  sv_state :: runtimeState
  sv_upstreams :: "dohUpstream list"
  sv_bridge :: dohBridge
  sv_children :: "childSpec list"
  sv_log :: "string list"

text \<open>How \<^verbatim>\<open>main\<close> goes: it exits with a code and the lines it printed, or it serves.\<close>

datatype main_outcome = ExitWith nat "string list" | Serving serving

definition guarddns_main :: "main_env \<Rightarrow> string list \<Rightarrow> fs \<Rightarrow> main_outcome" where
  "guarddns_main env args s =
     (if length args = 2 \<and> args ! 1 = ''version'' then ExitWith 0 [me_version env]
      else if length args = 2 \<and> args ! 1 = ''healthcheck'' then
        (case runHealthcheck (me_rcode_name env) (me_health_http env) (me_health_dns env) of
           Some e \<Rightarrow> ExitWith 1 [''GuardDNS health check failed: '' @ err_text e]
         | None \<Rightarrow> ExitWith 0 [])
      else if length args \<noteq> 1 then ExitWith 2 [''usage: guarddns [version|healthcheck]'']
      else case loadConfig (me_getenv env) of
          Inl e \<Rightarrow> ExitWith 2 [''GuardDNS configuration error: '' @ err_text e]
        | Inr cfg \<Rightarrow>
            (case prepareRuntime (me_os env) (me_uid env) (me_gid env) (me_checkconf env) cfg s of
               (Some e, s') \<Rightarrow>
                 ExitWith 1 (errorf (newLogger (cfg_logLevel cfg)) (''runtime initialization failed: '' @ err_text e))
             | (None, s') \<Rightarrow>
                 (case startDoHBridge (me_rcode_name env) (me_probe1 env) (me_probe2 env) (me_udp env) (me_tcp env)
                     cfg newRuntimeState of
                    (rs, Inl (e, _)) \<Rightarrow>
                      ExitWith 1 (errorf (newLogger (cfg_logLevel cfg)) (''encrypted DNS bridge failed to start: '' @ err_text e))
                  | (rs, Inr (us, b)) \<Rightarrow>
                      Serving \<lparr>sv_config = cfg, sv_files = s', sv_state = rs, sv_upstreams = us, sv_bridge = b,
                        sv_children = main_children cfg, sv_log = main_log cfg (me_waits env)\<rparr>)))"

section \<open>Properties\<close>

lemma guarddns_main_serving:
  assumes "guarddns_main env args s = Serving sv"
  obtains "loadConfig (me_getenv env) = Inr (sv_config sv)"
    "prepareRuntime (me_os env) (me_uid env) (me_gid env) (me_checkconf env) (sv_config sv) s = (None, sv_files sv)"
    "startDoHBridge (me_rcode_name env) (me_probe1 env) (me_probe2 env) (me_udp env) (me_tcp env) (sv_config sv)
       newRuntimeState = (sv_state sv, Inr (sv_upstreams sv, sv_bridge sv))"
    "sv_children sv = main_children (sv_config sv)" "length args = 1"
  using assms by (auto simp: guarddns_main_def split: if_splits option.splits sum.splits prod.splits)

text \<open>
  Property C22.  The process serves only on a complete set-up: once \<^verbatim>\<open>main\<close> gets past its
  early exits, every child it starts reads a configuration file that was rendered without open
  placeholders, the file of the foreign path is rendered too, the bridge is reported up, and the
  children are exactly the three components that the supervisor state watches.
\<close>

theorem main_serves_prepared:
  assumes "guarddns_main env args s = Serving sv"
  shows "(\<forall>c\<in>set (sv_children sv). rendered (sv_files sv) (last (cs_args c)))
    \<and> rendered (sv_files sv) foreignRuntimeConfig \<and> bridge_up (sv_state sv)
    \<and> map cs_name (sv_children sv) = [''unbound'', ''unbound_recursive'', ''mosdns'']
    \<and> insert ''doh_bridge'' (cs_name ` set (sv_children sv)) = dom (rs_components newRuntimeState)"
proof -
  from assms obtain p: "prepareRuntime (me_os env) (me_uid env) (me_gid env) (me_checkconf env) (sv_config sv) s
      = (None, sv_files sv)"
    and b: "startDoHBridge (me_rcode_name env) (me_probe1 env) (me_probe2 env) (me_udp env) (me_tcp env) (sv_config sv)
       newRuntimeState = (sv_state sv, Inr (sv_upstreams sv, sv_bridge sv))"
    and c: "sv_children sv = main_children (sv_config sv)"
    by (rule guarddns_main_serving)
  have "bridge_up (sv_state sv)" by (rule startDoHBridge_up [OF b])
  with prepareRuntime_files [OF p] show ?thesis
    by (auto simp: c main_children_def Let_def newRuntimeState_def)
qed

text \<open>A run of the image with its default files and no forwarding.\<close>

definition image_files :: fs where
  "image_files = [''/etc/guarddns/defaults/direct.txt'' \<mapsto> ''full:doh.pub'', ''/etc/guarddns/defaults/proxy.txt'' \<mapsto> [],
     ''/etc/unbound/root.key'' \<mapsto> ''. IN DS 20326'', ''/etc/guarddns/unbound.conf.tmpl'' \<mapsto> ''v: __UNBOUND_VERBOSITY__'',
     ''/etc/guarddns/unbound-recursive.conf.tmpl'' \<mapsto> ''v: __UNBOUND_VERBOSITY__'',
     ''/etc/guarddns/mosdns.yaml.tmpl'' \<mapsto> ''level: __LOG_LEVEL__'', ''/etc/guarddns/foreign-secure.yaml'' \<mapsto> ''x: 1'']"

lemma fine_io:
  "os_Stat os_fine p s = (if s p = None then Some errNotExist else None)"
  "os_ReadFile os_fine p s = (case s p of None \<Rightarrow> Inl errNotExist | Some c \<Rightarrow> Inr c)"
  "os_fault os_fine op = None"
  "os_Remove os_fine p s = s(p := None)"
  "os_Rename os_fine p q s = (None, (s(q := s p))(p := None))"
  by (simp_all add: os_Stat_def os_ReadFile_def os_fine_def os_Remove_def os_Rename_def)

lemma copyFile_fine: "s src = Some c \<Longrightarrow> copyFile os_fine src dst s = (None, (s(dst \<mapsto> c))(dst @ ''.tmp'' := None))"
  by (simp add: copyFile_def fine_io Let_def fun_upd_twist)

lemma writeFileAtomic_fine: "writeFileAtomic os_fine dst c s = (None, (s(dst \<mapsto> c))(dst @ ''.tmp'' := None))"
  by (simp add: writeFileAtomic_def andthen_def os_WriteFile_def fine_io fun_upd_twist)

lemma atoi_sample: "strconv_Atoi ''101'' = Some 101"
  by (simp add: strconv_Atoi_def digits_value_def is_digit_def)

lemma rendered_samples: "strings_ReplaceAll ''v: __UNBOUND_VERBOSITY__'' ''__UNBOUND_VERBOSITY__'' ''0'' = ''v: 0''"
  "strings_ReplaceAll ''level: __LOG_LEVEL__'' ''__LOG_LEVEL__'' ''warn'' = ''level: warn''"
  by (simp_all add: strings_ReplaceAll.simps)


definition image_env :: main_env where
  "image_env = \<lparr>me_getenv = (\<lambda>_. []), me_os = os_fine, me_uid = ''101'', me_gid = ''101'', me_checkconf = (\<lambda>_ _. None),
     me_rcode_name = (\<lambda>_. []), me_probe1 = (0, plain_call dead_net), me_probe2 = (0, plain_call dead_net),
     me_udp = None, me_tcp = None, me_health_http = Inl (error_new []), me_health_dns = Inr None,
     me_waits = (None, None, None), me_version = ''dev''\<rparr>"

lemma image_config: "loadConfig (\<lambda>_. []) = Inr secure_config"
  by (simp add: loadConfig_def envDefault_def unbound_verbosity_def secure_config_def)

lemma image_prepared: "\<exists>s'. prepareRuntime os_fine ''101'' ''101'' (\<lambda>_ _. None) secure_config image_files = (None, s')"
  by (simp add: prepareRuntime_def andthen_def mkdir_def fine_io prepareDomainLists_def domainListSpecs_def
    prepare_list_def Let_def filepath_Join_def dataDir_def configDir_def image_files_def errNotExist_def copyFile_fine
    install_root_key_def rootKeySource_def rootKeyCandidates_def runtime_paths chownUnbound_def atoi_sample chown_path_def
    render_def secure_config_def rendered_samples writeRendered_def writeFileAtomic_fine render_foreign_def remove_pid_files_def check_config_def)

lemma image_serves: "\<exists>sv. guarddns_main image_env [''guarddns''] image_files = Serving sv"
proof -
  obtain s' where p: "prepareRuntime os_fine ''101'' ''101'' (\<lambda>_ _. None) secure_config image_files = (None, s')"
    using image_prepared by blast
  obtain rs us b where st: "startDoHBridge (\<lambda>_. []) (0, plain_call dead_net) (0, plain_call dead_net) None None
      secure_config newRuntimeState = (rs, Inr (us, b))"
    by (cases "selectDoHUpstreams (\<lambda>_. []) (0, plain_call dead_net) (0, plain_call dead_net) secure_config newRuntimeState")
      (simp add: startDoHBridge_def)
  have "guarddns_main image_env [''guarddns''] image_files = Serving \<lparr>sv_config = secure_config, sv_files = s',
      sv_state = rs, sv_upstreams = us, sv_bridge = b, sv_children = main_children secure_config,
      sv_log = main_log secure_config (None, None, None)\<rparr>"
    unfolding guarddns_main_def image_env_def main_env.select_convs image_config by (simp add: p st)
  then show ?thesis by blast
qed

theorem main_serves_prepared_witness:
  "\<exists>sv. guarddns_main image_env [''guarddns''] image_files = Serving sv \<and> bridge_up (sv_state sv)"
proof -
  obtain sv where sv: "guarddns_main image_env [''guarddns''] image_files = Serving sv" using image_serves by blast
  from main_serves_prepared [OF sv] have "bridge_up (sv_state sv)" by (elim conjE)
  with sv show ?thesis by (intro exI [of _ sv] conjI)
qed

end
