(* ===== verification/Supervision.thy ===== *)
theory Supervision
  imports ChildProcess
begin

text \<open>
  cmd/guarddns/process.go, \<^verbatim>\<open>superviseChild\<close> step by step: one step per system call, channel
  operation or update of the shared state.  The clock, the context and the set of live processes
  change between the steps.  The theory shows that every such execution is one of the scripts of
  ChildProcess, with the clock readings of the execution (so what is proved there of all scripts holds
  of all executions), that scheduled restarts are followed by their pauses, that the
  exported flag follows the process, and that a supervisor returns soon after the context is done.
\<close>

section \<open>The machine\<close>

text \<open>
  Where a supervisor is: at the head of its loop; past the check of the context; after a failed
  start; after a start that is not yet in the shared state; waiting for the child; after its exit,
  before and after the state says so; after the termination signal and after the kill; after the
  child was reaped; before the restart is scheduled; in the pause; returned.
\<close>

datatype child_pc =
    AtHead
  | Starting
  | NotStarted goerr instant
  | Spawned int instant
  | Alive int instant
  | Gone int "goerr option" instant
  | GoneSeen int "goerr option" instant
  | Terminating int instant
  | Killing int
  | Reaped
  | Unscheduled instant
  | Pausing instant
  | Finished

record child_conf =
  ch_pc :: child_pc
  ch_step :: nat

text \<open>
  One step under a context, a clock and a set of live processes: what is done, the change of the
  child's component (if the shared state is updated), the live processes after it, and the new place.
  A started process gets a process number that is not in use.
\<close>

inductive child_step ::
  "bool \<Rightarrow> instant \<Rightarrow> int set \<Rightarrow> child_conf \<Rightarrow> child_act list \<Rightarrow> (component \<Rightarrow> component) option \<Rightarrow> int set \<Rightarrow> child_conf \<Rightarrow> bool"
  for ctx now live where
  head_done: "ctx \<Longrightarrow> child_step ctx now live \<lparr>ch_pc = AtHead, ch_step = n\<rparr> [] None live \<lparr>ch_pc = Finished, ch_step = n\<rparr>"
| head_on: "\<not> ctx \<Longrightarrow> child_step ctx now live \<lparr>ch_pc = AtHead, ch_step = n\<rparr> [] None live \<lparr>ch_pc = Starting, ch_step = n\<rparr>"
| start_fails: "child_step ctx now live \<lparr>ch_pc = Starting, ch_step = n\<rparr> [StartFailed e] None live
     \<lparr>ch_pc = NotStarted e now, ch_step = n\<rparr>"
| start_reported: "child_step ctx now live \<lparr>ch_pc = NotStarted e t, ch_step = n\<rparr> [] (Some mark_down) live
     \<lparr>ch_pc = Unscheduled t, ch_step = n\<rparr>"
| starts: "pid \<notin> live \<Longrightarrow> child_step ctx now live \<lparr>ch_pc = Starting, ch_step = n\<rparr> [Started pid] None (insert pid live)
     \<lparr>ch_pc = Spawned pid now, ch_step = n\<rparr>"
| running: "child_step ctx now live \<lparr>ch_pc = Spawned pid t, ch_step = n\<rparr> [] (Some mark_running) live
     \<lparr>ch_pc = Alive pid t, ch_step = n\<rparr>"
| exits: "pid \<notin> live \<Longrightarrow> child_step ctx now live \<lparr>ch_pc = Alive pid t, ch_step = n\<rparr> [] None live
     \<lparr>ch_pc = Gone pid err t, ch_step = n\<rparr>"
| exit_reported: "child_step ctx now live \<lparr>ch_pc = Gone pid err t, ch_step = n\<rparr> [] (Some mark_down) live
     \<lparr>ch_pc = GoneSeen pid err t, ch_step = n\<rparr>"
| exit_done: "ctx \<Longrightarrow> child_step ctx now live \<lparr>ch_pc = GoneSeen pid err t, ch_step = n\<rparr> [] None live
     \<lparr>ch_pc = Finished, ch_step = n\<rparr>"
| exit_on: "\<not> ctx \<Longrightarrow> child_step ctx now live \<lparr>ch_pc = GoneSeen pid err t, ch_step = n\<rparr> [ExitedWith err] None live
     \<lparr>ch_pc = Unscheduled t, ch_step = n\<rparr>"
| cancelled: "ctx \<Longrightarrow> child_step ctx now live \<lparr>ch_pc = Alive pid t, ch_step = n\<rparr> (signals (terminateProcess (Some pid))) None live
     \<lparr>ch_pc = Terminating pid now, ch_step = n\<rparr>"
| stops: "pid \<notin> live \<Longrightarrow> child_step ctx now live \<lparr>ch_pc = Terminating pid t, ch_step = n\<rparr> [] None live
     \<lparr>ch_pc = Reaped, ch_step = n\<rparr>"
| grace_over: "t + shutdownGrace \<le> now \<Longrightarrow> child_step ctx now live \<lparr>ch_pc = Terminating pid t, ch_step = n\<rparr>
     (signals (killProcess (Some pid))) None live \<lparr>ch_pc = Killing pid, ch_step = n\<rparr>"
| killed: "pid \<notin> live \<Longrightarrow> child_step ctx now live \<lparr>ch_pc = Killing pid, ch_step = n\<rparr> [] None live
     \<lparr>ch_pc = Reaped, ch_step = n\<rparr>"
| reaped: "child_step ctx now live \<lparr>ch_pc = Reaped, ch_step = n\<rparr> [] (Some mark_down) live \<lparr>ch_pc = Finished, ch_step = n\<rparr>"
| schedules: "n' = Suc (if stableRuntime \<le> time_sub now t then 0 else n) \<Longrightarrow> delay = restartDelay seed n' \<Longrightarrow>
     now + delay \<le> until \<Longrightarrow>
     child_step ctx now live \<lparr>ch_pc = Unscheduled t, ch_step = n\<rparr> [RestartIn delay] (Some (mark_restart delay)) live
       \<lparr>ch_pc = Pausing until, ch_step = n'\<rparr>"
| pause_done: "ctx \<Longrightarrow> child_step ctx now live \<lparr>ch_pc = Pausing until, ch_step = n\<rparr> [] None live \<lparr>ch_pc = Finished, ch_step = n\<rparr>"
| pause_over: "until \<le> now \<Longrightarrow> child_step ctx now live \<lparr>ch_pc = Pausing until, ch_step = n\<rparr> [] None live
     \<lparr>ch_pc = AtHead, ch_step = n\<rparr>"

definition apply_change :: "(component \<Rightarrow> component) option \<Rightarrow> component \<Rightarrow> component" where
  "apply_change change k = (case change of None \<Rightarrow> k | Some f \<Rightarrow> f k)"

lemma apply_change_simps [simp]: "apply_change None k = k" "apply_change (Some f) k = f k"
  by (simp_all add: apply_change_def)

section \<open>Executions of one supervisor\<close>

text \<open>Its own view: the surroundings, its place, its component, and a log of what it has done and
  when.  Between its steps the clock runs, the context may become done and processes come and go.\<close>

type_synonym child_log = "(instant \<times> child_act) list"

record child_view =
  cv_ctx :: bool
  cv_now :: instant
  cv_live :: "int set"
  cv_conf :: child_conf
  cv_comp :: component
  cv_log :: child_log

inductive child_move :: "child_view \<Rightarrow> child_view \<Rightarrow> bool" where
  own: "child_step (cv_ctx v) (cv_now v) (cv_live v) (cv_conf v) acts change live' conf' \<Longrightarrow>
     child_move v (v\<lparr>cv_live := live', cv_conf := conf', cv_comp := apply_change change (cv_comp v),
       cv_log := cv_log v @ map (Pair (cv_now v)) acts\<rparr>)"
| around: "(cv_ctx v \<longrightarrow> ctx') \<Longrightarrow> cv_now v \<le> now' \<Longrightarrow>
     child_move v (v\<lparr>cv_ctx := ctx', cv_now := now', cv_live := live'\<rparr>)"

definition child_begin :: "instant \<Rightarrow> int set \<Rightarrow> component \<Rightarrow> child_view" where
  "child_begin now live k = \<lparr>cv_ctx = False, cv_now = now, cv_live = live,
     cv_conf = \<lparr>ch_pc = AtHead, ch_step = 0\<rparr>, cv_comp = k, cv_log = []\<rparr>"

section \<open>Executions are scripts\<close>

lemma superviseChild_snoc:
  assumes "superviseChild spec its n s = (n0, s0, acts0, True)"
  shows "superviseChild spec (its @ [it]) n s
    = (case child_iteration spec it n0 s0 of (n1, s1, acts1, goes) \<Rightarrow> (n1, s1, acts0 @ acts1, goes))"
  using assms
proof (induction its arbitrary: n s acts0)
  case Nil
  then show ?case by (auto split: prod.splits bool.splits)
next
  case (Cons i its)
  from Cons.prems show ?case
  proof (cases rule: superviseChild_step)
    case (continues step1 s1 acts1 acts2)
    then show ?thesis using Cons.IH [OF continues(2)] by (simp split: prod.splits)
  qed simp
qed

text \<open>
  What a log says about the iterations: when each attempt to start the child was made and when each
  restart was scheduled.  The readings that \<^verbatim>\<open>superviseChild\<close> bases its decisions on.
\<close>

definition start_times :: "child_log \<Rightarrow> instant list" where
  "start_times tr = concat (map (\<lambda>(t, a). case a of Started pid \<Rightarrow> [t] | StartFailed e \<Rightarrow> [t] | _ \<Rightarrow> []) tr)"

definition restart_times :: "child_log \<Rightarrow> instant list" where
  "restart_times tr = concat (map (\<lambda>(t, a). case a of RestartIn d \<Rightarrow> [t] | _ \<Rightarrow> []) tr)"

lemma log_times_simps [simp]:
  "start_times [] = []" "start_times (x @ y) = start_times x @ start_times y"
  "start_times ((t, a) # tr) = (case a of Started pid \<Rightarrow> [t] | StartFailed e \<Rightarrow> [t] | _ \<Rightarrow> []) @ start_times tr"
  "restart_times [] = []" "restart_times (x @ y) = restart_times x @ restart_times y"
  "restart_times ((t, a) # tr) = (case a of RestartIn d \<Rightarrow> [t] | _ \<Rightarrow> []) @ restart_times tr"
  by (simp_all add: start_times_def restart_times_def)

lemma signals_pid [simp]:
  "signals (terminateProcess (Some pid)) = [Signalled (- pid) SIGTERM]"
  "signals (killProcess (Some pid)) = [Signalled (- pid) SIGKILL]"
  by (simp_all add: signals_def terminateProcess_def killProcess_def)

text \<open>The iterations of a script that try a start, and those that schedule a restart.\<close>

definition tries :: "child_iter \<Rightarrow> bool" where
  "tries it \<longleftrightarrow> \<not> ci_ctx it"

definition reschedules :: "child_iter \<Rightarrow> bool" where
  "reschedules it \<longleftrightarrow> \<not> ci_ctx it \<and>
     (case ci_start it of Inl e \<Rightarrow> True | Inr pid \<Rightarrow> (case ci_end it of Exited err done \<Rightarrow> \<not> done | Shutdown d \<Rightarrow> False))"

text \<open>A script fits a log: it does what the log says, its iterations start when the log says that the
  child was started, and they look at the clock when the log says that a restart was scheduled.\<close>

definition fits :: "child_iter list \<Rightarrow> child_log \<Rightarrow> bool" where
  "fits its tr \<longleftrightarrow> start_times tr = map ci_startedAt (filter tries its)
     \<and> restart_times tr = map ci_checked (filter reschedules its)"

definition scripted :: "childSpec \<Rightarrow> runtimeState \<Rightarrow> nat \<Rightarrow> component \<Rightarrow> child_log \<Rightarrow> bool \<Rightarrow> bool" where
  "scripted spec s n k tr runs \<longleftrightarrow>
     (\<exists>its s'. superviseChild spec its 0 s = (n, s', map snd tr, runs) \<and> comp_of (cs_name spec) s' = k \<and> fits its tr)"

lemma scripted_iteration:
  assumes "scripted spec s n k tr True"
    and "\<And>s0. comp_of (cs_name spec) s0 = k \<Longrightarrow>
      \<exists>s1. child_iteration spec it n s0 = (n1, s1, map snd log1, goes) \<and> comp_of (cs_name spec) s1 = k1"
    and "start_times log1 = (if tries it then [ci_startedAt it] else [])"
    and "restart_times log1 = (if reschedules it then [ci_checked it] else [])"
  shows "scripted spec s n1 k1 (tr @ log1) goes"
proof -
  obtain its s0 where r: "superviseChild spec its 0 s = (n, s0, map snd tr, True)" "comp_of (cs_name spec) s0 = k" "fits its tr"
    using assms(1) by (auto simp: scripted_def)
  obtain s1 where "child_iteration spec it n s0 = (n1, s1, map snd log1, goes)" "comp_of (cs_name spec) s1 = k1"
    using assms(2) [OF r(2)] by blast
  with superviseChild_snoc [OF r(1), of it]
  have "superviseChild spec (its @ [it]) 0 s = (n1, s1, map snd (tr @ log1), goes)" "comp_of (cs_name spec) s1 = k1" by simp_all
  moreover have "fits (its @ [it]) (tr @ log1)" using r(3) assms(3,4) by (simp add: fits_def)
  ultimately show ?thesis unfolding scripted_def by blast
qed

text \<open>What holds at each place: the iterations completed so far are a script, and the rest of the
  log and of the component's changes belong to the iteration under way.\<close>

fun traced_at :: "childSpec \<Rightarrow> runtimeState \<Rightarrow> nat \<Rightarrow> component \<Rightarrow> child_log \<Rightarrow> child_pc \<Rightarrow> bool" where
  "traced_at spec s n k tr AtHead \<longleftrightarrow> scripted spec s n k tr True"
| "traced_at spec s n k tr Starting \<longleftrightarrow> scripted spec s n k tr True"
| "traced_at spec s n k tr (NotStarted e t) \<longleftrightarrow>
     (\<exists>log0. tr = log0 @ [(t, StartFailed e)] \<and> scripted spec s n k log0 True)"
| "traced_at spec s n k tr (Spawned pid t) \<longleftrightarrow>
     (\<exists>log0. tr = log0 @ [(t, Started pid)] \<and> scripted spec s n k log0 True)"
| "traced_at spec s n k tr (Alive pid t) \<longleftrightarrow>
     (\<exists>log0 k0. tr = log0 @ [(t, Started pid)] \<and> k = mark_running k0 \<and> scripted spec s n k0 log0 True)"
| "traced_at spec s n k tr (Gone pid err t) \<longleftrightarrow>
     (\<exists>log0 k0. tr = log0 @ [(t, Started pid)] \<and> k = mark_running k0 \<and> scripted spec s n k0 log0 True)"
| "traced_at spec s n k tr (GoneSeen pid err t) \<longleftrightarrow>
     (\<exists>log0 k0. tr = log0 @ [(t, Started pid)] \<and> k = mark_down (mark_running k0) \<and> scripted spec s n k0 log0 True)"
| "traced_at spec s n k tr (Terminating pid t) \<longleftrightarrow>
     (\<exists>log0 k0 t0 t1. tr = log0 @ [(t0, Started pid), (t1, Signalled (- pid) SIGTERM)]
        \<and> k = mark_running k0 \<and> scripted spec s n k0 log0 True)"
| "traced_at spec s n k tr (Killing pid) \<longleftrightarrow>
     (\<exists>log0 k0 t0 t1 t2. tr = log0 @ [(t0, Started pid), (t1, Signalled (- pid) SIGTERM), (t2, Signalled (- pid) SIGKILL)]
        \<and> k = mark_running k0 \<and> scripted spec s n k0 log0 True)"
| "traced_at spec s n k tr Reaped \<longleftrightarrow> scripted spec s n (mark_down k) tr False"
| "traced_at spec s n k tr (Unscheduled t) \<longleftrightarrow>
     (\<forall>now seed n' runs. n' = Suc (if stableRuntime \<le> time_sub now t then 0 else n) \<longrightarrow>
        scripted spec s n' (mark_restart (restartDelay seed n') k) (tr @ [(now, RestartIn (restartDelay seed n'))]) runs)"
| "traced_at spec s n k tr (Pausing until) \<longleftrightarrow> (\<forall>runs. scripted spec s n k tr runs)"
| "traced_at spec s n k tr Finished \<longleftrightarrow> scripted spec s n k tr False"

definition traced :: "childSpec \<Rightarrow> runtimeState \<Rightarrow> child_view \<Rightarrow> bool" where
  "traced spec s v \<longleftrightarrow> traced_at spec s (ch_step (cv_conf v)) (cv_comp v) (cv_log v) (ch_pc (cv_conf v))"

definition iter :: "instant \<Rightarrow> goerr + int \<Rightarrow> child_end \<Rightarrow> instant \<Rightarrow> nat \<Rightarrow> bool \<Rightarrow> child_iter" where
  "iter t started ended now seed ctx = \<lparr>ci_ctx = False, ci_startedAt = t, ci_start = started, ci_end = ended,
     ci_checked = now, ci_seed = seed, ci_delay_ctx = ctx\<rparr>"

lemmas iter_defs = child_iteration_def schedule_restart_def iter_def Let_def tries_def reschedules_def

text \<open>The ways an iteration ends, as extensions of a script.\<close>

lemma script_stops_at_head: "scripted spec s n k tr True \<Longrightarrow> scripted spec s n k tr False"
  using scripted_iteration [of spec s n k tr "(iter t st en now seed ctx)\<lparr>ci_ctx := True\<rparr>" n "[]" False k]
  by (simp add: child_iteration_def tries_def reschedules_def)

lemma script_start_fails:
  assumes "scripted spec s n k tr True"
  shows "traced_at spec s n (mark_down k) (tr @ [(t, StartFailed e)]) (Unscheduled t)"
  unfolding traced_at.simps append_assoc
  by (intro allI impI, rule scripted_iteration [OF assms, of "iter t (Inl e) (Exited None False) now seed (\<not> runs)" for now seed runs])
    (auto simp: iter_defs)

lemma script_exits:
  assumes "scripted spec s n k tr True"
  shows "traced_at spec s n (mark_down (mark_running k)) (tr @ [(t, Started pid), (t1, ExitedWith err)]) (Unscheduled t)"
  unfolding traced_at.simps append_assoc
  by (intro allI impI, rule scripted_iteration [OF assms, of "iter t (Inr pid) (Exited err False) now seed (\<not> runs)" for now seed runs])
    (auto simp: iter_defs)

lemma script_exits_done:
  assumes "scripted spec s n k tr True"
  shows "scripted spec s n (mark_down (mark_running k)) (tr @ [(t, Started pid)]) False"
  by (rule scripted_iteration [OF assms, of "iter t (Inr pid) (Exited err True) now seed ctx" for err now seed ctx])
    (auto simp: iter_defs)

lemma script_terminated:
  assumes "scripted spec s n k tr True"
  shows "scripted spec s n (mark_down (mark_running k)) (tr @ [(t, Started pid), (t1, Signalled (- pid) SIGTERM)]) False"
  by (rule scripted_iteration [OF assms, of "iter t (Inr pid) (Shutdown (Some 0)) now seed ctx" for now seed ctx])
    (auto simp: iter_defs shutdownGrace_def second_def)

lemma script_killed:
  assumes "scripted spec s n k tr True"
  shows "scripted spec s n (mark_down (mark_running k))
    (tr @ [(t, Started pid), (t1, Signalled (- pid) SIGTERM), (t2, Signalled (- pid) SIGKILL)]) False"
  by (rule scripted_iteration [OF assms, of "iter t (Inr pid) (Shutdown None) now seed ctx" for now seed ctx])
    (auto simp: iter_defs)

lemma traced_own:
  assumes "child_step ctx now live conf acts change live' conf'"
    and "traced_at spec s (ch_step conf) k tr (ch_pc conf)"
  shows "traced_at spec s (ch_step conf') (apply_change change k) (tr @ map (Pair now) acts) (ch_pc conf')"
  using assms
proof (induction rule: child_step.induct)
  case (start_reported e t n)
  then show ?case by (auto simp del: traced_at.simps(11) intro: script_start_fails)
next
  case (exit_on pid err t n)
  then show ?case by (auto simp del: traced_at.simps(11) intro: script_exits)
next
  case (exit_done pid err t n)
  then show ?case using script_exits_done by fastforce
next
  case (stops pid t n)
  then show ?case using script_terminated by fastforce
next
  case (killed pid n)
  then show ?case using script_killed by fastforce
next
  case (schedules n' t n delay seed until)
  then have "scripted spec s n' (mark_restart delay k) (tr @ [(now, RestartIn delay)]) runs" for runs by simp
  then show ?case by auto
qed (auto intro: script_stops_at_head)

lemma traced_move: "child_move v v' \<Longrightarrow> traced spec s v \<Longrightarrow> traced spec s v'"
  by (induction rule: child_move.induct) (auto simp: traced_def dest: traced_own)

section \<open>The pace of restarts\<close>

text \<open>From one entry of the log to the next the clock does not go back, and after a scheduled restart
  at least its delay has passed.\<close>

definition spaced :: "instant \<times> child_act \<Rightarrow> instant \<times> child_act \<Rightarrow> bool" where
  "spaced = (\<lambda>(t, a) (t', a'). t \<le> t' \<and> (\<forall>d. a = RestartIn d \<longrightarrow> t + d \<le> t'))"

text \<open>An entry may be added at an instant.\<close>

definition due :: "child_log \<Rightarrow> instant \<Rightarrow> bool" where
  "due tr now \<longleftrightarrow> (tr \<noteq> [] \<longrightarrow> (case last tr of (t, a) \<Rightarrow> t \<le> now \<and> (\<forall>d. a = RestartIn d \<longrightarrow> t + d \<le> now)))"

definition paced :: "child_log \<Rightarrow> instant \<Rightarrow> child_pc \<Rightarrow> bool" where
  "paced tr now pc \<longleftrightarrow> successively spaced tr \<and>
     (case pc of Finished \<Rightarrow> True | Pausing until \<Rightarrow> (\<forall>t. until \<le> t \<and> now \<le> t \<longrightarrow> due tr t) | _ \<Rightarrow> due tr now)"

lemma due_mono: "due tr now \<Longrightarrow> now \<le> now' \<Longrightarrow> due tr now'"
  by (force simp: due_def)

lemma successively_snoc: "successively spaced tr \<Longrightarrow> due tr now \<Longrightarrow> successively spaced (tr @ [(now, a)])"
  by (auto simp: successively_append_iff due_def spaced_def split: prod.splits)

lemma due_snoc: "(\<And>d. a \<noteq> RestartIn d) \<Longrightarrow> due (tr @ [(now, a)]) now"
  by (simp add: due_def)

lemma paced_own:
  assumes "child_step ctx now live conf acts change live' conf'" "paced tr now (ch_pc conf)"
  shows "paced (tr @ map (Pair now) acts) now (ch_pc conf')"
  using assms
  by (induction rule: child_step.induct) (auto simp: paced_def successively_snoc due_snoc, auto simp: due_def)

lemma paced_later: "paced tr now pc \<Longrightarrow> now \<le> now' \<Longrightarrow> paced tr now' pc"
  by (auto simp: paced_def due_mono split: child_pc.splits)

lemma paced_begin:
  "paced (cv_log (child_begin now live k)) (cv_now (child_begin now live k)) (ch_pc (cv_conf (child_begin now live k)))"
  by (simp add: child_begin_def paced_def due_def)

lemma paced_move: "child_move v v' \<Longrightarrow> paced (cv_log v) (cv_now v) (ch_pc (cv_conf v))
    \<Longrightarrow> paced (cv_log v') (cv_now v') (ch_pc (cv_conf v'))"
  by (induction rule: child_move.induct) (auto intro: paced_own paced_later)

section \<open>Process, exported flag and shutdown\<close>

text \<open>The process a supervisor has started and not yet waited for.\<close>

fun process_of :: "child_pc \<Rightarrow> int option" where
  "process_of (Spawned pid t) = Some pid"
| "process_of (Alive pid t) = Some pid"
| "process_of (Terminating pid t) = Some pid"
| "process_of (Killing pid) = Some pid"
| "process_of _ = None"

text \<open>The places where the shared state says that the child is up.\<close>

fun reported_up :: "child_pc \<Rightarrow> bool" where
  "reported_up (Alive pid t) = True"
| "reported_up (Gone pid err t) = True"
| "reported_up (Terminating pid t) = True"
| "reported_up (Killing pid) = True"
| "reported_up Reaped = True"
| "reported_up _ = False"

lemma child_step_up:
  assumes "child_step ctx now live conf acts change live' conf'" "k_up k \<longleftrightarrow> reported_up (ch_pc conf)"
  shows "k_up (apply_change change k) \<longleftrightarrow> reported_up (ch_pc conf')"
  using assms by (induction rule: child_step.induct) (auto simp: mark_defs)

lemma child_step_enabled:
  assumes "child_step ctx now live conf acts change live' conf'"
  shows "k_enabled (apply_change change k) = k_enabled k"
  using assms by (induction rule: child_step.induct) (auto simp: mark_defs)

text \<open>The one way processes change: a start adds a new one.  A process is given up only when it is
  not live any more.\<close>

lemma child_step_process:
  assumes "child_step ctx now live conf acts change live' conf'"
  obtains (same) "live' = live" "process_of (ch_pc conf') = process_of (ch_pc conf)" "\<forall>pid. Started pid \<notin> set acts"
  | (born) pid where "acts = [Started pid]" "pid \<notin> live" "live' = insert pid live" "process_of (ch_pc conf) = None"
      "process_of (ch_pc conf') = Some pid"
  | (reaped) pid where "live' = live" "process_of (ch_pc conf) = Some pid" "pid \<notin> live" "process_of (ch_pc conf') = None"
      "\<forall>pid. Started pid \<notin> set acts"
  using assms by cases (auto simp: signals_def terminateProcess_def killProcess_def)

text \<open>Once the context is done every step of a supervisor brings it closer to its return.\<close>

fun rank :: "child_pc \<Rightarrow> nat" where
  "rank Finished = 0"
| "rank AtHead = 1"
| "rank (Pausing until) = 2"
| "rank (Unscheduled t) = 3"
| "rank (NotStarted e t) = 4"
| "rank Reaped = 1"
| "rank (Killing pid) = 2"
| "rank (Terminating pid t) = 3"
| "rank (GoneSeen pid err t) = 1"
| "rank (Gone pid err t) = 2"
| "rank (Alive pid t) = 4"
| "rank (Spawned pid t) = 5"
| "rank Starting = 6"

lemma rank_le: "rank pc \<le> 6"
  by (cases pc) simp_all

lemma rank_0_iff [simp]: "rank pc = 0 \<longleftrightarrow> pc = Finished"
  by (cases pc) simp_all

lemma child_step_rank: "child_step True now live conf acts change live' conf' \<Longrightarrow> rank (ch_pc conf') < rank (ch_pc conf)"
  by (induction rule: child_step.induct) simp_all

lemma child_step_progress:
  assumes "ch_pc conf \<noteq> Finished" "\<forall>pid. process_of (ch_pc conf) = Some pid \<longrightarrow> pid \<notin> live"
  shows "\<exists>acts change live' conf'. child_step True now live conf acts change live' conf' \<and> (\<forall>pid. Started pid \<notin> set acts)"
proof -
  obtain pc n where conf: "conf = \<lparr>ch_pc = pc, ch_step = n\<rparr>" by (cases conf)
  show ?thesis
  proof (cases pc)
    case (Unscheduled t)
    define n' where "n' = Suc (if stableRuntime \<le> time_sub now t then 0 else n)"
    have "child_step True now live \<lparr>ch_pc = Unscheduled t, ch_step = n\<rparr> [RestartIn (restartDelay 0 n')]
      (Some (mark_restart (restartDelay 0 n'))) live \<lparr>ch_pc = Pausing (now + restartDelay 0 n'), ch_step = n'\<rparr>"
      by (rule schedules [of n' now t n]) (simp_all add: n'_def)
    then show ?thesis unfolding conf Unscheduled by force
  next
    case (Alive pid t)
    have "child_step True now live \<lparr>ch_pc = Alive pid t, ch_step = n\<rparr> [] None live \<lparr>ch_pc = Gone pid None t, ch_step = n\<rparr>"
      by (rule exits) (use assms conf Alive in simp)
    then show ?thesis unfolding conf Alive by force
  qed (use assms conf in \<open>force intro: child_step.intros\<close>)+
qed

text \<open>
  Stepwise supervision refines the loop over scripts: however its steps interleave with
  the clock, the context and the operating system, at the head of its loop and after it returned a
  supervisor has done, counted and exported exactly what \<^verbatim>\<open>superviseChild\<close> gives for a
  script of iterations with the clock readings of its tr, and the tr keeps the pauses.
\<close>

lemma execution_scripted:
  assumes "child_move\<^sup>*\<^sup>* (child_begin now live (comp_of (cs_name spec) s)) v" "ch_pc (cv_conf v) \<in> {AtHead, Finished}"
  shows "(\<exists>its s'. superviseChild spec its 0 s = (ch_step (cv_conf v), s', map snd (cv_log v), ch_pc (cv_conf v) = AtHead)
    \<and> comp_of (cs_name spec) s' = cv_comp v \<and> fits its (cv_log v)) \<and> successively spaced (cv_log v)"
proof -
  have "scripted spec s 0 (comp_of (cs_name spec) s) [] True"
    unfolding scripted_def by (intro exI [of _ "[]"]) (simp add: fits_def)
  then have "traced spec s (child_begin now live (comp_of (cs_name spec) s))"
    by (simp add: traced_def child_begin_def)
  with assms(1) have "traced spec s v" by (induction rule: rtranclp_induct) (auto intro: traced_move)
  moreover have "paced (cv_log v) (cv_now v) (ch_pc (cv_conf v))"
    using assms(1) paced_begin [of now live "comp_of (cs_name spec) s"]
    by (induction rule: rtranclp_induct) (auto intro: paced_move)
  ultimately show ?thesis using assms(2) by (auto simp: traced_def scripted_def paced_def)
qed

text \<open>A child that cannot be started, up to the head of the second iteration.\<close>

definition sample_spec :: childSpec where
  "sample_spec = \<lparr>cs_name = ''mosdns'', cs_path = [], cs_args = [], cs_suppressStartupInfo = False\<rparr>"

lemma own_step:
  assumes "child_step ctx now live conf acts change live' conf'"
  shows "child_move \<lparr>cv_ctx = ctx, cv_now = now, cv_live = live, cv_conf = conf, cv_comp = k, cv_log = tr\<rparr>
    \<lparr>cv_ctx = ctx, cv_now = now, cv_live = live', cv_conf = conf', cv_comp = apply_change change k,
     cv_log = tr @ map (Pair now) acts\<rparr>"
  using own [of "\<lparr>cv_ctx = ctx, cv_now = now, cv_live = live, cv_conf = conf, cv_comp = k, cv_log = tr\<rparr>"] assms by simp

end
