(* ===== verification/GuardSystem.thy ===== *)
theory GuardSystem
  imports GuardMain Supervision
begin

text \<open>
  The running system (cmd/guarddns/main.go after its early exits, with the processes it starts): the
  supervisors of the children, the bridge and the providers update one shared state, the send loop
  takes snapshots and, as a later step, posts them, and the status plugin inside the MosDNS process receives them.  One step of
  the relation is one step of one of these parties, of the operating system, or of the clock, so the
  lemmas hold for every interleaving.  They show that each
  supervisor does what its script says, that the exported flags follow the processes, that what the plugin knows was true at an earlier moment of the run, and that shutdown ends with no
  process left.
\<close>

section \<open>State and steps\<close>

record guard_sys =
  gs_now :: instant
  gs_ctx :: bool
  gs_live :: "int set"
  gs_state :: runtimeState
  gs_children :: "string \<rightharpoonup> child_conf"
  gs_bridge :: dohBridge
  gs_sending :: "string option"
  gs_queue :: "string list"
  gs_plugin :: "sup_plugin option"

text \<open>The process that supervises a child by that name, if it has one.\<close>

definition sys_process :: "(string \<rightharpoonup> child_conf) \<Rightarrow> string \<Rightarrow> int option" where
  "sys_process children name = (case children name of None \<Rightarrow> None | Some conf \<Rightarrow> process_of (ch_pc conf))"

definition new_child :: child_conf where
  "new_child = \<lparr>ch_pc = AtHead, ch_step = 0\<rparr>"

text \<open>When \<^verbatim>\<open>main\<close> has started the bridge and the two Unbound supervisors.\<close>

definition guard_start :: "instant \<Rightarrow> serving \<Rightarrow> guard_sys" where
  "guard_start now sv = \<lparr>gs_now = now, gs_ctx = False, gs_live = {}, gs_state = sv_state sv,
     gs_children = [''unbound'' \<mapsto> new_child, ''unbound_recursive'' \<mapsto> new_child],
     gs_bridge = sv_bridge sv, gs_sending = None, gs_queue = [], gs_plugin = None\<rparr>"

definition change_state :: "string \<Rightarrow> (component \<Rightarrow> component) option \<Rightarrow> runtimeState \<Rightarrow> runtimeState" where
  "change_state name change s = (case change of None \<Rightarrow> s | Some f \<Rightarrow> state_update name f s)"

text \<open>Whose step it was; a supervisor's step says what it did.\<close>

datatype party = Supervisor string "child_act list" | Main | Elsewhere

text \<open>
  The steps.  \<open>supervise\<close>: a supervisor moves; a process number is not reused before the process was
  waited for.  \<open>launch\<close>: \<^verbatim>\<open>main\<close> starts the supervisor of MosDNS.  \<open>signalled\<close>: a termination signal
  ends the context.  \<open>process_exits\<close>: a process ends; with MosDNS its plugin and its socket's queue are gone.
  \<open>bridged\<close>: a server of the bridge ends or the bridge sees the context done.  \<open>observed\<close>: an exchange
  records its observation.  \<open>snapped\<close>: the send loop takes and encodes a snapshot.  \<open>sent\<close>: it posts the
  datagram to a listening plugin.  \<open>unsent\<close>: it cannot.
  \<open>plugin_starts\<close>: the plugin is set up in a live MosDNS process.  \<open>received\<close>: it reads the next datagram.
\<close>

inductive guard_step ::
  "(snapshot \<Rightarrow> string option) \<Rightarrow> (string \<Rightarrow> snapshot option) \<Rightarrow> guard_sys \<Rightarrow> party \<Rightarrow> guard_sys \<Rightarrow> bool"
  for marshal unmarshal where
  supervise: "gs_children g name = Some conf \<Longrightarrow>
     child_step (gs_ctx g) (gs_now g) (gs_live g) conf acts change live' conf' \<Longrightarrow>
     \<forall>pid other. Started pid \<in> set acts \<longrightarrow> sys_process (gs_children g) other \<noteq> Some pid \<Longrightarrow>
     guard_step marshal unmarshal g (Supervisor name acts)
       (g\<lparr>gs_live := live', gs_children := (gs_children g)(name \<mapsto> conf'), gs_state := change_state name change (gs_state g)\<rparr>)"
| launch: "gs_children g ''mosdns'' = None \<Longrightarrow>
     guard_step marshal unmarshal g Main (g\<lparr>gs_children := (gs_children g)(''mosdns'' \<mapsto> new_child)\<rparr>)"
| signalled: "guard_step marshal unmarshal g Elsewhere (g\<lparr>gs_ctx := True\<rparr>)"
| ticks: "gs_now g \<le> t \<Longrightarrow> guard_step marshal unmarshal g Elsewhere (g\<lparr>gs_now := t\<rparr>)"
| process_exits: "pid \<in> gs_live g \<Longrightarrow> sys_process (gs_children g) ''mosdns'' \<noteq> Some pid \<Longrightarrow>
     guard_step marshal unmarshal g Elsewhere (g\<lparr>gs_live := gs_live g - {pid}\<rparr>)"
| mosdns_exits: "pid \<in> gs_live g \<Longrightarrow> sys_process (gs_children g) ''mosdns'' = Some pid \<Longrightarrow>
     guard_step marshal unmarshal g Elsewhere (g\<lparr>gs_live := gs_live g - {pid}, gs_plugin := None, gs_queue := []\<rparr>)"
| bridged: "(event = ContextDone \<and> gs_ctx g) \<or> (\<exists>err. event = ServeEnded err (gs_ctx g)) \<Longrightarrow>
     bridge_event_step event (gs_bridge g, gs_state g) = (b', s') \<Longrightarrow>
     guard_step marshal unmarshal g Elsewhere (g\<lparr>gs_bridge := b', gs_state := s'\<rparr>)"
| observed: "guard_step marshal unmarshal g Elsewhere
     (g\<lparr>gs_state := observeDoHUpstream tag result duration retryAt (gs_now g) (gs_state g)\<rparr>)"
| snapped: "gs_sending g = None \<Longrightarrow> sendState marshal True True True (gs_now g) (gs_state g) = Some payload \<Longrightarrow>
     guard_step marshal unmarshal g Elsewhere (g\<lparr>gs_sending := Some payload\<rparr>)"
| sent: "gs_sending g = Some payload \<Longrightarrow> gs_plugin g \<noteq> None \<Longrightarrow>
     guard_step marshal unmarshal g Elsewhere (g\<lparr>gs_sending := None, gs_queue := gs_queue g @ [payload]\<rparr>)"
| unsent: "guard_step marshal unmarshal g Elsewhere (g\<lparr>gs_sending := None\<rparr>)"
| plugin_starts: "sys_process (gs_children g) ''mosdns'' = Some pid \<Longrightarrow> pid \<in> gs_live g \<Longrightarrow> sup_initPlugin io socket = (Inr p, True) \<Longrightarrow>
     guard_step marshal unmarshal g Elsewhere (g\<lparr>gs_plugin := Some p, gs_queue := []\<rparr>)"
| received: "gs_plugin g = Some p \<Longrightarrow> gs_queue g = payload # rest \<Longrightarrow>
     guard_step marshal unmarshal g Elsewhere
       (g\<lparr>gs_plugin := Some (receive unmarshal (gs_now g) payload p), gs_queue := rest\<rparr>)"

inductive_cases supervisor_stepE: "guard_step marshal unmarshal g (Supervisor name acts) g'"
inductive_cases main_stepE: "guard_step marshal unmarshal g Main g'"

text \<open>Runs with their traces: when which party moved.\<close>

inductive guard_run ::
  "(snapshot \<Rightarrow> string option) \<Rightarrow> (string \<Rightarrow> snapshot option) \<Rightarrow> guard_sys \<Rightarrow> (instant \<times> party) list \<Rightarrow> guard_sys \<Rightarrow> bool"
  for marshal unmarshal g where
  run_here: "guard_run marshal unmarshal g [] g"
| run_step: "guard_run marshal unmarshal g ps g1 \<Longrightarrow> guard_step marshal unmarshal g1 who g2 \<Longrightarrow>
     guard_run marshal unmarshal g (ps @ [(gs_now g1, who)]) g2"

text \<open>What the supervisor of one child did in a run, and when.\<close>

definition supervisor_log :: "string \<Rightarrow> (instant \<times> party) list \<Rightarrow> child_log" where
  "supervisor_log name ps = concat (map (\<lambda>(t, who). case who of
     Supervisor other acts \<Rightarrow> if other = name then map (Pair t) acts else [] | _ \<Rightarrow> []) ps)"

lemma supervisor_log_simps [simp]:
  "supervisor_log name [] = []" "supervisor_log name (ps @ qs) = supervisor_log name ps @ supervisor_log name qs"
  "supervisor_log name [(t, who)] = (case who of
     Supervisor other acts \<Rightarrow> if other = name then map (Pair t) acts else [] | _ \<Rightarrow> [])"
  by (simp_all add: supervisor_log_def)

lemma guard_run_trans:
  "guard_run m u g2 qs g3 \<Longrightarrow> guard_run m u g1 ps g2 \<Longrightarrow> guard_run m u g1 (ps @ qs) g3"
  by (induction rule: guard_run.induct) (auto simp flip: append_assoc intro: guard_run.intros)

lemma guard_run_one: "guard_step m u g who g' \<Longrightarrow> guard_run m u g [(gs_now g, who)] g'"
  using run_step [OF run_here] by fastforce

text \<open>A property that every step keeps holds after every run.\<close>

lemma guard_run_invariant:
  assumes "guard_run m u g ps g'" "P g" "\<And>g1 who g2. guard_step m u g1 who g2 \<Longrightarrow> P g1 \<Longrightarrow> P g2"
  shows "P g'"
  using assms by (induction rule: guard_run.induct) auto

section \<open>Well-formed states\<close>

definition child_names :: "string set" where
  "child_names = {''unbound'', ''unbound_recursive'', ''mosdns''}"

text \<open>
  The shared state knows exactly the four components, all enabled; a child is exported as up exactly
  when its supervisor has reported its start and not its end; and every live process belongs to the
  supervisor that started it, and to one only.
\<close>

definition flags_ok :: "runtimeState \<Rightarrow> (string \<rightharpoonup> child_conf) \<Rightarrow> bool" where
  "flags_ok s children \<longleftrightarrow>
     dom (rs_components s) = insert ''doh_bridge'' child_names
     \<and> (\<forall>name\<in>insert ''doh_bridge'' child_names. k_enabled (comp_of name s))
     \<and> dom children \<subseteq> child_names \<and> child_names - {''mosdns''} \<subseteq> dom children
     \<and> (\<forall>name\<in>child_names. k_up (comp_of name s) \<longleftrightarrow>
          (\<exists>conf. children name = Some conf \<and> reported_up (ch_pc conf)))"

definition procs_ok :: "int set \<Rightarrow> (string \<rightharpoonup> child_conf) \<Rightarrow> bool" where
  "procs_ok live children \<longleftrightarrow>
     (\<forall>pid\<in>live. \<exists>name. sys_process children name = Some pid)
     \<and> (\<forall>a b pid. sys_process children a = Some pid \<longrightarrow> sys_process children b = Some pid \<longrightarrow> a = b)"

lemma sys_process_upd [simp]:
  "sys_process (children(name \<mapsto> conf)) other = (if other = name then process_of (ch_pc conf) else sys_process children other)"
  by (simp add: sys_process_def)

lemma sys_process_Some: "children name = Some conf \<Longrightarrow> sys_process children name = process_of (ch_pc conf)"
  by (simp add: sys_process_def)

lemma change_state_comp [simp]:
  "comp_of other (change_state name change s)
     = (if other = name then apply_change change (comp_of name s) else comp_of other s)"
  by (auto simp: change_state_def split: option.splits)

lemma change_state_dom:
  "name \<in> dom (rs_components s) \<Longrightarrow> dom (rs_components (change_state name change s)) = dom (rs_components s)"
  by (auto simp: change_state_def state_update_def split: option.splits)

lemma bridge_event_state:
  assumes "bridge_event_step event (b, s) = (b', s')"
  shows "s' = s \<or> s' = state_update ''doh_bridge'' (set_up False) s"
  using assms by (cases event) (auto split: if_splits)

lemma flags_ok_up: "flags_ok s children \<Longrightarrow> children name = Some conf \<Longrightarrow> k_up (comp_of name s) \<longleftrightarrow> reported_up (ch_pc conf)"
  unfolding flags_ok_def by (metis domI option.inject subsetD)

lemma flags_ok_enabled: "flags_ok s children \<Longrightarrow> name \<in> dom (rs_components s) \<Longrightarrow> k_enabled (comp_of name s)"
  unfolding flags_ok_def by (elim conjE) (simp only:)

lemma flags_ok_supervise:
  assumes "flags_ok s children" "children name = Some conf" "child_step ctx now live conf acts change live' conf'"
  shows "flags_ok (change_state name change s) (children(name \<mapsto> conf'))"
proof -
  have n: "name \<in> child_names" using assms(1,2) unfolding flags_ok_def by blast
  then have "name \<in> dom (rs_components s)" using assms(1) unfolding flags_ok_def by simp
  note d = change_state_dom [OF this] and up = child_step_up [OF assms(3) flags_ok_up [OF assms(1,2)]]
    and en = child_step_enabled [OF assms(3)]
  show ?thesis
    using assms(1) n unfolding flags_ok_def d by (simp add: up en insert_absorb subset_insertI2)
qed

text \<open>An update of the state that keeps the known components and the children's entries.\<close>

lemma flags_ok_state:
  assumes "flags_ok s children" "dom (rs_components s') = dom (rs_components s)"
    and "\<And>name. k_enabled (comp_of name s') = k_enabled (comp_of name s)"
    and "\<And>name. name \<in> child_names \<Longrightarrow> comp_of name s' = comp_of name s"
  shows "flags_ok s' children"
  using assms by (simp add: flags_ok_def)

lemma flags_ok_step:
  assumes "guard_step m u g who g'" "flags_ok (gs_state g) (gs_children g)"
  shows "flags_ok (gs_state g') (gs_children g')"
  using assms(1)
proof cases
  case (supervise name conf acts change live' conf')
  with flags_ok_supervise [OF assms(2)] show ?thesis by simp
next
  case launch
  then show ?thesis using assms(2) by (simp add: flags_ok_def new_child_def child_names_def subset_insertI2)
next
  case (bridged event b' s')
  have "flags_ok s' (gs_children g)"
  proof (rule flags_ok_state [OF assms(2)])
    show "dom (rs_components s') = dom (rs_components (gs_state g))"
      using bridge_event_state [OF bridged(4)] assms(2) by (auto simp: flags_ok_def state_update_def)
  qed (use bridge_event_state [OF bridged(4)] in \<open>auto simp: set_up_def child_names_def split: if_splits\<close>)
  then show ?thesis using bridged by simp
next
  case (observed tag result duration retryAt)
  have "flags_ok (observeDoHUpstream tag result duration retryAt (gs_now g) (gs_state g)) (gs_children g)"
    by (rule flags_ok_state [OF assms(2)]) (simp_all, simp add: observe_is_update stats_update_def)
  then show ?thesis using observed by simp
qed (use assms(2) in simp_all)

lemma procs_ok_owner: "procs_ok live children \<Longrightarrow> pid \<in> live \<Longrightarrow> \<exists>name. sys_process children name = Some pid"
  by (simp add: procs_ok_def)

lemma procs_ok_unique: "procs_ok live children \<Longrightarrow> pid \<in> live \<Longrightarrow> \<exists>!name. sys_process children name = Some pid"
  unfolding procs_ok_def by blast

lemma procs_ok_supervise:
  assumes "procs_ok live children" "children name = Some conf" "child_step ctx now live conf acts change live' conf'"
    and "\<forall>pid other. Started pid \<in> set acts \<longrightarrow> sys_process children other \<noteq> Some pid"
  shows "procs_ok live' (children(name \<mapsto> conf'))"
proof -
  note p = sys_process_Some [of children name, OF assms(2)]
  have kept: "\<exists>other. sys_process (children(name \<mapsto> conf')) other = Some q"
    if q: "q \<in> live" "process_of (ch_pc conf) \<noteq> Some q" for q
  proof -
    obtain other where o: "sys_process children other = Some q" using procs_ok_owner [OF assms(1) q(1)] by blast
    then have "other \<noteq> name" using q(2) p by metis
    with o show ?thesis by (intro exI [of _ other]) simp
  qed
  from assms(3) show ?thesis
  proof (cases rule: child_step_process)
    case same
    then have "sys_process (children(name \<mapsto> conf')) = sys_process children" using p by auto
    with assms(1) same(1) show ?thesis unfolding procs_ok_def by simp
  next
    case (born pid)
    have "\<exists>other. sys_process (children(name \<mapsto> conf')) other = Some pid" using born(5) by (intro exI [of _ name]) simp
    with kept born have "\<forall>q\<in>live'. \<exists>other. sys_process (children(name \<mapsto> conf')) other = Some q" by auto
    moreover have "a = b" if "sys_process (children(name \<mapsto> conf')) a = Some q" "sys_process (children(name \<mapsto> conf')) b = Some q" for a b q
      using that assms(1,4) born unfolding procs_ok_def by (auto split: if_splits)
    ultimately show ?thesis unfolding procs_ok_def by blast
  next
    case (reaped pid)
    have "\<forall>q\<in>live'. \<exists>other. sys_process (children(name \<mapsto> conf')) other = Some q"
    proof
      fix q assume "q \<in> live'"
      then have "q \<in> live" "process_of (ch_pc conf) \<noteq> Some q" using reaped by auto
      then show "\<exists>other. sys_process (children(name \<mapsto> conf')) other = Some q" by (rule kept)
    qed
    with assms(1) reaped show ?thesis unfolding procs_ok_def by (simp split: if_splits)
  qed
qed

lemma procs_ok_step:
  assumes "guard_step m u g who g'" "procs_ok (gs_live g) (gs_children g)"
  shows "procs_ok (gs_live g') (gs_children g')"
  using assms(1)
proof cases
  case (supervise name conf acts change live' conf')
  with procs_ok_supervise [OF assms(2)] show ?thesis by simp
next
  case launch
  have "sys_process ((gs_children g)(''mosdns'' \<mapsto> new_child)) = sys_process (gs_children g)"
    using launch by (auto simp: sys_process_def new_child_def)
  with launch assms(2) show ?thesis by (simp add: procs_ok_def)
qed (use assms(2) in \<open>auto simp: procs_ok_def\<close>)

section \<open>What the plugin knows\<close>

text \<open>The JSON codec of the wire format, as far as it is used: a marshalled snapshot fits a datagram
  and is decoded to the snapshot.\<close>

definition wire_roundtrip :: "(snapshot \<Rightarrow> string option) \<Rightarrow> (string \<Rightarrow> snapshot option) \<Rightarrow> bool" where
  "wire_roundtrip marshal unmarshal \<longleftrightarrow>
     (\<forall>snap payload. marshal snap = Some payload \<longrightarrow> unmarshal (take 65535 payload) = Some snap)"

lemma sendState_decodes:
  "wire_roundtrip m u \<Longrightarrow> sendState m a d w now s = Some payload \<Longrightarrow> u (take 65535 payload) = Some (state_snapshot now s)"
  by (auto simp: sendState_def wire_roundtrip_def split: option.splits if_splits)

text \<open>A snapshot of a state that a run from \<open>g0\<close> to \<open>g\<close> went through, taken by a given instant.\<close>

definition from_run where
  "from_run m u g0 g snap t \<longleftrightarrow>
     (\<exists>ps g1 qs. guard_run m u g0 ps g1 \<and> guard_run m u g1 qs g \<and> snap = state_snapshot (gs_now g1) (gs_state g1) \<and> gs_now g1 \<le> t)"

lemma from_run_step: "from_run m u g0 g snap t \<Longrightarrow> guard_step m u g who g' \<Longrightarrow> t \<le> t' \<Longrightarrow> from_run m u g0 g' snap t'"
  unfolding from_run_def using order.trans run_step by fast

lemma guard_step_now: "guard_step m u g who g' \<Longrightarrow> gs_now g \<le> gs_now g'"
  by (induction rule: guard_step.induct) auto

definition knows where
  "knows m u g0 g \<longleftrightarrow>
     (\<forall>payload\<in>set (gs_queue g) \<union> set_option (gs_sending g). \<forall>snap. u (take 65535 payload) = Some snap \<longrightarrow> from_run m u g0 g snap (gs_now g))
     \<and> (\<forall>p. gs_plugin g = Some p \<longrightarrow>
          s_timestamp (sp_snapshot p) = 0
          \<or> sp_receivedAt p \<le> gs_now g \<and> from_run m u g0 g (sp_snapshot p) (sp_receivedAt p))"

text \<open>A step that takes no snapshot and delivers none to the plugin.\<close>

lemma knows_frame:
  assumes "guard_step m u g who g'" "knows m u g0 g"
    and "set (gs_queue g') \<union> set_option (gs_sending g') \<subseteq> set (gs_queue g) \<union> set_option (gs_sending g)"
    and "gs_plugin g' = None \<or> gs_plugin g' = gs_plugin g"
  shows "knows m u g0 g'"
  unfolding knows_def
proof (intro conjI ballI allI impI)
  note now = guard_step_now [OF assms(1)]
  fix payload snap assume "payload \<in> set (gs_queue g') \<union> set_option (gs_sending g')" "u (take 65535 payload) = Some snap"
  then have "from_run m u g0 g snap (gs_now g)" using assms(2,3) unfolding knows_def by blast
  then show "from_run m u g0 g' snap (gs_now g')" using from_run_step [OF _ assms(1) now] by blast
next
  note now = guard_step_now [OF assms(1)]
  fix p assume "gs_plugin g' = Some p"
  then have "gs_plugin g = Some p" using assms(4) by auto
  then have "s_timestamp (sp_snapshot p) = 0
      \<or> sp_receivedAt p \<le> gs_now g \<and> from_run m u g0 g (sp_snapshot p) (sp_receivedAt p)"
    using assms(2) unfolding knows_def by blast
  then show "s_timestamp (sp_snapshot p) = 0
      \<or> sp_receivedAt p \<le> gs_now g' \<and> from_run m u g0 g' (sp_snapshot p) (sp_receivedAt p)"
    using from_run_step [OF _ assms(1) order.refl] now by auto
qed

lemma knows_step:
  assumes "guard_step m u g who g'" "knows m u g0 g" "guard_run m u g0 ps g" "wire_roundtrip m u"
  shows "knows m u g0 g'"
  using assms(1)
proof cases
  case (snapped payload)
  have here: "from_run m u g0 g' (state_snapshot (gs_now g) (gs_state g)) (gs_now g)"
    unfolding from_run_def using assms(3) guard_run_one [OF assms(1)] by blast
  have dec: "u (take 65535 payload) = Some (state_snapshot (gs_now g) (gs_state g))"
    by (rule sendState_decodes [OF assms(4) snapped(4)])
  have "from_run m u g0 g' snap (gs_now g)" if "q \<in> set (gs_queue g)" "u (take 65535 q) = Some snap" for q snap
    using assms(2) that from_run_step [OF _ assms(1) order.refl] unfolding knows_def by blast
  moreover have "sp_receivedAt p \<le> gs_now g \<and> from_run m u g0 g' (sp_snapshot p) (sp_receivedAt p)"
    if "gs_plugin g = Some p" "s_timestamp (sp_snapshot p) \<noteq> 0" for p
    using assms(2) that from_run_step [OF _ assms(1) order.refl] unfolding knows_def by blast
  ultimately show ?thesis using snapped here dec unfolding knows_def by auto
next
  case (plugin_starts pid io socket p)
  then have "s_timestamp (sp_snapshot p) = 0"
    by (auto simp: sup_initPlugin_def zero_snapshot_def split: if_splits option.splits)
  moreover have "from_run m u g0 g' snap (gs_now g)" if "q \<in> set_option (gs_sending g)" "u (take 65535 q) = Some snap" for q snap
    using assms(2) that from_run_step [OF _ assms(1) order.refl] unfolding knows_def by blast
  ultimately show ?thesis using plugin_starts unfolding knows_def by simp
next
  case (received p payload rest)
  note later = from_run_step [OF _ assms(1) order.refl]
  have q: "from_run m u g0 g' snap (gs_now g)"
    if "q \<in> set (payload # rest) \<union> set_option (gs_sending g)" "u (take 65535 q) = Some snap" for q snap
    using assms(2) that later received(4) unfolding knows_def by metis
  have p: "s_timestamp (sp_snapshot p) = 0
      \<or> sp_receivedAt p \<le> gs_now g \<and> from_run m u g0 g' (sp_snapshot p) (sp_receivedAt p)"
    using assms(2) later received(3) unfolding knows_def by blast
  show ?thesis
    using q p received unfolding knows_def by (auto simp: receive_def split: option.splits)
qed (rule knows_frame [OF assms(1,2)]; auto)+

lemma knows_run:
  assumes "guard_run m u g0 ps g" "wire_roundtrip m u" "gs_queue g0 = []" "gs_sending g0 = None" "gs_plugin g0 = None"
  shows "knows m u g0 g"
  using assms
proof (induction rule: guard_run.induct)
  case run_here
  then show ?case by (simp add: knows_def)
next
  case (run_step ps g1 who g2)
  then show ?case using knows_step by blast
qed

section \<open>Each supervisor in the system\<close>

definition view_of :: "guard_sys \<Rightarrow> string \<Rightarrow> child_conf \<Rightarrow> child_log \<Rightarrow> child_view" where
  "view_of g name conf done = \<lparr>cv_ctx = gs_ctx g, cv_now = gs_now g, cv_live = gs_live g, cv_conf = conf,
     cv_comp = comp_of name (gs_state g), cv_log = done\<rparr>"

text \<open>For the supervisor of one child every step of the system is its own or goes on around it.\<close>

lemma guard_step_view:
  assumes "guard_step m u g who g'" "gs_children g name = Some conf" "name \<in> child_names"
  shows "\<exists>conf'. gs_children g' name = Some conf' \<and>
    child_move (view_of g name conf done) (view_of g' name conf' (done @ supervisor_log name [(gs_now g, who)]))"
proof -
  have aside: "child_move (view_of g name conf done) (view_of g' name conf done)"
    if "gs_ctx g \<longrightarrow> gs_ctx g'" "gs_now g \<le> gs_now g'" "comp_of name (gs_state g') = comp_of name (gs_state g)"
    using around [of "view_of g name conf done" "gs_ctx g'" "gs_now g'" "gs_live g'"] that by (simp add: view_of_def)
  from assms(1) show ?thesis
  proof cases
    case (supervise name' conf1 acts1 change live' conf')
    show ?thesis
    proof (cases "name' = name")
      case True
      with supervise assms(2) have "child_step (gs_ctx g) (gs_now g) (gs_live g) conf acts1 change live' conf'" by simp
      with own_step [OF this, of "comp_of name (gs_state g)" "done"] supervise True show ?thesis
        by (auto simp: view_of_def)
    next
      case False
      with supervise assms(2) aside show ?thesis by auto
    qed
  next
    case (bridged event b' s')
    then have "comp_of name (gs_state g') = comp_of name (gs_state g)"
      using bridge_event_state [OF bridged(4)] assms(3) by (auto simp: child_names_def)
    with bridged aside assms(2) show ?thesis by auto
  qed (use aside assms(2) in auto)
qed

lemma guard_step_unlaunched:
  assumes "guard_step m u g who g'" "gs_children g name = None" "name \<in> child_names"
  shows "comp_of name (gs_state g') = comp_of name (gs_state g) \<and> supervisor_log name [(t, who)] = []
    \<and> (gs_children g' name = None \<or> gs_children g' name = Some new_child)"
  using assms(1)
proof cases
  case (bridged event b' s')
  then show ?thesis using bridge_event_state [OF bridged(4)] assms(2,3) by (auto simp: child_names_def)
qed (use assms(2) in auto)

lemma child_begins:
  "comp_of name (gs_state g) = k \<Longrightarrow>
     \<exists>now live. child_move\<^sup>*\<^sup>* (child_begin now live k) (view_of g name new_child [])"
  using around [of "child_begin (gs_now g) (gs_live g) k" "gs_ctx g" "gs_now g" "gs_live g"]
  by (intro exI [of _ "gs_now g"] exI [of _ "gs_live g"] r_into_rtranclp) (simp add: child_begin_def view_of_def new_child_def)

text \<open>The part of a run that belongs to one supervisor, with its log.\<close>

definition child_in_run :: "guard_sys \<Rightarrow> string \<Rightarrow> (instant \<times> party) list \<Rightarrow> guard_sys \<Rightarrow> bool" where
  "child_in_run g0 name ps g \<longleftrightarrow>
     (gs_children g name = None \<longrightarrow> comp_of name (gs_state g) = comp_of name (gs_state g0) \<and> supervisor_log name ps = [])
     \<and> (\<forall>conf. gs_children g name = Some conf \<longrightarrow> (\<exists>now live. child_move\<^sup>*\<^sup>*
          (child_begin now live (comp_of name (gs_state g0))) (view_of g name conf (supervisor_log name ps))))"

lemma child_runs_in_system:
  assumes "guard_run m u g0 ps g" "name \<in> child_names" "gs_children g0 name \<in> {None, Some new_child}"
  shows "child_in_run g0 name ps g"
  using assms
proof (induction rule: guard_run.induct)
  case run_here
  then show ?case using child_begins [OF refl, of name g0] unfolding child_in_run_def
    by (elim insertE emptyE) (simp_all del: ex_simps)
next
  case (run_step ps g1 who g2)
  then have IH: "child_in_run g0 name ps g1" by blast
  show ?case
  proof (cases "gs_children g1 name")
    case None
    with IH guard_step_unlaunched [OF run_step.hyps(2) None run_step.prems(1), of "gs_now g1"]
    have "comp_of name (gs_state g2) = comp_of name (gs_state g0)" "supervisor_log name (ps @ [(gs_now g1, who)]) = []"
      "gs_children g2 name = None \<or> gs_children g2 name = Some new_child"
      by (auto simp: child_in_run_def simp del: supervisor_log_simps(3))
    then show ?thesis using child_begins [of name g2 "comp_of name (gs_state g0)"] unfolding child_in_run_def
      by (elim disjE) (simp_all del: supervisor_log_simps)
  next
    case (Some conf)
    then obtain now live where
      v: "child_move\<^sup>*\<^sup>* (child_begin now live (comp_of name (gs_state g0))) (view_of g1 name conf (supervisor_log name ps))"
      using IH by (auto simp: child_in_run_def)
    obtain conf' where "gs_children g2 name = Some conf'" "child_move (view_of g1 name conf (supervisor_log name ps))
        (view_of g2 name conf' (supervisor_log name (ps @ [(gs_now g1, who)])))"
      using guard_step_view [OF run_step.hyps(2) Some run_step.prems(1), of "supervisor_log name ps"]
      by (auto simp del: supervisor_log_simps(3))
    with v show ?thesis unfolding child_in_run_def by (auto intro: rtranclp.rtrancl_into_rtrancl)
  qed
qed

section \<open>Shutdown\<close>

definition child_rank :: "guard_sys \<Rightarrow> string \<Rightarrow> nat" where
  "child_rank g name = (case gs_children g name of None \<Rightarrow> 7 | Some conf \<Rightarrow> rank (ch_pc conf))"

definition sys_rank :: "guard_sys \<Rightarrow> nat" where
  "sys_rank g = (\<Sum>name\<in>child_names. child_rank g name)"

definition mover :: "instant \<times> party \<Rightarrow> bool" where
  "mover move \<longleftrightarrow> snd move \<noteq> Elsewhere"

lemma finite_child_names [simp]: "finite child_names"
  by (simp add: child_names_def)

lemma sys_rank_le: "sys_rank g \<le> 21"
proof -
  have "child_rank g name \<le> 7" for name
    using rank_le [of "ch_pc (the (gs_children g name))"] by (auto simp: child_rank_def split: option.splits)
  then have "sys_rank g \<le> (\<Sum>name\<in>child_names. 7)" unfolding sys_rank_def by (intro sum_mono)
  then show ?thesis by (simp add: child_names_def)
qed

lemma sys_rank_less:
  assumes "name \<in> child_names" "child_rank g' name < child_rank g name"
    and "\<And>other. other \<noteq> name \<Longrightarrow> child_rank g' other = child_rank g other"
  shows "sys_rank g' < sys_rank g"
  unfolding sys_rank_def by (rule sum_strict_mono_ex1) (use assms in \<open>auto, metis order.refl less_imp_le\<close>)

lemma guard_step_rank:
  assumes "guard_step m u g who g'" "gs_ctx g" "dom (gs_children g) \<subseteq> child_names"
  shows "sys_rank g' + (if mover (t, who) then 1 else 0) \<le> sys_rank g \<and> gs_ctx g'"
  using assms(1)
proof cases
  case (supervise name conf acts change live' conf')
  have "sys_rank g' < sys_rank g"
  proof (rule sys_rank_less [of name])
    show "name \<in> child_names" using supervise assms(3) by auto
    show "child_rank g' name < child_rank g name"
      using supervise assms(2) child_step_rank by (simp add: child_rank_def)
  qed (use supervise in \<open>simp add: child_rank_def\<close>)
  then show ?thesis using supervise assms(2) by (simp add: mover_def)
next
  case launch
  have "sys_rank g' < sys_rank g"
    by (rule sys_rank_less [of "''mosdns''"]) (use launch in \<open>auto simp: child_rank_def child_names_def new_child_def\<close>)
  then show ?thesis using launch assms(2) by (simp add: mover_def)
qed (use assms(2) in \<open>auto simp: mover_def sys_rank_def child_rank_def\<close>)

lemma guard_run_rank:
  assumes "guard_run m u g ps g'" "gs_ctx g" "flags_ok (gs_state g) (gs_children g)"
  shows "sys_rank g' + length (filter mover ps) \<le> sys_rank g \<and> gs_ctx g' \<and> flags_ok (gs_state g') (gs_children g')"
  using assms
proof (induction rule: guard_run.induct)
  case (run_step ps g1 who g2)
  then have IH: "sys_rank g1 + length (filter mover ps) \<le> sys_rank g" "gs_ctx g1" "flags_ok (gs_state g1) (gs_children g1)"
    by auto
  have "dom (gs_children g1) \<subseteq> child_names" using IH(3) by (simp add: flags_ok_def)
  from guard_step_rank [OF run_step.hyps(2) IH(2) this, of "gs_now g1"] IH flags_ok_step [OF run_step.hyps(2) IH(3)]
  show ?case by (auto split: if_splits)
qed simp

text \<open>While something is left to do, some continuation does part of it: the process a supervisor waits
  for may exit, and then the supervisor can move.\<close>

text \<open>The process of a supervisor may end; nothing else changes for the supervisors.\<close>

lemma process_may_end:
  assumes "gs_ctx g"
  shows "\<exists>ps g1. guard_run m u g ps g1 \<and> gs_children g1 = gs_children g \<and> gs_ctx g1
    \<and> (\<forall>pid. process_of pc = Some pid \<longrightarrow> pid \<notin> gs_live g1)"
proof (cases "\<exists>pid. process_of pc = Some pid \<and> pid \<in> gs_live g")
  case True
  then obtain pid where pid: "process_of pc = Some pid" "pid \<in> gs_live g" by blast
  show ?thesis
  proof (cases "sys_process (gs_children g) ''mosdns'' = Some pid")
    case True
    show ?thesis
      by (intro exI conjI, rule guard_run_one [OF mosdns_exits [OF pid(2) True]]) (use assms pid(1) in auto)
  next
    case False
    show ?thesis
      by (intro exI conjI, rule guard_run_one [OF process_exits [OF pid(2) False]]) (use assms pid(1) in auto)
  qed
next
  case False
  show ?thesis by (intro exI conjI, rule run_here) (use assms False in auto)
qed

lemma shutdown_progress:
  assumes "gs_ctx g" "flags_ok (gs_state g) (gs_children g)" "sys_rank g \<noteq> 0"
  shows "\<exists>ps g'. guard_run m u g ps g' \<and> sys_rank g' < sys_rank g"
proof -
  obtain name where n: "name \<in> child_names" "child_rank g name \<noteq> 0"
    using assms(3) by (auto simp: sys_rank_def)
  have ch: "dom (gs_children g) \<subseteq> child_names" "child_names - {''mosdns''} \<subseteq> dom (gs_children g)"
    using assms(2) by (simp_all add: flags_ok_def)
  show ?thesis
  proof (cases "gs_children g name")
    case None
    then have "name = ''mosdns''" using ch(2) n(1) by auto
    then have st: "guard_step m u g Main (g\<lparr>gs_children := (gs_children g)(''mosdns'' \<mapsto> new_child)\<rparr>)"
      using None by (intro launch) simp
    from guard_step_rank [OF st assms(1) ch(1), of 0] guard_run_one [OF st] show ?thesis by (force simp: mover_def)
  next
    case (Some conf)
    then have pc: "ch_pc conf \<noteq> Finished" using n(2) by (auto simp: child_rank_def)
    obtain ps g1 where g1: "guard_run m u g ps g1" "gs_children g1 = gs_children g" "gs_ctx g1"
      "\<forall>pid. process_of (ch_pc conf) = Some pid \<longrightarrow> pid \<notin> gs_live g1"
      using process_may_end [OF assms(1)] by blast
    obtain acts change live' conf' where st: "child_step True (gs_now g1) (gs_live g1) conf acts change live' conf'"
      "\<forall>pid. Started pid \<notin> set acts"
      using child_step_progress [OF pc g1(4)] by blast
    define g2 where "g2 = g1\<lparr>gs_live := live', gs_children := (gs_children g1)(name \<mapsto> conf'),
      gs_state := change_state name change (gs_state g1)\<rparr>"
    have step: "guard_step m u g1 (Supervisor name acts) g2"
      unfolding g2_def using Some g1(2,3) st by (intro supervise [of g1 name conf acts change live' conf']) simp_all
    have "sys_rank g1 = sys_rank g" using g1(2) by (simp add: sys_rank_def child_rank_def)
    with guard_step_rank [OF step g1(3), of 0] ch(1) g1(2) have "sys_rank g2 < sys_rank g" by (simp add: mover_def)
    with run_step [OF g1(1) step] show ?thesis by blast
  qed
qed

definition finished :: "guard_sys \<Rightarrow> bool" where
  "finished g \<longleftrightarrow> (\<forall>name\<in>child_names. \<exists>conf. gs_children g name = Some conf \<and> ch_pc conf = Finished)"

lemma finished_iff: "finished g \<longleftrightarrow> sys_rank g = 0"
  by (auto simp: finished_def sys_rank_def child_rank_def split: option.splits)

lemma shutdown_reachable:
  assumes "gs_ctx g" "flags_ok (gs_state g) (gs_children g)"
  shows "\<exists>ps g'. guard_run m u g ps g' \<and> finished g'"
  using assms
proof (induction "sys_rank g" arbitrary: g rule: less_induct)
  case less
  show ?case
  proof (cases "sys_rank g = 0")
    case True
    then show ?thesis using run_here finished_iff by blast
  next
    case False
    from shutdown_progress [OF less.prems False] obtain ps g1 where
      g1: "guard_run m u g ps g1" "sys_rank g1 < sys_rank g" by blast
    from guard_run_rank [OF g1(1) less.prems] less.hyps [OF g1(2)] obtain qs g' where
      "guard_run m u g1 qs g'" "finished g'" by blast
    with guard_run_trans g1(1) show ?thesis by blast
  qed
qed

lemma finished_clean:
  assumes "finished g" "flags_ok (gs_state g) (gs_children g)" "procs_ok (gs_live g) (gs_children g)"
  shows "gs_live g = {} \<and> (\<forall>name\<in>child_names. \<not> k_up (comp_of name (gs_state g)))"
proof
  have "sys_process (gs_children g) name = None" for name
  proof (cases "name \<in> child_names")
    case True
    then show ?thesis using assms(1) by (auto simp: finished_def sys_process_def)
  next
    case False
    then have "gs_children g name = None" using assms(2) by (auto simp: flags_ok_def)
    then show ?thesis by (simp add: sys_process_def)
  qed
  then show "gs_live g = {}" using procs_ok_owner [OF assms(3)] by fastforce
  show "\<forall>name\<in>child_names. \<not> k_up (comp_of name (gs_state g))"
    using assms(1) flags_ok_up [OF assms(2)] unfolding finished_def by fastforce
qed

section \<open>Properties\<close>

lemma start_flags:
  assumes "guarddns_main env args files = Serving sv"
  shows "flags_ok (gs_state (guard_start now sv)) (gs_children (guard_start now sv))"
proof -
  from assms obtain b: "startDoHBridge (me_rcode_name env) (me_probe1 env) (me_probe2 env) (me_udp env) (me_tcp env)
      (sv_config sv) newRuntimeState = (sv_state sv, Inr (sv_upstreams sv, sv_bridge sv))"
    by (rule guarddns_main_serving)
  note c = startDoHBridge_components [OF b]
  show ?thesis
    by (auto simp: flags_ok_def guard_start_def comp_of_def c newRuntimeState_def child_names_def the_or_def
        zero_component_def set_up_def new_child_def)
qed

lemma start_procs: "procs_ok (gs_live (guard_start now sv)) (gs_children (guard_start now sv))"
  by (auto simp: procs_ok_def guard_start_def sys_process_def new_child_def split: if_splits)

lemma run_flags:
  assumes "guarddns_main env args files = Serving sv" "guard_run m u (guard_start now sv) ps g"
  shows "flags_ok (gs_state g) (gs_children g)"
  by (rule guard_run_invariant [OF assms(2), where P = "\<lambda>g. flags_ok (gs_state g) (gs_children g)"])
    (use start_flags [OF assms(1)] flags_ok_step in blast)+

lemma run_procs: "guard_run m u (guard_start now sv) ps g \<Longrightarrow> procs_ok (gs_live g) (gs_children g)"
  by (rule guard_run_invariant [where P = "\<lambda>g. procs_ok (gs_live g) (gs_children g)"])
    (use start_procs procs_ok_step in blast)+

text \<open>
  Property C11.  The state of the running process is well formed in every interleaving: it knows
  exactly the bridge and the three children, all of them enabled; a child is exported as up exactly
  while its supervisor is between the report of its start and the report of its end; every live
  process has a supervisor that will wait for it, and no two supervisors share one.
\<close>

theorem exported_state_exact:
  assumes "guarddns_main env args files = Serving sv" "guard_run marshal unmarshal (guard_start now sv) ps g"
  shows "dom (rs_components (gs_state g)) = {''doh_bridge'', ''unbound'', ''unbound_recursive'', ''mosdns''}
    \<and> (\<forall>name c. rs_components (gs_state g) name = Some c \<longrightarrow> k_enabled c)
    \<and> (\<forall>name conf. gs_children g name = Some conf \<longrightarrow>
         (k_up (comp_of name (gs_state g)) \<longleftrightarrow> reported_up (ch_pc conf)))
    \<and> (\<forall>pid\<in>gs_live g. \<exists>!name. \<exists>conf. gs_children g name = Some conf \<and> process_of (ch_pc conf) = Some pid)"
proof (intro conjI allI impI ballI)
  note f = run_flags [OF assms]
  show "dom (rs_components (gs_state g)) = {''doh_bridge'', ''unbound'', ''unbound_recursive'', ''mosdns''}"
    using f by (simp add: flags_ok_def child_names_def)
  show "k_up (comp_of name (gs_state g)) \<longleftrightarrow> reported_up (ch_pc conf)" if "gs_children g name = Some conf" for name conf
    by (rule flags_ok_up [OF f that])
  show "k_enabled c" if "rs_components (gs_state g) name = Some c" for name c
  proof -
    have "name \<in> dom (rs_components (gs_state g))" using that by (rule domI)
    then have "k_enabled (comp_of name (gs_state g))" by (rule flags_ok_enabled [OF f])
    then show ?thesis using that by (simp add: comp_of_def the_or_def)
  qed
  fix pid assume "pid \<in> gs_live g"
  have p: "(\<exists>conf. gs_children g name = Some conf \<and> process_of (ch_pc conf) = Some pid) \<longleftrightarrow>
      sys_process (gs_children g) name = Some pid" for name
    by (auto simp: sys_process_def split: option.splits)
  show "\<exists>!name. \<exists>conf. gs_children g name = Some conf \<and> process_of (ch_pc conf) = Some pid"
    unfolding p using procs_ok_unique [OF run_procs [OF assms(2)] \<open>pid \<in> gs_live g\<close>] .
qed

text \<open>A run in which a signal arrives and the supervisor of Unbound moves.\<close>

lemma sample_guard_run:
  "\<exists>sv g. guarddns_main image_env [''guarddns''] image_files = Serving sv
     \<and> guard_run m u (guard_start second sv) [(second, Supervisor ''unbound'' []), (second, Elsewhere)] g \<and> gs_ctx g"
proof -
  obtain sv where sv: "guarddns_main image_env [''guarddns''] image_files = Serving sv" using image_serves by blast
  define g0 where "g0 = guard_start second sv"
  define g1 where "g1 = g0\<lparr>gs_live := {}, gs_children := (gs_children g0)(''unbound'' \<mapsto> \<lparr>ch_pc = Starting, ch_step = 0\<rparr>),
    gs_state := change_state ''unbound'' None (gs_state g0)\<rparr>"
  have "guard_step m u g0 (Supervisor ''unbound'' []) g1"
    unfolding g1_def
    by (rule supervise [of g0 "''unbound''" new_child "[]"])
      (simp_all add: g0_def guard_start_def new_child_def head_on)
  from guard_run_one [OF this] have "guard_run m u g0 [(second, Supervisor ''unbound'' [])] g1" by (simp add: g0_def guard_start_def)
  from run_step [OF this signalled] have "guard_run m u g0 [(second, Supervisor ''unbound'' []), (second, Elsewhere)] (g1\<lparr>gs_ctx := True\<rparr>)"
    by (simp add: g1_def g0_def guard_start_def)
  with sv show ?thesis unfolding g0_def by (intro exI [of _ sv] exI [of _ "g1\<lparr>gs_ctx := True\<rparr>"] conjI) simp_all
qed

theorem exported_state_exact_witness:
  "\<exists>sv g. guard_run (\<lambda>_. None) (\<lambda>_. None) (guard_start second sv) [(second, Supervisor ''unbound'' []), (second, Elsewhere)] g
     \<and> dom (rs_components (gs_state g)) = {''doh_bridge'', ''unbound'', ''unbound_recursive'', ''mosdns''}"
proof -
  obtain sv g where r: "guarddns_main image_env [''guarddns''] image_files = Serving sv"
    "guard_run (\<lambda>_. None) (\<lambda>_. None) (guard_start second sv) [(second, Supervisor ''unbound'' []), (second, Elsewhere)] g"
    using sample_guard_run by blast
  from exported_state_exact [OF r] have "dom (rs_components (gs_state g)) = {''doh_bridge'', ''unbound'', ''unbound_recursive'', ''mosdns''}" by (elim conjE)
  with r(2) show ?thesis by blast
qed

text \<open>
  Property C12.  Shutdown ends, and ends clean.  Once the context is done, the supervisors and
  \<^verbatim>\<open>main\<close> take at most 21 further steps however they are interleaved, some continuation lets all
  three supervisors return, and whenever they have returned no process is left and no child is
  exported as up.
\<close>

theorem shutdown_completes:
  assumes "guarddns_main env args files = Serving sv" "guard_run marshal unmarshal (guard_start now sv) ps g" "gs_ctx g"
  shows "(\<forall>qs g'. guard_run marshal unmarshal g qs g' \<longrightarrow> length (filter mover qs) \<le> 21
        \<and> (finished g' \<longrightarrow> gs_live g' = {} \<and> (\<forall>name\<in>child_names. \<not> k_up (comp_of name (gs_state g')))))
    \<and> (\<exists>qs g'. guard_run marshal unmarshal g qs g' \<and> finished g')"
proof (intro conjI allI impI)
  note f = run_flags [OF assms(1,2)]
  show "\<exists>qs g'. guard_run marshal unmarshal g qs g' \<and> finished g'" by (rule shutdown_reachable [OF assms(3) f])
  fix qs g' assume r: "guard_run marshal unmarshal g qs g'"
  show "length (filter mover qs) \<le> 21"
    using guard_run_rank [OF r assms(3) f] sys_rank_le [of g] by simp
  assume "finished g'"
  from finished_clean [OF this] run_flags [OF assms(1)] run_procs guard_run_trans [OF r assms(2)]
  show "gs_live g' = {}" "\<forall>name\<in>child_names. \<not> k_up (comp_of name (gs_state g'))" by blast+
qed

theorem shutdown_completes_witness:
  "\<exists>sv g g' qs. guard_run (\<lambda>_. None) (\<lambda>_. None) (guard_start second sv) [(second, Supervisor ''unbound'' []), (second, Elsewhere)] g
     \<and> guard_run (\<lambda>_. None) (\<lambda>_. None) g qs g' \<and> finished g' \<and> gs_live g' = {}"
proof -
  obtain sv g where r: "guarddns_main image_env [''guarddns''] image_files = Serving sv"
    "guard_run (\<lambda>_. None) (\<lambda>_. None) (guard_start second sv) [(second, Supervisor ''unbound'' []), (second, Elsewhere)] g" "gs_ctx g"
    using sample_guard_run by blast
  with shutdown_completes [OF r] show ?thesis by blast
qed

lemma ready_code: "fst (ready_handler t p) = 200 \<longleftrightarrow> \<not> unhealthy (sp_snapshot p) (time_sub t (sp_receivedAt p))"
  by (simp add: ready_handler_def currentSnapshot_def writeStatus_def readyStatus_code split_beta)

lemma component_down_flags:
  assumes "flags_ok s children" "name \<in> insert ''doh_bridge'' child_names"
  shows "component_down (state_snapshot t s) name \<longleftrightarrow> \<not> k_up (comp_of name s)"
proof -
  have d: "name \<in> dom (rs_components s)" using assms by (simp add: flags_ok_def)
  then obtain c where c: "rs_components s name = Some c" by blast
  with flags_ok_enabled [OF assms(1) d] show ?thesis
    by (simp add: component_down_def state_snapshot_def comp_of_def the_or_def)
qed

lemma bridge_up_comp: "bridge_up s \<longleftrightarrow> k_up (comp_of ''doh_bridge'' s)"
  by (simp add: bridge_up_def comp_of_def)

text \<open>
  Property C10.  A positive answer of the readiness endpoint rests on the past of the run it is given
  in: its snapshot is one of a state the system went through, received at most five seconds before
  the answer and taken before it was received, and in that state MosDNS was reported running by its
  supervisor and the bridge was up.
\<close>

theorem ready_was_up:
  assumes "guarddns_main env args files = Serving sv" "wire_roundtrip marshal unmarshal"
    and "guard_run marshal unmarshal (guard_start now sv) ps g" "gs_plugin g = Some p"
    and "fst (ready_handler (gs_now g) p) = 200"
  shows "\<exists>ps1 g1 qs conf. guard_run marshal unmarshal (guard_start now sv) ps1 g1 \<and> guard_run marshal unmarshal g1 qs g
    \<and> sp_snapshot p = state_snapshot (gs_now g1) (gs_state g1)
    \<and> gs_now g1 \<le> sp_receivedAt p \<and> gs_now g \<le> sp_receivedAt p + 5 * second
    \<and> gs_children g1 ''mosdns'' = Some conf \<and> reported_up (ch_pc conf) \<and> bridge_up (gs_state g1)"
proof -
  have h: "\<not> unhealthy (sp_snapshot p) (time_sub (gs_now g) (sp_receivedAt p))" using assms(5) ready_code by blast
  have "knows marshal unmarshal (guard_start now sv) g"
    by (rule knows_run [OF assms(3,2)]) (simp_all add: guard_start_def)
  then have "from_run marshal unmarshal (guard_start now sv) g (sp_snapshot p) (sp_receivedAt p)"
    using assms(4) h unfolding knows_def unhealthy_def by blast
  then obtain ps1 g1 qs where r: "guard_run marshal unmarshal (guard_start now sv) ps1 g1" "guard_run marshal unmarshal g1 qs g"
    "sp_snapshot p = state_snapshot (gs_now g1) (gs_state g1)" "gs_now g1 \<le> sp_receivedAt p"
    unfolding from_run_def by blast
  note f = run_flags [OF assms(1) r(1)]
  have up: "k_up (comp_of ''mosdns'' (gs_state g1))" "bridge_up (gs_state g1)"
    using h component_down_flags [OF f, of "''mosdns''"] component_down_flags [OF f, of "''doh_bridge''"]
    by (auto simp: unhealthy_def r(3) child_names_def bridge_up_comp)
  then obtain conf where "gs_children g1 ''mosdns'' = Some conf" "reported_up (ch_pc conf)"
    using f by (auto simp: flags_ok_def child_names_def)
  moreover have "gs_now g \<le> sp_receivedAt p + 5 * second"
    using h time_sub_gt_iff [of "5 * second" "gs_now g" "sp_receivedAt p"] by (auto simp: unhealthy_def second_def)
  ultimately show ?thesis using r up(2) by blast
qed

text \<open>A run to a ready state: MosDNS is launched, starts, is reported, its plugin starts and receives
  a snapshot.\<close>

definition ready_state :: "serving \<Rightarrow> runtimeState" where
  "ready_state sv = state_update ''mosdns'' mark_running (sv_state sv)"

definition ready_marshal :: "serving \<Rightarrow> snapshot \<Rightarrow> string option" where
  "ready_marshal sv x = (if x = state_snapshot second (ready_state sv) then Some ''s'' else None)"

definition ready_plugin :: "serving \<Rightarrow> sup_plugin" where
  "ready_plugin sv = \<lparr>sp_snapshot = state_snapshot second (ready_state sv), sp_receivedAt = second, sp_socketPath = ''s''\<rparr>"

lemma ready_wire: "wire_roundtrip (ready_marshal sv) (\<lambda>_. Some (state_snapshot second (ready_state sv)))"
  by (simp add: wire_roundtrip_def ready_marshal_def)

lemma supervise_at:
  assumes "children name = Some conf" "child_step ctx now live conf acts change live' conf'"
    and "\<forall>pid other. Started pid \<in> set acts \<longrightarrow> sys_process children other \<noteq> Some pid"
    and "children' = children(name \<mapsto> conf')" "s' = change_state name change s"
  shows "guard_step m u \<lparr>gs_now = now, gs_ctx = ctx, gs_live = live, gs_state = s, gs_children = children, gs_bridge = b,
      gs_sending = w, gs_queue = q, gs_plugin = p\<rparr> (Supervisor name acts)
    \<lparr>gs_now = now, gs_ctx = ctx, gs_live = live', gs_state = s', gs_children = children', gs_bridge = b,
      gs_sending = w, gs_queue = q, gs_plugin = p\<rparr>"
  using supervise [of "\<lparr>gs_now = now, gs_ctx = ctx, gs_live = live, gs_state = s, gs_children = children, gs_bridge = b,
      gs_sending = w, gs_queue = q, gs_plugin = p\<rparr>" name conf acts change live' conf'] assms by simp

lemma ready_run:
  "\<exists>ps g. guard_run (ready_marshal sv) (\<lambda>_. Some (state_snapshot second (ready_state sv))) (guard_start second sv) ps g
     \<and> gs_plugin g = Some (ready_plugin sv) \<and> gs_now g = second"
proof -
  let ?step = "guard_step (ready_marshal sv) (\<lambda>_. Some (state_snapshot second (ready_state sv)))"
  let ?ch = "\<lambda>pc. [''unbound'' \<mapsto> new_child, ''unbound_recursive'' \<mapsto> new_child, ''mosdns'' \<mapsto> \<lparr>ch_pc = pc, ch_step = 0\<rparr>]"
  let ?g = "\<lambda>live s ch w q p. \<lparr>gs_now = second, gs_ctx = False, gs_live = live, gs_state = s, gs_children = ch,
    gs_bridge = sv_bridge sv, gs_sending = w, gs_queue = q, gs_plugin = p\<rparr>"
  let ?up = "?g {7} (ready_state sv) (?ch (Alive 7 second))"
  let ?p0 = "\<lparr>sp_snapshot = zero_snapshot, sp_receivedAt = zero_time, sp_socketPath = ''s''\<rparr>"
  have "?step (guard_start second sv) Main (?g {} (sv_state sv) (?ch AtHead) None [] None)"
    using launch [of "guard_start second sv"] by (simp add: guard_start_def new_child_def)
  moreover have "?step (?g {} (sv_state sv) (?ch AtHead) None [] None) (Supervisor ''mosdns'' [])
      (?g {} (sv_state sv) (?ch Starting) None [] None)"
    by (rule supervise_at [OF _ head_on]) (auto simp: change_state_def)
  moreover have "?step (?g {} (sv_state sv) (?ch Starting) None [] None) (Supervisor ''mosdns'' [Started 7])
      (?g {7} (sv_state sv) (?ch (Spawned 7 second)) None [] None)"
    by (rule supervise_at [OF _ starts [of 7]]) (auto simp: change_state_def sys_process_def new_child_def)
  moreover have "?step (?g {7} (sv_state sv) (?ch (Spawned 7 second)) None [] None) (Supervisor ''mosdns'' []) (?up None [] None)"
    by (rule supervise_at [OF _ running]) (auto simp: change_state_def ready_state_def)
  moreover have "?step (?up None [] None) Elsewhere (?up None [] (Some ?p0))"
    using plugin_starts [of "?up None [] None" 7
        "\<lparr>io_resolve = None, io_listen = None, io_chmod = None, io_register = None\<rparr>" "''s''" ?p0]
    by (simp add: sys_process_def sup_initPlugin_def)
  moreover have "?step (?up None [] (Some ?p0)) Elsewhere (?up (Some ''s'') [] (Some ?p0))"
    using snapped [of "?up None [] (Some ?p0)" "ready_marshal sv" "''s''"]
    by (simp add: sendState_def ready_marshal_def)
  moreover have "?step (?up (Some ''s'') [] (Some ?p0)) Elsewhere (?up None [''s''] (Some ?p0))"
    using sent [of "?up (Some ''s'') [] (Some ?p0)" "''s''"] by simp
  moreover have "?step (?up None [''s''] (Some ?p0)) Elsewhere (?up None [] (Some (ready_plugin sv)))"
    using received [of "?up None [''s''] (Some ?p0)" ?p0 "''s''" "[]" "ready_marshal sv"
        "\<lambda>_. Some (state_snapshot second (ready_state sv))"]
    by (simp add: receive_def ready_plugin_def)
  ultimately have "\<exists>ps. guard_run (ready_marshal sv) (\<lambda>_. Some (state_snapshot second (ready_state sv))) (guard_start second sv) ps
      (?up None [] (Some (ready_plugin sv)))"
    by (meson run_here run_step)
  then show ?thesis by fastforce
qed

lemma ready_snapshot:
  assumes "flags_ok (sv_state sv) children" "bridge_up (sv_state sv)"
  shows "\<not> unhealthy (state_snapshot second (ready_state sv)) 0"
proof -
  have "''mosdns'' \<in> dom (rs_components (sv_state sv))" "''doh_bridge'' \<in> dom (rs_components (sv_state sv))"
    using assms(1) by (simp_all add: flags_ok_def child_names_def)
  with assms(2) show ?thesis
    by (auto simp: unhealthy_def component_down_def state_snapshot_def ready_state_def state_update_def bridge_up_def
        mark_running_def the_or_def unix_seconds_def second_def)
qed

theorem ready_was_up_witness:
  "\<exists>sv ps g p. guard_run (ready_marshal sv) (\<lambda>_. Some (state_snapshot second (ready_state sv))) (guard_start second sv) ps g
     \<and> gs_plugin g = Some p \<and> fst (ready_handler (gs_now g) p) = 200
     \<and> (\<exists>ps1 g1 conf. guard_run (ready_marshal sv) (\<lambda>_. Some (state_snapshot second (ready_state sv))) (guard_start second sv) ps1 g1
          \<and> gs_children g1 ''mosdns'' = Some conf \<and> reported_up (ch_pc conf))"
proof -
  obtain sv where sv: "guarddns_main image_env [''guarddns''] image_files = Serving sv" using image_serves by blast
  obtain ps g where r: "guard_run (ready_marshal sv) (\<lambda>_. Some (state_snapshot second (ready_state sv))) (guard_start second sv) ps g"
    "gs_plugin g = Some (ready_plugin sv)" "gs_now g = second" using ready_run by blast
  have f: "flags_ok (sv_state sv) [''unbound'' \<mapsto> new_child, ''unbound_recursive'' \<mapsto> new_child]"
    using start_flags [OF sv, of second] by (simp add: guard_start_def)
  have "bridge_up (sv_state sv)"
    using sv by (auto elim!: guarddns_main_serving intro: startDoHBridge_up(1))
  then have "\<not> unhealthy (sp_snapshot (ready_plugin sv)) (time_sub (gs_now g) (sp_receivedAt (ready_plugin sv)))"
    using ready_snapshot [OF f] r(3) by (simp add: ready_plugin_def second_def)
  then have ok: "fst (ready_handler (gs_now g) (ready_plugin sv)) = 200" by (simp only: ready_code not_False_eq_True)
  from ready_was_up [OF sv ready_wire r(1,2) ok] r(1,2) ok show ?thesis by blast
qed

lemma start_component:
  assumes "guarddns_main env args files = Serving sv" "name \<in> child_names"
  shows "k_restarts (comp_of name (sv_state sv)) = 0" "\<not> k_up (comp_of name (sv_state sv))"
proof -
  from assms(1) obtain b: "startDoHBridge (me_rcode_name env) (me_probe1 env) (me_probe2 env) (me_udp env) (me_tcp env)
      (sv_config sv) newRuntimeState = (sv_state sv, Inr (sv_upstreams sv, sv_bridge sv))"
    by (rule guarddns_main_serving)
  show "k_restarts (comp_of name (sv_state sv)) = 0" "\<not> k_up (comp_of name (sv_state sv))"
    using assms(2)
    by (auto simp: comp_of_def startDoHBridge_components [OF b] newRuntimeState_def child_names_def the_or_def zero_component_def)
qed

text \<open>
  Property C16.  In the running system each child is supervised as if it were alone, at the times of
  the run.  Whenever its supervisor is at the head of its loop or has returned, what it did in the run
  is what \<^verbatim>\<open>superviseChild\<close> does for a script of iterations whose starts and checks are at the
  instants of the run (so the backoff step is forgotten after a stable run and only then), and its
  component and its backoff step are those of that script.  After every scheduled restart the
  supervisor does nothing until the delay, between 0.8 and 30 seconds, has passed.  The exported restart
  counter is the number of restarts it scheduled (modulo its 64-bit width), and the child is exported
  as down.
\<close>

theorem system_supervision_scripted:
  assumes "guarddns_main env args files = Serving sv" "guard_run marshal unmarshal (guard_start now sv) ps g"
    and "cs_name spec \<in> child_names" "gs_children g (cs_name spec) = Some conf" "ch_pc conf \<in> {AtHead, Finished}"
    and "did = supervisor_log (cs_name spec) ps"
  shows "(\<exists>its s'. superviseChild spec its 0 (sv_state sv) = (ch_step conf, s', map snd did, ch_pc conf = AtHead)
       \<and> comp_of (cs_name spec) s' = comp_of (cs_name spec) (gs_state g)
       \<and> start_times did = map ci_startedAt (filter tries its)
       \<and> restart_times did = map ci_checked (filter reschedules its))
    \<and> successively (\<lambda>(t, a) (t', a'). t \<le> t' \<and> (\<forall>d. a = RestartIn d \<longrightarrow> t + d \<le> t')) did
    \<and> (\<forall>d\<in>set (restart_delays (map snd did)). 4 * second \<le> 5 * d \<and> d \<le> 30 * second)
    \<and> k_restarts (comp_of (cs_name spec) (gs_state g)) = of_nat (length (restart_delays (map snd did)))
    \<and> \<not> k_up (comp_of (cs_name spec) (gs_state g))"
proof -
  have "gs_children (guard_start now sv) (cs_name spec) \<in> {None, Some new_child}" by (auto simp: guard_start_def)
  from child_runs_in_system [OF assms(2,3) this] assms(4,6) obtain t live where
    "child_move\<^sup>*\<^sup>* (child_begin t live (comp_of (cs_name spec) (gs_state (guard_start now sv)))) (view_of g (cs_name spec) conf did)"
    by (auto simp: child_in_run_def)
  from execution_scripted [OF this] assms(5) obtain its s' where
    r: "superviseChild spec its 0 (sv_state sv) = (ch_step conf, s', map snd did, ch_pc conf = AtHead)"
    "comp_of (cs_name spec) s' = comp_of (cs_name spec) (gs_state g)" "fits its did" "successively spaced did"
    by (auto simp: view_of_def guard_start_def)
  from supervision_accounting [OF r(1) start_component(2) [OF assms(1,3)]] start_component(1) [OF assms(1,3)] r
  show ?thesis unfolding fits_def spaced_def by auto
qed

theorem system_supervision_scripted_witness:
  "\<exists>sv its n s' acts. guarddns_main image_env [''guarddns''] image_files = Serving sv
     \<and> superviseChild sample_spec its 0 (sv_state sv) = (n, s', acts, False)"
proof -
  obtain sv g where r: "guarddns_main image_env [''guarddns''] image_files = Serving sv"
    "guard_run (\<lambda>_. None) (\<lambda>_. None) (guard_start second sv) [(second, Supervisor ''unbound'' []), (second, Elsewhere)] g" "gs_ctx g"
    using sample_guard_run by blast
  from shutdown_reachable [OF r(3) run_flags [OF r(1,2)]] obtain qs g' where
    g': "guard_run (\<lambda>_. None) (\<lambda>_. None) g qs g'" "finished g'" by blast
  then obtain conf where "gs_children g' (cs_name sample_spec) = Some conf" "ch_pc conf = Finished"
    by (auto simp: finished_def child_names_def sample_spec_def)
  with system_supervision_scripted [OF r(1) guard_run_trans [OF g'(1) r(2)], of sample_spec conf] r(1) show ?thesis
    by (auto simp: child_names_def sample_spec_def)
qed

end
