(* ===== verification/CircuitPlugin.thy ===== *)
theory CircuitPlugin
  imports Backoff Breaker
begin

text \<open>
  internal/circuitplugin/circuit.go: the circuit breaker in front of the AUTO_FORWARD (Mihomo) hop.
  The record \<open>circuit\<close> and its three methods, the delay functions, the plugin with its retrying
  \<^verbatim>\<open>Exec\<close>, and plugin construction.  Log lines are not modelled; the two gauges and the two
  counters are.  Counters and the backoff step, which only ever grow by one per request, are
  unbounded.
\<close>

text \<open>\<^verbatim>\<open>init\<close>\<close>

definition circuit_register :: registration where
  "circuit_register = RegNewPluginFunc ''guarddns_circuit''"

section \<open>Data\<close>

definition errCircuitOpen :: goerr where
  "errCircuitOpen = error_new ''AUTO_FORWARD circuit is open''"

definition errNoResponse :: goerr where
  "errNoResponse = error_new ''AUTO_FORWARD upstream returned no response''"

definition errAttemptTimeout :: goerr where
  "errAttemptTimeout = error_new ''AUTO_FORWARD upstream attempt timed out''"

record circuit_args =
  ca_primary :: string
  ca_failureThreshold :: int
  ca_attempts :: int
  ca_attemptTimeoutMillis :: int
  ca_initialBackoffMillis :: int
  ca_maxBackoffMillis :: int
  ca_failureRCodes :: "int list"

record circuit =
  c_name :: string
  c_consecutiveFailures :: int
  c_backoffStep :: nat
  c_retryAt :: instant
  c_probing :: bool
  c_failureThreshold :: int
  c_initialBackoff :: duration
  c_maxBackoff :: duration
  c_stateGauge :: nat
  c_backoffGauge :: rat
  c_failureCounter :: nat
  c_bypassCounter :: nat
  c_jitter :: "nat \<Rightarrow> duration \<Rightarrow> duration \<Rightarrow> duration"

section \<open>Delays\<close>

definition exponentialDelay :: "duration \<Rightarrow> duration \<Rightarrow> nat \<Rightarrow> duration" where
  "exponentialDelay initial maximum step = doubling_loop 1 step initial maximum"

definition jitterDelay :: "nat \<Rightarrow> duration \<Rightarrow> duration \<Rightarrow> duration" where
  "jitterDelay seed nominal maximum =
     (if nominal \<le> 0 then 0
      else let spread = nominal div 5
           in if spread = 0 then nominal
              else let delay = wrap64 (nominal - spread + int63n seed (2 * spread + 1))
                   in if maximum < delay then maximum else delay)"

section \<open>The circuit\<close>

definition circuit_acquire :: "instant \<Rightarrow> circuit \<Rightarrow> circuit \<times> permit option" where
  "circuit_acquire now c =
     (if c_backoffStep c = 0 then (c, Some \<lparr>probe = False\<rparr>)
      else if now < c_retryAt c \<or> c_probing c
      then (c\<lparr>c_bypassCounter := Suc (c_bypassCounter c)\<rparr>, None)
      else (c\<lparr>c_probing := True, c_stateGauge := 2, c_backoffGauge := 0\<rparr>, Some \<lparr>probe = True\<rparr>))"

definition circuit_succeed :: "circuit \<Rightarrow> circuit" where
  "circuit_succeed c =
     c\<lparr>c_consecutiveFailures := 0, c_backoffStep := 0, c_retryAt := zero_time, c_probing := False,
       c_stateGauge := 0, c_backoffGauge := 0\<rparr>"

text \<open>The common tail of \<^verbatim>\<open>fail\<close>, reached once the step has been set.\<close>

definition circuit_open :: "instant \<Rightarrow> nat \<Rightarrow> circuit \<Rightarrow> circuit" where
  "circuit_open now seed c =
     (let nominal = exponentialDelay (c_initialBackoff c) (c_maxBackoff c) (c_backoffStep c);
          delay = c_jitter c seed nominal (c_maxBackoff c)
      in c\<lparr>c_probing := False, c_retryAt := now + delay, c_stateGauge := 1,
           c_backoffGauge := seconds delay\<rparr>)"

definition circuit_fail :: "permit \<Rightarrow> instant \<Rightarrow> nat \<Rightarrow> circuit \<Rightarrow> circuit" where
  "circuit_fail p now seed c0 =
     (let c = c0\<lparr>c_failureCounter := Suc (c_failureCounter c0)\<rparr>
      in if c_backoffStep c = 0 then
           if probe p then c
           else let c = c\<lparr>c_consecutiveFailures := c_consecutiveFailures c + 1\<rparr>
                in if c_consecutiveFailures c < c_failureThreshold c then c
                   else circuit_open now seed (c\<lparr>c_backoffStep := 1\<rparr>)
         else if \<not> probe p \<or> \<not> c_probing c then c
         else circuit_open now seed (c\<lparr>c_backoffStep := Suc (c_backoffStep c)\<rparr>))"

section \<open>The plugin\<close>

text \<open>The query context of MosDNS, as far as the plugin uses it: the question and the response.\<close>

record qctx =
  qc_query :: dns_msg
  qc_resp :: "dns_msg option"

record plugin =
  p_circuit :: circuit
  p_attempts :: int
  p_attemptTimeout :: duration
  p_failureRCodes :: "int set"

text \<open>
  What ends the \<^verbatim>\<open>select\<close> of one attempt: the primary executable returned (its effect
  on the private copy of the context and its error), the attempt timer fired, or the request
  context was done with the given cause.  An attempt also carries the time it took and, read after
  it, the cause of the request context if that is done.
\<close>

datatype wakeup =
    Returned "qctx \<Rightarrow> qctx \<times> goerr option"
  | TimerFired
  | CtxDone goerr

record attempt =
  at_wakeup :: wakeup
  at_elapsed :: duration
  at_ctx_cause :: "goerr option"

definition attemptOnce :: "qctx \<Rightarrow> attempt \<Rightarrow> dns_msg option \<times> goerr option" where
  "attemptOnce q a =
     (case at_wakeup a of
        Returned primary \<Rightarrow> (let (attemptCtx, err) = primary q in (qc_resp attemptCtx, err))
      | TimerFired \<Rightarrow> (None, Some errAttemptTimeout)
      | CtxDone cause \<Rightarrow> (None, Some cause))"

datatype verdict =
    Answered dns_msg
  | Cancelled goerr
  | Failed "goerr option"

text \<open>The attempt loop of \<^verbatim>\<open>Exec\<close>: the verdict and the number of attempts made.\<close>

fun exec_loop ::
  "(int \<Rightarrow> string) \<Rightarrow> int set \<Rightarrow> qctx \<Rightarrow> (nat \<Rightarrow> attempt) \<Rightarrow> nat \<Rightarrow> nat \<Rightarrow> goerr option \<Rightarrow> verdict \<times> nat" where
  "exec_loop rcode_name codes q env k 0 err = (Failed err, k)"
| "exec_loop rcode_name codes q env k (Suc n) err =
     (case attemptOnce q (env k) of
        (Some response, None) \<Rightarrow>
          (if m_rcode response \<notin> codes then (Answered response, Suc k)
           else (Failed (Some (error_new (''upstream DNS rcode '' @ rcode_name (m_rcode response)))),
                 Suc k))
      | (_, err') \<Rightarrow>
          (case at_ctx_cause (env k) of
             Some cause \<Rightarrow> (Cancelled cause, Suc k)
           | None \<Rightarrow>
               exec_loop rcode_name codes q env (Suc k) n
                 (case err' of None \<Rightarrow> Some errNoResponse | Some e \<Rightarrow> Some e)))"

definition exec_attempts :: "plugin \<Rightarrow> nat" where
  "exec_attempts p = (if p_attempts p \<le> 0 then 1 else nat (p_attempts p))"

definition exec_elapsed :: "(nat \<Rightarrow> attempt) \<Rightarrow> nat \<Rightarrow> duration" where
  "exec_elapsed env n = (\<Sum>k<n. at_elapsed (env k))"

text \<open>
  \<^verbatim>\<open>Exec\<close> holds the circuit's mutex twice, in \<^verbatim>\<open>acquire\<close> and in the final report;
  \<open>others\<close> is what the other goroutines do to the circuit in between.
\<close>

definition circuit_Exec ::
  "(int \<Rightarrow> string) \<Rightarrow> plugin \<Rightarrow> instant \<Rightarrow> (nat \<Rightarrow> attempt) \<Rightarrow> (circuit \<Rightarrow> circuit) \<Rightarrow> nat \<Rightarrow> qctx
    \<Rightarrow> circuit \<times> qctx \<times> goerr option" where
  "circuit_Exec rcode_name p now env others seed q =
     (case circuit_acquire now (p_circuit p) of
        (c, None) \<Rightarrow> (c, q\<lparr>qc_resp := None\<rparr>, Some errCircuitOpen)
      | (c, Some prm) \<Rightarrow>
          (case exec_loop rcode_name (p_failureRCodes p) q env 0 (exec_attempts p) None of
             (Answered response, n) \<Rightarrow>
               (circuit_succeed (others c), q\<lparr>qc_resp := Some response\<rparr>, None)
           | (Cancelled cause, n) \<Rightarrow> (others c, q\<lparr>qc_resp := None\<rparr>, Some cause)
           | (Failed err, n) \<Rightarrow>
               (circuit_fail prm (now + exec_elapsed env n) seed (others c),
                q\<lparr>qc_resp := None\<rparr>, err)))"

section \<open>Construction and shutdown\<close>

text \<open>
  The primary executable and the metrics registry are third-party: the lookup result and the
  registry's \<open>register\<close> and \<open>unregister\<close> are parameters.
\<close>

datatype collector = StateGauge string | BackoffGauge string | FailureCounter string | BypassCounter string

definition circuit_collectors :: "string \<Rightarrow> collector list" where
  "circuit_collectors tag = [StateGauge tag, BackoffGauge tag, FailureCounter tag, BypassCounter tag]"

fun register_all ::
  "('r \<Rightarrow> collector \<Rightarrow> 'r \<times> goerr option) \<Rightarrow> collector list \<Rightarrow> 'r \<Rightarrow> 'r \<times> goerr option" where
  "register_all register [] reg = (reg, None)"
| "register_all register (c # cs) reg =
     (case register reg c of
        (reg', Some e) \<Rightarrow> (reg', Some (error_wrap ''register circuit metrics'' e))
      | (reg', None) \<Rightarrow> register_all register cs reg')"

definition millis :: "int \<Rightarrow> duration" where
  "millis n = wrap64 (n * millisecond)"

definition circuit_initPlugin ::
  "('r \<Rightarrow> collector \<Rightarrow> 'r \<times> goerr option) \<Rightarrow> string \<Rightarrow> bool \<Rightarrow> circuit_args \<Rightarrow> 'r
    \<Rightarrow> 'r \<times> (goerr + plugin)" where
  "circuit_initPlugin register tag primary_found args reg =
     (if \<not> primary_found then
        (reg, Inl (error_new (''primary executable '' @ go_quote (ca_primary args) @ '' was not found'')))
      else
        let threshold = (if ca_failureThreshold args \<le> 0 then 2 else ca_failureThreshold args);
            attempts = (if ca_attempts args \<le> 0 then 1 else ca_attempts args);
            attemptTimeout = (let d = millis (ca_attemptTimeoutMillis args) in if d \<le> 0 then second else d);
            initial = (let d = millis (ca_initialBackoffMillis args) in if d \<le> 0 then second else d);
            maximum = (let d = millis (ca_maxBackoffMillis args) in if d < initial then 5 * minute else d)
        in case register_all register (circuit_collectors tag) reg of
             (reg', Some e) \<Rightarrow> (reg', Inl e)
           | (reg', None) \<Rightarrow>
               (reg', Inr \<lparr>p_circuit = \<lparr>c_name = tag, c_consecutiveFailures = 0, c_backoffStep = 0,
                    c_retryAt = zero_time, c_probing = False, c_failureThreshold = threshold,
                    c_initialBackoff = initial, c_maxBackoff = maximum, c_stateGauge = 0,
                    c_backoffGauge = 0, c_failureCounter = 0, c_bypassCounter = 0,
                    c_jitter = jitterDelay\<rparr>,
                  p_attempts = attempts, p_attemptTimeout = attemptTimeout,
                  p_failureRCodes = set (ca_failureRCodes args)\<rparr>))"

definition circuit_Close :: "('r \<Rightarrow> collector \<Rightarrow> 'r) \<Rightarrow> string \<Rightarrow> 'r \<Rightarrow> 'r" where
  "circuit_Close unregister tag reg = fold (\<lambda>c r. unregister r c) (circuit_collectors tag) reg"

section \<open>Representation invariant and the abstract breaker\<close>

definition circuit_ok :: "circuit \<Rightarrow> bool" where
  "circuit_ok c \<longleftrightarrow>
     0 \<le> c_consecutiveFailures c \<and> 0 < c_failureThreshold c \<and>
     (c_backoffStep c = 0 \<longrightarrow>
        c_consecutiveFailures c < c_failureThreshold c \<and> \<not> c_probing c \<and>
        c_stateGauge c = 0 \<and> c_backoffGauge c = 0) \<and>
     (0 < c_backoffStep c \<longrightarrow> c_stateGauge c = (if c_probing c then 2 else 1)) \<and>
     (c_probing c \<longrightarrow> c_backoffGauge c = 0)"

definition circuit_view :: "circuit \<Rightarrow> phase" where
  "circuit_view c =
     (if c_backoffStep c = 0 then Closed (nat (c_consecutiveFailures c))
      else if c_probing c then HalfOpen (c_retryAt c) else Open (c_retryAt c))"

definition circuit_until :: "instant \<Rightarrow> nat \<Rightarrow> circuit \<Rightarrow> instant" where
  "circuit_until now seed c =
     now + c_jitter c seed
       (exponentialDelay (c_initialBackoff c) (c_maxBackoff c) (Suc (c_backoffStep c)))
       (c_maxBackoff c)"

lemmas circuit_defs = circuit_acquire_def circuit_succeed_def circuit_fail_def circuit_open_def
  circuit_ok_def circuit_view_def circuit_until_def Let_def

interpretation circuit_breaker: breaker circuit_acquire circuit_succeed circuit_fail circuit_view
  circuit_ok "\<lambda>c. nat (c_failureThreshold c)" False circuit_until
proof
  fix c c' r now p seed
  assume ok: "circuit_ok c"
  show "circuit_view (circuit_succeed c) = succeed_spec (circuit_view c)"
    by (simp add: circuit_defs)
  show "circuit_ok (circuit_succeed c)" using ok by (auto simp: circuit_defs)
  show "circuit_ok (circuit_fail p now seed c)"
    using ok by (simp add: circuit_defs split: if_splits)
  show "circuit_view (circuit_fail p now seed c)
    = fail_spec (nat (c_failureThreshold c)) False p (circuit_until now seed c) (circuit_view c)"
  proof (cases "c_backoffStep c = 0")
    case True
    then have "(Suc (nat (c_consecutiveFailures c)) < nat (c_failureThreshold c))
        = (c_consecutiveFailures c + 1 < c_failureThreshold c)"
      using ok by (auto simp: circuit_ok_def)
    then show ?thesis using True ok by (auto simp: circuit_defs nat_add_distrib)
  next
    case False
    then show ?thesis by (simp add: circuit_defs)
  qed
  assume acq: "circuit_acquire now c = (c', r)"
  show "acquire_spec now (circuit_view c) = (circuit_view c', r)"
    using acq by (auto simp: circuit_defs split: if_splits)
  show "circuit_ok c'" using acq ok by (auto simp: circuit_defs split: if_splits)
next
  fix p now seed c
  show "nat (c_failureThreshold (fst (circuit_acquire now c))) = nat (c_failureThreshold c)"
    by (simp add: circuit_defs)
  show "nat (c_failureThreshold (circuit_fail p now seed c)) = nat (c_failureThreshold c)"
    by (simp add: circuit_defs)
qed

section \<open>Backoff of the circuit\<close>

lemma jitterDelay_eq:
  assumes "5 \<le> nominal" "nominal \<le> 2 ^ 61"
  shows "jitterDelay seed nominal maximum = min maximum (spread_draw seed nominal)"
proof -
  have d: "nominal div 5 \<noteq> 0" using assms by (simp add: zdiv_eq_0_iff)
  have "wrap64 (spread_draw seed nominal) = spread_draw seed nominal"
    using spread_draw_bounds [of nominal seed] assms by (intro wrap64_id) auto
  with assms d show ?thesis by (simp add: jitterDelay_def spread_draw_def Let_def min_def)
qed

lemma circuit_backoff_policy:
  assumes "5 \<le> initial" "initial \<le> maximum" "maximum \<le> 2 ^ 61"
  shows "backoff_policy
    (\<lambda>seed step. jitterDelay seed (exponentialDelay initial maximum step) maximum) initial maximum"
proof (rule clipped_draw_policy)
  fix seed step
  have "5 \<le> doubling_loop 1 step initial maximum"
    using assms doubling_loop_bounds(1) [of initial maximum 1 step] by simp
  moreover have "doubling_loop 1 step initial maximum \<le> 2 ^ 61"
    using assms doubling_loop_bounds(2) [of initial maximum 1 step] by simp
  ultimately show "jitterDelay seed (exponentialDelay initial maximum step) maximum
      = min maximum (spread_draw seed (doubling_loop 1 step initial maximum))"
    by (simp add: exponentialDelay_def jitterDelay_eq)
qed (use assms in auto)

text \<open>The shipped configuration: one second doubling to thirty seconds.\<close>

interpretation auto_forward_backoff: backoff_policy
  "\<lambda>seed step. jitterDelay seed (exponentialDelay second (30 * second) step) (30 * second)"
  second "30 * second"
  by (rule circuit_backoff_policy) (simp_all add: second_def)

section \<open>The attempt loop\<close>

lemma exec_loop_count:
  "exec_loop rn codes q env k n err = (v, m) \<Longrightarrow> k \<le> m \<and> m \<le> k + n"
proof (induction n arbitrary: k err)
  case (Suc n)
  then show ?case
    by (fastforce split: prod.splits option.splits if_splits)
qed auto

declare exec_loop.simps(2) [simp del]

text \<open>A lost attempt produced no usable response.  Lost attempts of a request that is still wanted
  are skipped one after the other; the error kept is that of the last one.\<close>

definition lost :: "qctx \<Rightarrow> attempt \<Rightarrow> bool" where
  "lost q a \<longleftrightarrow> (\<forall>r. attemptOnce q a \<noteq> (Some r, None))"

definition skipped :: "qctx \<Rightarrow> (nat \<Rightarrow> attempt) \<Rightarrow> nat \<Rightarrow> bool" where
  "skipped q env i \<longleftrightarrow> (\<forall>j<i. lost q (env j) \<and> at_ctx_cause (env j) = None)"

definition attempt_error :: "qctx \<Rightarrow> attempt \<Rightarrow> goerr" where
  "attempt_error q a = (case snd (attemptOnce q a) of None \<Rightarrow> errNoResponse | Some e \<Rightarrow> e)"

lemma exec_loop_lost:
  assumes "lost q (env k)"
  shows "exec_loop rn codes q env k (Suc n) err =
    (case at_ctx_cause (env k) of
       Some cause \<Rightarrow> (Cancelled cause, Suc k)
     | None \<Rightarrow> exec_loop rn codes q env (Suc k) n (Some (attempt_error q (env k))))"
  using assms
  by (auto simp: lost_def attempt_error_def exec_loop.simps(2) split: prod.splits option.splits)

lemma exec_loop_skip:
  assumes "skipped q env i" "i \<le> n"
  shows "exec_loop rn codes q env 0 n err
    = exec_loop rn codes q env i (n - i) (if i = 0 then err else Some (attempt_error q (env (i - 1))))"
  using assms
proof (induction i)
  case (Suc i)
  then have "n - i = Suc (n - Suc i)" "lost q (env i)" "at_ctx_cause (env i) = None"
    by (auto simp: skipped_def)
  moreover have "skipped q env i" using Suc.prems(1) by (auto simp: skipped_def)
  ultimately show ?case using Suc by (simp add: exec_loop_lost)
qed simp

lemma exec_attempts_pos: "0 < exec_attempts p"
  by (simp add: exec_attempts_def)

text \<open>Every run of the loop is one of three: exhausted, answered at some attempt, or cancelled.\<close>

lemma exec_loop_cases:
  obtains (exhausted) "skipped q env n"
  | (answered) i r where "i < n" "skipped q env i" "attemptOnce q (env i) = (Some r, None)"
  | (cancelled) i cause where "i < n" "skipped q env i" "lost q (env i)" "at_ctx_cause (env i) = Some cause"
proof (cases "skipped q env n")
  case False
  define i where "i = (LEAST i. \<not> (lost q (env i) \<and> at_ctx_cause (env i) = None))"
  from False obtain j where j: "j < n" "\<not> (lost q (env j) \<and> at_ctx_cause (env j) = None)"
    by (auto simp: skipped_def)
  have bad: "\<not> (lost q (env i) \<and> at_ctx_cause (env i) = None)"
    unfolding i_def using j(2) by (rule LeastI)
  have "i \<le> j" unfolding i_def using j(2) by (rule Least_le)
  with j(1) have "i < n" by simp
  have sk: "skipped q env i" unfolding skipped_def i_def using not_less_Least by blast
  show ?thesis
  proof (cases "lost q (env i)")
    case True
    with bad obtain cause where "at_ctx_cause (env i) = Some cause" by auto
    with True \<open>i < n\<close> sk cancelled show ?thesis by blast
  next
    case l: False
    then obtain r where "attemptOnce q (env i) = (Some r, None)" by (auto simp: lost_def)
    with \<open>i < n\<close> sk answered show ?thesis by blast
  qed
qed (use exhausted in blast)

lemma exec_loop_exhausted:
  assumes "skipped q env n" "0 < n"
  shows "exec_loop rn codes q env 0 n err = (Failed (Some (attempt_error q (env (n - 1)))), n)"
  using exec_loop_skip [OF assms(1), of n] assms(2) by simp

lemma exec_loop_answered:
  assumes "i < n" "skipped q env i" "attemptOnce q (env i) = (Some r, None)"
  shows "exec_loop rn codes q env 0 n err =
    (if m_rcode r \<notin> codes then Answered r
     else Failed (Some (error_new (''upstream DNS rcode '' @ rn (m_rcode r)))), Suc i)"
proof -
  from assms(1) have "n - i = Suc (n - Suc i)" by simp
  then show ?thesis
    using exec_loop_skip [OF assms(2), of n] assms by (simp add: exec_loop.simps(2))
qed

lemma exec_loop_cancelled:
  assumes "i < n" "skipped q env i" "lost q (env i)" "at_ctx_cause (env i) = Some cause"
  shows "exec_loop rn codes q env 0 n err = (Cancelled cause, Suc i)"
proof -
  from assms(1) have "n - i = Suc (n - Suc i)" by simp
  then show ?thesis
    using exec_loop_skip [OF assms(2), of n] assms by (simp add: exec_loop_lost)
qed

lemmas exec_loop_results = exec_loop_exhausted exec_loop_answered exec_loop_cancelled

section \<open>Circuits as the plugin builds them\<close>

lemma initPlugin_circuit:
  assumes "circuit_initPlugin register tag found args reg = (reg', Inr p)"
  shows "circuit_ok (p_circuit p)" "circuit_view (p_circuit p) = Closed 0"
    and "c_jitter (p_circuit p) = jitterDelay" "0 < p_attempts p" "0 < p_attemptTimeout p"
    and "0 < c_initialBackoff (p_circuit p)"
  using assms
  by (auto simp: circuit_initPlugin_def circuit_ok_def circuit_view_def Let_def second_def
      split: if_splits prod.splits option.splits)

text \<open>The arguments of the shipped \<^verbatim>\<open>auto_forward_circuit\<close> (config/foreign-mihomo.yaml.tmpl).\<close>

definition shipped_args :: circuit_args where
  "shipped_args = \<lparr>ca_primary = ''forward_auto_raw'', ca_failureThreshold = 5, ca_attempts = 2,
     ca_attemptTimeoutMillis = 800, ca_initialBackoffMillis = 1000, ca_maxBackoffMillis = 30000,
     ca_failureRCodes = [2, 5]\<rparr>"

definition shipped_circuit :: "string \<Rightarrow> circuit" where
  "shipped_circuit tag = \<lparr>c_name = tag, c_consecutiveFailures = 0, c_backoffStep = 0,
     c_retryAt = zero_time, c_probing = False, c_failureThreshold = 5,
     c_initialBackoff = second, c_maxBackoff = 30 * second, c_stateGauge = 0, c_backoffGauge = 0,
     c_failureCounter = 0, c_bypassCounter = 0, c_jitter = jitterDelay\<rparr>"

definition shipped_plugin :: "string \<Rightarrow> plugin" where
  "shipped_plugin tag = \<lparr>p_circuit = shipped_circuit tag, p_attempts = 2,
     p_attemptTimeout = 800 * millisecond, p_failureRCodes = {2, 5}\<rparr>"

lemma shipped_init:
  "circuit_initPlugin (\<lambda>r c. (c # r, None)) tag True shipped_args []
     = (rev (circuit_collectors tag), Inr (shipped_plugin tag))"
  by (simp add: circuit_initPlugin_def shipped_args_def shipped_plugin_def shipped_circuit_def
      circuit_collectors_def millis_def second_def millisecond_def)

lemma shipped_ok [simp]: "circuit_ok (shipped_circuit tag)" "circuit_view (shipped_circuit tag) = Closed 0"
  by (auto simp: circuit_ok_def circuit_view_def shipped_circuit_def)

lemma circuit_opening:
  assumes "circuit_ok c" "\<forall>t. circuit_view c \<noteq> Open t"
    and "circuit_view (circuit_fail p now seed c) = Open t"
  shows "t = circuit_until now seed c" "c_retryAt (circuit_fail p now seed c) = t"
    and "c_backoffGauge (circuit_fail p now seed c) = seconds (t - now)"
  using assms by (auto simp: circuit_defs split: if_splits)

section \<open>Properties\<close>

text \<open>
  Property C1.  Refinement: on every well-formed circuit the three locked methods of the source
  behave as the abstract half-open breaker with the configured threshold, in which a failure
  reported by a probe that finds the circuit closed does not count.
\<close>

theorem circuit_refines_breaker:
  assumes "circuit_ok c"
  shows "map_prod circuit_view id (circuit_acquire now c) = acquire_spec now (circuit_view c)
    \<and> circuit_view (circuit_succeed c) = Closed 0
    \<and> circuit_view (circuit_fail p now seed c)
      = fail_spec (nat (c_failureThreshold c)) False p (circuit_until now seed c) (circuit_view c)"
  using circuit_breaker.acquire_view [OF assms, of now "fst (circuit_acquire now c)" "snd (circuit_acquire now c)"]
    circuit_breaker.succeed_view [OF assms] circuit_breaker.fail_view [OF assms]
  by (simp add: map_prod_def split: prod.splits)

theorem circuit_refines_breaker_witness:
  "circuit_view (circuit_fail \<lparr>probe = False\<rparr> 7 0 (shipped_circuit ''auto'')) = Closed 1"
  using circuit_refines_breaker [of "shipped_circuit ''auto''" 7 "\<lparr>probe = False\<rparr>" 0]
  by simp (simp add: shipped_circuit_def)

text \<open>
  Property C15.  In every state that any interleaving of concurrent queries (granted, refused,
  answered, failed or cancelled) reaches from a freshly built plugin, the exported state gauge is
  exactly the state of the circuit: 0 closed, 1 open, 2 half-open; a closed circuit is below its
  failure threshold and has no probe.
\<close>

theorem circuit_gauge_reachable:
  assumes "circuit_initPlugin register tag found args reg = (reg', Inr p)"
    and "breaker_reach True circuit_acquire circuit_succeed circuit_fail
      (breaker_start t0 (p_circuit p)) s"
  shows "c_stateGauge (brk s)
      = (case circuit_view (brk s) of Closed _ \<Rightarrow> 0 | Open _ \<Rightarrow> 1 | HalfOpen _ \<Rightarrow> 2)
    \<and> (c_backoffStep (brk s) = 0 \<longrightarrow>
         c_consecutiveFailures (brk s) < c_failureThreshold (brk s) \<and> \<not> c_probing (brk s))"
proof -
  have "circuit_ok (brk s)"
    using circuit_breaker.breach_ok [OF assms(2)] initPlugin_circuit(1) [OF assms(1)]
    by (simp add: breaker_start_def)
  then show ?thesis by (auto simp: circuit_ok_def circuit_view_def)
qed

theorem circuit_gauge_reachable_witness:
  "c_stateGauge (shipped_circuit ''auto'') = 0"
proof -
  have "breaker_reach True circuit_acquire circuit_succeed circuit_fail
      (breaker_start 0 (p_circuit (shipped_plugin ''auto'')))
      (breaker_start 0 (p_circuit (shipped_plugin ''auto'')))"
    by (rule reach_here)
  from circuit_gauge_reachable [OF shipped_init this] show ?thesis
    by (simp add: breaker_start_def shipped_plugin_def)
qed

text \<open>
  A closed circuit with no recorded failure stays closed through fewer consecutive
  failures than its threshold, and the failure that reaches the threshold opens it until the
  jittered retry instant.
\<close>

lemma circuit_opens_at_threshold:
  assumes "circuit_ok c" "circuit_view c = Closed 0" "length reports < nat (c_failureThreshold c)"
  shows "circuit_view (failure_run circuit_fail reports c) = Closed (length reports)
    \<and> (length reports + 1 = nat (c_failureThreshold c) \<longrightarrow>
        circuit_view (circuit_fail \<lparr>probe = False\<rparr> now seed (failure_run circuit_fail reports c))
          = Open (circuit_until now seed (failure_run circuit_fail reports c)))"
  using circuit_breaker.plain_failures [OF assms(1,2), of reports]
    circuit_breaker.plain_failures_open [OF assms(1,2), of reports now seed] assms(3)
  by simp

lemma circuit_opens_at_threshold_sample:
  "circuit_view (failure_run circuit_fail [(1, 0), (2, 0), (3, 0), (4, 0)] (shipped_circuit ''auto''))
     = Closed 4"
  using circuit_opens_at_threshold
    [of "shipped_circuit ''auto''" "[(1, 0), (2, 0), (3, 0), (4, 0)]", OF shipped_ok]
  by (simp add: shipped_circuit_def)

text \<open>
  Property C24.  When a failure opens the circuit at backoff step \<open>n\<close>, the wait is at least four
  fifths of the doubled and capped nominal delay, never above the configured maximum, and the
  backoff gauge shows exactly this wait.
\<close>

theorem circuit_retry_window:
  assumes "circuit_ok c" "\<forall>t. circuit_view c \<noteq> Open t"
    and "circuit_view (circuit_fail p now seed c) = Open t"
    and "c_jitter c = jitterDelay" "5 \<le> c_initialBackoff c"
    and "c_initialBackoff c \<le> c_maxBackoff c" "c_maxBackoff c \<le> 2 ^ 61"
  shows "4 * min (c_maxBackoff c) (c_initialBackoff c * 2 ^ c_backoffStep c) \<le> 5 * (t - now)
    \<and> t - now \<le> c_maxBackoff c
    \<and> c_backoffGauge (circuit_fail p now seed c) = seconds (t - now)"
proof -
  note policy = circuit_backoff_policy [OF assms(5-7)]
  show ?thesis
    using circuit_opening [OF assms(1-3)] assms(4)
      backoff_policy.delay_low [OF policy, of "Suc (c_backoffStep c)" seed]
      backoff_policy.delay_cap [OF policy, of seed "Suc (c_backoffStep c)"]
    by (simp add: circuit_until_def)
qed

theorem circuit_retry_window_witness:
  "let c = failure_run circuit_fail [(1, 0), (2, 0), (3, 0), (4, 0)] (shipped_circuit ''auto'');
       t = c_retryAt (circuit_fail \<lparr>probe = False\<rparr> 5 0 c)
   in 4 * second \<le> 5 * (t - 5) \<and> t - 5 \<le> 30 * second"
proof -
  define c where "c = failure_run circuit_fail [(1, 0), (2, 0), (3, 0), (4, 0)] (shipped_circuit ''auto'')"
  have c: "c = (shipped_circuit ''auto'')\<lparr>c_consecutiveFailures := 4, c_failureCounter := 4\<rparr>"
    by (simp add: c_def shipped_circuit_def circuit_fail_def)
  have v: "circuit_view (circuit_fail \<lparr>probe = False\<rparr> 5 0 c)
      = Open (c_retryAt (circuit_fail \<lparr>probe = False\<rparr> 5 0 c))"
    by (simp add: c shipped_circuit_def circuit_defs)
  have "4 * min (c_maxBackoff c) (c_initialBackoff c * 2 ^ c_backoffStep c)
      \<le> 5 * (c_retryAt (circuit_fail \<lparr>probe = False\<rparr> 5 0 c) - 5)
    \<and> c_retryAt (circuit_fail \<lparr>probe = False\<rparr> 5 0 c) - 5 \<le> c_maxBackoff c"
    using circuit_retry_window [of c "\<lparr>probe = False\<rparr>" 5 0, OF _ _ v]
    by (simp add: c shipped_circuit_def circuit_ok_def circuit_view_def second_def)
  then show ?thesis
    unfolding c_def [symmetric] by (simp add: c shipped_circuit_def second_def)
qed

text \<open>
  A request cancelled while it holds the probe permit returns without reporting to the
  circuit, so from every built plugin a state is reachable from which every query, at any later
  time and whatever the other queries do, is refused: the circuit never closes again.
\<close>

lemma circuit_abandoned_probe_wedges:
  assumes "circuit_initPlugin register tag found args reg = (reg', Inr p)"
  shows "\<exists>s. breaker_reach True circuit_acquire circuit_succeed circuit_fail
        (breaker_start t0 (p_circuit p)) s
    \<and> (\<forall>u now. breaker_reach True circuit_acquire circuit_succeed circuit_fail s u
         \<longrightarrow> snd (circuit_acquire now (brk u)) = None)"
  using circuit_breaker.wedge_reachable [OF initPlugin_circuit(1,2) [OF assms], of t0]
    circuit_breaker.breach_wedged initPlugin_circuit(1) [OF assms]
  by (metis circuit_ok_def zero_less_nat_eq)

lemma circuit_abandoned_probe_wedges_sample:
  "\<exists>s. breaker_reach True circuit_acquire circuit_succeed circuit_fail
        (breaker_start 0 (shipped_circuit ''auto'')) s
    \<and> snd (circuit_acquire (10 ^ 30) (brk s)) = None"
  using circuit_abandoned_probe_wedges [OF shipped_init [of "''auto''"], of 0]
  by (auto simp: shipped_plugin_def intro: reach_here)

text \<open>
  Property C14.  \<^verbatim>\<open>Exec\<close> is fail-closed towards its caller: it returns no error exactly
  when it leaves a response, that response was delivered without error by one of at most
  \<^verbatim>\<open>attempts\<close> attempts, its code is not a failure code, and the question is untouched.
\<close>

theorem circuit_Exec_fail_closed:
  assumes "circuit_Exec rn p now env others seed q = (c', q', e)"
  shows "(e = None \<longleftrightarrow> qc_resp q' \<noteq> None) \<and> qc_query q' = qc_query q
    \<and> (\<forall>r. qc_resp q' = Some r \<longrightarrow> m_rcode r \<notin> p_failureRCodes p
          \<and> (\<exists>i<exec_attempts p. attemptOnce q (env i) = (Some r, None)))"
proof (cases "snd (circuit_acquire now (p_circuit p))")
  case None
  with assms show ?thesis by (auto simp: circuit_Exec_def split: prod.splits option.splits)
next
  case (Some prm)
  then obtain c where acq: "circuit_acquire now (p_circuit p) = (c, Some prm)"
    by (cases "circuit_acquire now (p_circuit p)") auto
  show ?thesis
  proof (cases q env "exec_attempts p" rule: exec_loop_cases)
    case exhausted
    with assms acq show ?thesis
      by (auto simp: circuit_Exec_def exec_loop_exhausted exec_attempts_pos)
  next
    case (answered i r)
    with assms acq show ?thesis
      by (auto simp: circuit_Exec_def exec_loop_answered split: if_splits)
  next
    case (cancelled i cause)
    with assms acq show ?thesis by (auto simp: circuit_Exec_def exec_loop_cancelled)
  qed
qed

definition sample_query :: dns_msg where
  "sample_query = \<lparr>m_id = 7, m_response = False, m_rcode = 0, m_checking_disabled = False,
     m_edns = None, m_question = [\<lparr>q_name = ''example.com.'', q_type = 1\<rparr>], m_answer = []\<rparr>"

definition sample_answer :: dns_msg where
  "sample_answer = sample_query\<lparr>m_response := True, m_answer := [\<lparr>rr_type = 1, rr_addr = ''198.18.0.42''\<rparr>]\<rparr>"

text \<open>A first attempt that times out and a second one that answers.\<close>

definition sample_env :: "nat \<Rightarrow> attempt" where
  "sample_env k = (if k = 0
     then \<lparr>at_wakeup = TimerFired, at_elapsed = 800 * millisecond, at_ctx_cause = None\<rparr>
     else \<lparr>at_wakeup = Returned (\<lambda>q. (q\<lparr>qc_resp := Some sample_answer\<rparr>, None)),
            at_elapsed = 5 * millisecond, at_ctx_cause = None\<rparr>)"

definition sample_qctx :: qctx where
  "sample_qctx = \<lparr>qc_query = sample_query, qc_resp = None\<rparr>"

lemma sample_attempts [simp]:
  "attemptOnce sample_qctx (sample_env 0) = (None, Some errAttemptTimeout)"
  "attemptOnce sample_qctx (sample_env (Suc k)) = (Some sample_answer, None)"
  "m_rcode sample_answer = 0" "at_ctx_cause (sample_env k) = None"
  by (simp_all add: attemptOnce_def sample_env_def sample_answer_def sample_query_def)

lemma sample_exec:
  "circuit_Exec rn (shipped_plugin ''auto'') 0 sample_env id 0 sample_qctx
     = (circuit_succeed (shipped_circuit ''auto''), sample_qctx\<lparr>qc_resp := Some sample_answer\<rparr>, None)"
  by (simp add: circuit_Exec_def exec_attempts_def shipped_plugin_def shipped_circuit_def
      circuit_acquire_def exec_loop.simps(2) eval_nat_numeral)

theorem circuit_Exec_fail_closed_witness:
  "m_rcode sample_answer \<notin> p_failureRCodes (shipped_plugin ''auto'')
    \<and> (\<exists>i<exec_attempts (shipped_plugin ''auto''). attemptOnce sample_qctx (sample_env i) = (Some sample_answer, None))"
  using circuit_Exec_fail_closed [OF sample_exec] by simp

text \<open>
  Property C25.  Retry: once a query holds a permit, attempts that were lost (timed out, errored or
  empty) while the client still waits are skipped, and the first attempt that delivers a response
  decides the query: an accepted code is returned and closes the circuit, a failure code is
  reported as one failure without any further attempt.
\<close>

theorem circuit_Exec_first_answer:
  assumes "circuit_acquire now (p_circuit p) = (c, Some prm)"
    and "i < exec_attempts p" "\<forall>j<i. lost q (env j) \<and> at_ctx_cause (env j) = None"
    and "attemptOnce q (env i) = (Some r, None)"
  shows "circuit_Exec rn p now env others seed q =
    (if m_rcode r \<notin> p_failureRCodes p
     then (circuit_succeed (others c), q\<lparr>qc_resp := Some r\<rparr>, None)
     else (circuit_fail prm (now + exec_elapsed env (Suc i)) seed (others c), q\<lparr>qc_resp := None\<rparr>,
           Some (error_new (''upstream DNS rcode '' @ rn (m_rcode r)))))"
  using exec_loop_answered [of i "exec_attempts p" q env r] assms
  by (simp add: circuit_Exec_def skipped_def)

theorem circuit_Exec_first_answer_witness:
  "circuit_Exec (\<lambda>_. ''NOERROR'') (shipped_plugin ''auto'') 0 sample_env id 0 sample_qctx
     = (circuit_succeed (shipped_circuit ''auto''), sample_qctx\<lparr>qc_resp := Some sample_answer\<rparr>, None)"
proof -
  have "circuit_acquire 0 (p_circuit (shipped_plugin ''auto'')) = (shipped_circuit ''auto'', Some \<lparr>probe = False\<rparr>)"
    by (simp add: circuit_acquire_def shipped_plugin_def shipped_circuit_def)
  moreover have "1 < exec_attempts (shipped_plugin ''auto'')"
    by (simp add: exec_attempts_def shipped_plugin_def)
  moreover have "\<forall>j<1. lost sample_qctx (sample_env j) \<and> at_ctx_cause (sample_env j) = None"
    by (simp add: lost_def)
  moreover have "attemptOnce sample_qctx (sample_env 1) = (Some sample_answer, None)"
    using sample_attempts(2) [of 0] by simp
  ultimately show ?thesis
    using circuit_Exec_first_answer [of 0 "shipped_plugin ''auto''" "shipped_circuit ''auto''" "\<lparr>probe = False\<rparr>" 1
        sample_qctx sample_env sample_answer "\<lambda>_. ''NOERROR''" id 0]
    by (simp add: shipped_plugin_def)
qed

text \<open>
  When every allowed attempt is lost and the client still waits, the query reports
  exactly one failure to the circuit, at the time the last attempt ended, and returns the error of
  the last attempt with no response.
\<close>

lemma circuit_Exec_exhausted:
  assumes "circuit_acquire now (p_circuit p) = (c, Some prm)"
    and "\<forall>j<exec_attempts p. lost q (env j) \<and> at_ctx_cause (env j) = None"
  shows "circuit_Exec rn p now env others seed q =
    (circuit_fail prm (now + exec_elapsed env (exec_attempts p)) seed (others c),
     q\<lparr>qc_resp := None\<rparr>, Some (attempt_error q (env (exec_attempts p - 1))))"
  using exec_loop_exhausted [of q env "exec_attempts p"] assms exec_attempts_pos [of p]
  by (simp add: circuit_Exec_def skipped_def)

definition timeout_env :: "nat \<Rightarrow> attempt" where
  "timeout_env k = \<lparr>at_wakeup = TimerFired, at_elapsed = 800 * millisecond, at_ctx_cause = None\<rparr>"

lemma circuit_Exec_exhausted_sample:
  "snd (snd (circuit_Exec (\<lambda>_. []) (shipped_plugin ''auto'') 0 timeout_env id 0 sample_qctx))
     = Some errAttemptTimeout"
proof -
  have "circuit_acquire 0 (p_circuit (shipped_plugin ''auto'')) = (shipped_circuit ''auto'', Some \<lparr>probe = False\<rparr>)"
    by (simp add: circuit_acquire_def shipped_plugin_def shipped_circuit_def)
  from circuit_Exec_exhausted [OF this, of sample_qctx timeout_env] show ?thesis
    by (simp add: lost_def attemptOnce_def timeout_env_def attempt_error_def)
qed

text \<open>
  Property C13.  A query that was granted the half-open probe and whose client goes away during it
  leaves the circuit half-open: every later query, whenever it arrives and whatever its attempts
  would do, is refused with \<^verbatim>\<open>errCircuitOpen\<close>.
\<close>

theorem circuit_Exec_cancelled_probe:
  assumes "0 < c_backoffStep (p_circuit p)" "\<not> c_probing (p_circuit p)" "c_retryAt (p_circuit p) \<le> now"
    and "i < exec_attempts p" "\<forall>j<i. lost q (env j) \<and> at_ctx_cause (env j) = None"
    and "lost q (env i)" "at_ctx_cause (env i) = Some cause"
  shows "\<exists>c'. circuit_Exec rn p now env id seed q = (c', q\<lparr>qc_resp := None\<rparr>, Some cause)
    \<and> (\<forall>rn' now' env' others' seed' q'.
         circuit_Exec rn' (p\<lparr>p_circuit := c'\<rparr>) now' env' others' seed' q'
           = (c'\<lparr>c_bypassCounter := Suc (c_bypassCounter c')\<rparr>, q'\<lparr>qc_resp := None\<rparr>, Some errCircuitOpen))"
proof -
  define c' where "c' = (p_circuit p)\<lparr>c_probing := True, c_stateGauge := 2, c_backoffGauge := 0\<rparr>"
  have "circuit_acquire now (p_circuit p) = (c', Some \<lparr>probe = True\<rparr>)"
    using assms(1-3) by (simp add: circuit_acquire_def c'_def)
  then have "circuit_Exec rn p now env id seed q = (c', q\<lparr>qc_resp := None\<rparr>, Some cause)"
    using exec_loop_cancelled [of i "exec_attempts p" q env cause] assms(4-)
    by (simp add: circuit_Exec_def skipped_def)
  moreover have "circuit_acquire t c' = (c'\<lparr>c_bypassCounter := Suc (c_bypassCounter c')\<rparr>, None)" for t
    using assms(1) by (simp add: circuit_acquire_def c'_def)
  ultimately show ?thesis by (auto simp: circuit_Exec_def)
qed

theorem circuit_Exec_cancelled_probe_witness:
  "let p = (shipped_plugin ''auto'')\<lparr>p_circuit := (shipped_circuit ''auto'')\<lparr>c_backoffStep := 1, c_stateGauge := 1\<rparr>\<rparr>;
       gone = (\<lambda>_. \<lparr>at_wakeup = CtxDone context_Canceled, at_elapsed = 0, at_ctx_cause = Some context_Canceled\<rparr>);
       c' = fst (circuit_Exec (\<lambda>_. []) p 0 gone id 0 sample_qctx)
   in snd (snd (circuit_Exec (\<lambda>_. []) (p\<lparr>p_circuit := c'\<rparr>) (10 ^ 30) sample_env id 0 sample_qctx)) = Some errCircuitOpen"
proof -
  define p where "p = (shipped_plugin ''auto'')\<lparr>p_circuit := (shipped_circuit ''auto'')\<lparr>c_backoffStep := 1, c_stateGauge := 1\<rparr>\<rparr>"
  define gone :: "nat \<Rightarrow> attempt" where
    "gone = (\<lambda>_. \<lparr>at_wakeup = CtxDone context_Canceled, at_elapsed = 0, at_ctx_cause = Some context_Canceled\<rparr>)"
  have "\<exists>c'. circuit_Exec (\<lambda>_. []) p 0 gone id 0 sample_qctx = (c', sample_qctx\<lparr>qc_resp := None\<rparr>, Some context_Canceled)
    \<and> (\<forall>rn' now' env' others' seed' q'. circuit_Exec rn' (p\<lparr>p_circuit := c'\<rparr>) now' env' others' seed' q'
         = (c'\<lparr>c_bypassCounter := Suc (c_bypassCounter c')\<rparr>, q'\<lparr>qc_resp := None\<rparr>, Some errCircuitOpen))"
    by (rule circuit_Exec_cancelled_probe [where i = 0])
      (auto simp: p_def gone_def shipped_plugin_def shipped_circuit_def exec_attempts_def lost_def
        attemptOnce_def zero_time_def)
  then show ?thesis
    unfolding p_def [symmetric] gone_def [symmetric] by (auto simp: Let_def)
qed

text \<open>
  Budget: with attempts no longer than the attempt timeout, a query spends at most
  \<^verbatim>\<open>attempts * attemptTimeout\<close> on the hop; with the shipped arguments this is below the
  two-second threshold at which the fallback plugin would start its standby branch.
\<close>

lemma circuit_Exec_budget:
  assumes "\<forall>k. at_elapsed (env k) \<le> p_attemptTimeout p" "0 \<le> p_attemptTimeout p"
    and "exec_loop rn (p_failureRCodes p) q env 0 (exec_attempts p) None = (v, n)"
  shows "exec_elapsed env n \<le> int (exec_attempts p) * p_attemptTimeout p
    \<and> (p = shipped_plugin tag \<longrightarrow> exec_elapsed env n < 2000 * millisecond)"
proof -
  have n: "n \<le> exec_attempts p" using exec_loop_count [OF assms(3)] by simp
  have "exec_elapsed env n \<le> (\<Sum>k<n. p_attemptTimeout p)"
    unfolding exec_elapsed_def by (intro sum_mono) (use assms(1) in auto)
  also have "\<dots> \<le> int (exec_attempts p) * p_attemptTimeout p"
    using n assms(2) by (simp add: mult_right_mono)
  finally have b: "exec_elapsed env n \<le> int (exec_attempts p) * p_attemptTimeout p" .
  then show ?thesis
    by (auto simp: shipped_plugin_def exec_attempts_def millisecond_def)
qed

lemma circuit_Exec_budget_sample:
  "exec_elapsed sample_env 2 < 2000 * millisecond"
proof -
  have "exec_loop (\<lambda>_. []) (p_failureRCodes (shipped_plugin ''auto'')) sample_qctx sample_env 0
      (exec_attempts (shipped_plugin ''auto'')) None = (Answered sample_answer, 2)"
    by (simp add: exec_attempts_def shipped_plugin_def exec_loop.simps(2) eval_nat_numeral)
  from circuit_Exec_budget [OF _ _ this, of "''auto''"] show ?thesis
    by (simp add: sample_env_def shipped_plugin_def millisecond_def)
qed

end
