(* ===== verification/DecisionPlugin.thy ===== *)
theory DecisionPlugin
  imports GoStrings Contracts
begin

text \<open>
  internal/decisionplugin/decision.go: the executable that counts a routing decision.  All instances
  share one counter vector in the metrics registry, which is modelled as far as it answers for this
  metric: absent, present as a counter vector, or taken by something else.
\<close>

text \<open>\<^verbatim>\<open>init\<close>\<close>

definition decision_register :: registration where
  "decision_register = MustRegExecQuickSetup ''guarddns_decision''"

datatype decision_registry =
    NoMetric
  | DecisionVector "string \<Rightarrow> nat"
  | ForeignMetric
  | RejectingRegistry goerr

text \<open>\<^verbatim>\<open>decisionCounter\<close>: registers the vector or reuses the registered one; a counter is its
  label.\<close>

definition decisionCounter :: "string \<Rightarrow> decision_registry \<Rightarrow> decision_registry \<times> (goerr + string)" where
  "decisionCounter decision reg =
     (case reg of
        NoMetric \<Rightarrow> (DecisionVector (\<lambda>_. 0), Inr decision)
      | DecisionVector v \<Rightarrow> (DecisionVector v, Inr decision)
      | ForeignMetric \<Rightarrow> (ForeignMetric, Inl (error_new ''guarddns decision metric has an incompatible collector''))
      | RejectingRegistry e \<Rightarrow> (RejectingRegistry e, Inl e))"

definition decision_quickSetup :: "string \<Rightarrow> decision_registry \<Rightarrow> decision_registry \<times> (goerr + string)" where
  "decision_quickSetup raw reg =
     (let decision = strings_TrimSpace raw
      in if decision = [] then (reg, Inl (error_new ''decision name is required''))
         else decisionCounter decision reg)"

definition decision_Exec :: "string \<Rightarrow> decision_registry \<Rightarrow> decision_registry" where
  "decision_Exec label reg =
     (case reg of DecisionVector v \<Rightarrow> DecisionVector (v(label := Suc (v label))) | _ \<Rightarrow> reg)"

definition decision_count :: "string \<Rightarrow> decision_registry \<Rightarrow> nat" where
  "decision_count label reg = (case reg of DecisionVector v \<Rightarrow> v label | _ \<Rightarrow> 0)"

text \<open>A configuration's plugins are set up one after the other, then executed in any order.\<close>

definition setup_all :: "string list \<Rightarrow> decision_registry \<Rightarrow> decision_registry" where
  "setup_all names reg = fold (\<lambda>raw r. fst (decision_quickSetup raw r)) names reg"

lemma decision_quickSetup_vector [simp]: "fst (decision_quickSetup raw (DecisionVector v)) = DecisionVector v"
  by (simp add: decision_quickSetup_def decisionCounter_def Let_def)

lemma setup_all_vector [simp]: "setup_all names (DecisionVector v) = DecisionVector v"
  by (induction names) (simp_all add: setup_all_def)

text \<open>The vector as a store: an execution is one update of its label.\<close>

definition vector_update :: "string \<Rightarrow> (nat \<Rightarrow> nat) \<Rightarrow> (string \<Rightarrow> nat) \<Rightarrow> string \<Rightarrow> nat" where
  "vector_update label f v = v(label := f (v label))"

interpretation decision_labels: keyed_store "\<lambda>label v. v label" vector_update
  by unfold_locales (simp_all add: vector_update_def)

lemma exec_is_update:
  "fold decision_Exec labels (DecisionVector v) = DecisionVector (run_updates vector_update (map (\<lambda>l. (l, Suc)) labels) v)"
  by (induction labels arbitrary: v) (simp_all add: decision_Exec_def vector_update_def)

lemma fold_Suc: "fold id (changes_of l (map (\<lambda>l. (l, Suc)) labels)) n = n + count_list labels l"
  by (induction labels arbitrary: n) simp_all

lemma exec_all_vector:
  "\<exists>v'. fold decision_Exec labels (DecisionVector v) = DecisionVector v' \<and> (\<forall>l. v' l = v l + count_list labels l)"
  unfolding exec_is_update by (simp add: decision_labels.get_run fold_Suc)

text \<open>
  However many plugins share a decision and in whatever order they are set up and run,
  each decision's counter is exactly the number of executions with that label; setting up a further
  plugin resets nothing.
\<close>

lemma decision_counts_shared:
  assumes "snd (decision_quickSetup raw NoMetric) = Inr label"
  shows "decision_count l (setup_all later (fold decision_Exec labels (setup_all others (fst (decision_quickSetup raw NoMetric)))))
    = count_list labels l"
proof -
  have "fst (decision_quickSetup raw NoMetric) = DecisionVector (\<lambda>_. 0)"
    using assms by (auto simp: decision_quickSetup_def decisionCounter_def Let_def split: if_splits)
  with exec_all_vector [of labels "\<lambda>_. 0"] show ?thesis by (auto simp: decision_count_def)
qed

lemma trimmed_sample: "strings_TrimSpace ''cn'' = ''cn''"
  by (rule strings_TrimSpace_id) (simp add: no_space_edges_def space_runes_def ascii_spaces_def suffix_def Cons_eq_append_conv)

lemma decision_counts_shared_sample:
  "decision_count ''cn'' (fold decision_Exec [''cn'', ''cn''] (fst (decision_quickSetup ''cn'' NoMetric))) = 2"
  using decision_counts_shared [of "''cn''" "''cn''" "''cn''" "[]" "[''cn'', ''cn'']" "[]"]
  by (simp add: setup_all_def) (simp add: decision_quickSetup_def trimmed_sample decisionCounter_def)

end
