(* ===== verification/CancelClassify.thy ===== *)
theory CancelClassify
  imports GoStrings
begin

text \<open>
  internal/cancelclassify/cancel.go: which errors count as a downstream client closing its
  connection.  \<^verbatim>\<open>errors.Is\<close> walks the tree of wrapped errors; the texts are compared in
  lower case.
\<close>

definition net_ErrClosed :: goerr where
  "net_ErrClosed = error_new ''use of closed network connection''"

fun errors_Is :: "goerr \<Rightarrow> goerr \<Rightarrow> bool" where
  "errors_Is (GoErr ident text wrapped) target \<longleftrightarrow>
     ident = err_ident target \<or> (\<exists>e\<in>set wrapped. errors_Is e target)"

definition expectedFragments :: "string list" where
  "expectedFragments = [''context canceled'', ''connection ctx canceled'', ''use of closed network connection'',
     ''broken pipe'', ''connection reset by peer'']"

definition Expected :: "(string \<Rightarrow> string) \<Rightarrow> goerr option \<Rightarrow> bool" where
  "Expected lower err =
     (case err of
        None \<Rightarrow> False
      | Some e \<Rightarrow>
          if errors_Is e context_Canceled \<or> errors_Is e net_ErrClosed then True
          else list_ex (strings_Contains (strings_ToLower lower (err_text e))) expectedFragments)"

section \<open>Lemmas\<close>

text \<open>One error unwraps to another; the tree of an error is what it reaches.\<close>

definition unwraps :: "goerr \<Rightarrow> goerr \<Rightarrow> bool" where
  "unwraps e w \<longleftrightarrow> w \<in> set (err_unwrap e)"

lemma errors_Is_reaches: "errors_Is e target \<Longrightarrow> \<exists>n. unwraps\<^sup>*\<^sup>* e n \<and> err_ident n = err_ident target"
proof (induction e target rule: errors_Is.induct)
  case (1 ident msg ws target)
  show ?case
  proof (cases "ident = err_ident target")
    case True
    then show ?thesis by (intro exI [of _ "GoErr ident msg ws"]) simp
  next
    case False
    with 1 obtain e n where "e \<in> set ws" "unwraps\<^sup>*\<^sup>* e n" "err_ident n = err_ident target" by force
    moreover have "unwraps (GoErr ident msg ws) e" using calculation by (simp add: unwraps_def)
    ultimately show ?thesis by (meson converse_rtranclp_into_rtranclp)
  qed
qed

lemma errors_Is_step: "unwraps e w \<Longrightarrow> errors_Is w target \<Longrightarrow> errors_Is e target"
  by (cases e) (auto simp: unwraps_def)

lemma errors_Is_ident: "err_ident e = err_ident target \<Longrightarrow> errors_Is e target"
  by (cases e) auto

lemma errors_Is_iff: "errors_Is e target \<longleftrightarrow> (\<exists>n. unwraps\<^sup>*\<^sup>* e n \<and> err_ident n = err_ident target)"
proof
  assume "\<exists>n. unwraps\<^sup>*\<^sup>* e n \<and> err_ident n = err_ident target"
  then obtain n where "unwraps\<^sup>*\<^sup>* e n" "err_ident n = err_ident target" by blast
  then show "errors_Is e target"
    by (induction rule: converse_rtranclp_induct) (auto intro: errors_Is_step errors_Is_ident)
qed (rule errors_Is_reaches)

text \<open>The text of an error holds a phrase in some letter case.\<close>

definition mentions :: "string \<Rightarrow> string \<Rightarrow> bool" where
  "mentions text phrase \<longleftrightarrow> (\<exists>before f after. text = before @ f @ after \<and> map ascii_lower f = phrase)"

lemma mentions_iff: "mentions text phrase \<longleftrightarrow> sublist phrase (map ascii_lower text)"
proof
  assume "mentions text phrase"
  then show "sublist phrase (map ascii_lower text)" by (auto simp: mentions_def)
next
  assume "sublist phrase (map ascii_lower text)"
  then obtain a b where "map ascii_lower text = a @ phrase @ b" by (auto simp: sublist_def)
  then show "mentions text phrase" unfolding mentions_def map_eq_append_conv by (metis map_eq_append_conv)
qed

lemma mentions_wrap: "mentions text phrase \<Longrightarrow> mentions (p @ text) phrase"
  unfolding mentions_def by (metis append_assoc)

lemma Expected_ascii:
  assumes "ascii (err_text e)"
  shows "Expected lower (Some e) \<longleftrightarrow> errors_Is e context_Canceled \<or> errors_Is e net_ErrClosed
    \<or> (\<exists>f\<in>set expectedFragments. mentions (err_text e) f)"
  using assms by (auto simp: Expected_def lower_ascii strings_Contains_iff list_ex_iff mentions_iff)

text \<open>An error wrapped any number of times, outermost prefix first.\<close>

definition wrapped :: "string list \<Rightarrow> goerr \<Rightarrow> goerr" where
  "wrapped ps e = foldr error_wrap ps e"

lemma error_wrap_props: "unwraps (error_wrap p e) e" "err_text (error_wrap p e) = p @ '': '' @ err_text e"
  by (simp_all add: error_wrap_def unwraps_def)

lemma wrapped_ascii: "\<forall>p\<in>set ps. ascii p \<Longrightarrow> ascii (err_text e) \<Longrightarrow> ascii (err_text (wrapped ps e))"
  by (induction ps) (simp_all add: wrapped_def error_wrap_props)

lemma Expected_wrap:
  assumes "ascii p" "ascii (err_text e)" "Expected lower (Some e)"
  shows "Expected lower (Some (error_wrap p e))"
proof -
  have a: "ascii (err_text (error_wrap p e))" using assms by (simp add: error_wrap_props)
  show ?thesis
    using assms(3) mentions_wrap [of "err_text e" _ "p @ '': ''"] errors_Is_step [OF error_wrap_props(1) [of p e]]
    unfolding Expected_ascii [OF assms(2)] Expected_ascii [OF a] error_wrap_props(2) by auto
qed

lemma Expected_wrapped:
  assumes "\<forall>p\<in>set ps. ascii p" "ascii (err_text e)" "Expected lower (Some e)"
  shows "Expected lower (Some (wrapped ps e))"
  using assms
proof (induction ps)
  case (Cons p ps)
  then have "ascii (err_text (wrapped ps e))" "Expected lower (Some (wrapped ps e))" using wrapped_ascii by simp_all
  with Expected_wrap [of p "wrapped ps e" lower] Cons.prems show ?case by (simp add: wrapped_def)
qed (simp add: wrapped_def)

section \<open>Properties\<close>



end
