(* ===== verification/RequestMetrics.thy ===== *)
theory RequestMetrics
  imports CancelClassify
begin

text \<open>
  internal/requestmetricsplugin/collector.go: the counters around the rest of the query chain.
  \<^verbatim>\<open>Exec\<close> is split at the call of the next plugin, where other queries may run; the metrics
  registry is a parameter.
\<close>

text \<open>\<^verbatim>\<open>init\<close>\<close>

definition request_register :: registration where
  "request_register = MustRegExecQuickSetup ''guarddns_metrics_collector''"

record request_collector =
  rc_queryTotal :: nat
  rc_errTotal :: nat
  rc_canceledTotal :: nat
  rc_thread :: int
  rc_latency :: "int list"

definition zero_collector :: request_collector where
  "zero_collector = \<lparr>rc_queryTotal = 0, rc_errTotal = 0, rc_canceledTotal = 0, rc_thread = 0, rc_latency = []\<rparr>"

datatype request_metric = QueryTotal | ErrTotal | CanceledTotal | ThreadGauge | ResponseLatency

definition request_metrics :: "request_metric list" where
  "request_metrics = [QueryTotal, ErrTotal, CanceledTotal, ThreadGauge, ResponseLatency]"

fun register_metrics ::
  "('r \<Rightarrow> string \<times> request_metric \<Rightarrow> 'r \<times> goerr option) \<Rightarrow> string \<Rightarrow> request_metric list \<Rightarrow> 'r \<Rightarrow> 'r \<times> goerr option" where
  "register_metrics register name [] reg = (reg, None)"
| "register_metrics register name (m # ms) reg =
     (case register reg (name, m) of
        (reg', Some e) \<Rightarrow> (reg', Some e)
      | (reg', None) \<Rightarrow> register_metrics register name ms reg')"

definition newCollector ::
  "('r \<Rightarrow> string \<times> request_metric \<Rightarrow> 'r \<times> goerr option) \<Rightarrow> string \<Rightarrow> 'r \<Rightarrow> 'r \<times> (goerr + request_collector)" where
  "newCollector register name reg =
     (if name = [] then (reg, Inl (error_new ''collector name is required''))
      else case register_metrics register name request_metrics reg of
          (reg', Some e) \<Rightarrow> (reg', Inl e)
        | (reg', None) \<Rightarrow> (reg', Inr zero_collector))"

text \<open>\<^verbatim>\<open>quickSetup\<close>: the registry is wrapped so that every metric name gets a prefix.\<close>

definition request_quickSetup ::
  "('r \<Rightarrow> string \<times> string \<times> request_metric \<Rightarrow> 'r \<times> goerr option) \<Rightarrow> string \<Rightarrow> 'r \<Rightarrow> 'r \<times> (goerr + request_collector)" where
  "request_quickSetup register name reg =
     newCollector (\<lambda>r (label, metric). register r (''metrics_collector_'', label, metric)) name reg"

definition exec_enter :: "request_collector \<Rightarrow> request_collector" where
  "exec_enter c = c\<lparr>rc_thread := rc_thread c + 1, rc_queryTotal := rc_queryTotal c + 1\<rparr>"

text \<open>After the next plugin returned: its error, whether the query has a response, and the time since
  the start in nanoseconds.\<close>

definition exec_leave :: "(string \<Rightarrow> string) \<Rightarrow> goerr option \<Rightarrow> bool \<Rightarrow> duration \<Rightarrow> request_collector \<Rightarrow> request_collector" where
  "exec_leave lower err has_response elapsed c =
     (let c1 = (if err = None then c
                else if Expected lower err then c\<lparr>rc_canceledTotal := rc_canceledTotal c + 1\<rparr>
                else c\<lparr>rc_errTotal := rc_errTotal c + 1\<rparr>);
          c2 = (if has_response then c1\<lparr>rc_latency := rc_latency c1 @ [elapsed div 1000000]\<rparr> else c1)
      in c2\<lparr>rc_thread := rc_thread c2 - 1\<rparr>)"

definition collector_Exec ::
  "(string \<Rightarrow> string) \<Rightarrow> (request_collector \<Rightarrow> request_collector) \<Rightarrow> goerr option \<Rightarrow> bool \<Rightarrow> duration
    \<Rightarrow> request_collector \<Rightarrow> request_collector \<times> goerr option" where
  "collector_Exec lower others err has_response elapsed c =
     (exec_leave lower err has_response elapsed (others (exec_enter c)), err)"

section \<open>Interleaved queries\<close>

datatype request_event = Enter | Leave "goerr option" bool duration

fun request_step :: "(string \<Rightarrow> string) \<Rightarrow> request_event \<Rightarrow> request_collector \<Rightarrow> request_collector" where
  "request_step lower Enter c = exec_enter c"
| "request_step lower (Leave err has_response elapsed) c = exec_leave lower err has_response elapsed c"

definition request_run :: "(string \<Rightarrow> string) \<Rightarrow> request_event list \<Rightarrow> request_collector" where
  "request_run lower evs = fold (request_step lower) evs zero_collector"

definition events_with :: "(request_event \<Rightarrow> bool) \<Rightarrow> request_event list \<Rightarrow> nat" where
  "events_with P evs = length (filter P evs)"

lemma events_with_simps [simp]:
  "events_with P [] = 0" "events_with P (evs @ [e]) = events_with P evs + (if P e then 1 else 0)"
  by (simp_all add: events_with_def)

text \<open>
  Property C36.  Over every interleaving of queries the counters are exact: the thread gauge is the
  number of queries inside the chain, every query is counted once on entry, and every one that left
  is counted in exactly one way: no error, a client cancellation, or an error; a latency is recorded
  exactly for those that have a response.
\<close>

theorem request_counters_exact:
  "let c = request_run lower evs; leaves = events_with (\<lambda>e. e \<noteq> Enter) evs in
     rc_queryTotal c = events_with (\<lambda>e. e = Enter) evs
     \<and> rc_thread c = int (rc_queryTotal c) - int leaves
     \<and> rc_canceledTotal c = events_with (\<lambda>e. \<exists>err r d. e = Leave err r d \<and> Expected lower err) evs
     \<and> rc_errTotal c + rc_canceledTotal c + events_with (\<lambda>e. \<exists>r d. e = Leave None r d) evs = leaves
     \<and> length (rc_latency c) = events_with (\<lambda>e. \<exists>err d. e = Leave err True d) evs"
proof (induction evs rule: rev_induct)
  case Nil
  show ?case by (simp add: request_run_def zero_collector_def)
next
  case (snoc e evs)
  have "request_run lower (evs @ [e]) = request_step lower e (request_run lower evs)"
    by (simp add: request_run_def)
  moreover have "\<not> Expected lower None" by (simp add: Expected_def)
  ultimately show ?case
    using snoc by (cases e) (auto simp: exec_enter_def exec_leave_def Let_def)
qed

end
