(* ===== verification/RuleSyntax.thy ===== *)
theory RuleSyntax
  imports GoStrings
begin

text \<open>
  internal/rulesplugin/rulesplugin.go, the pure part: how a rule file is split into lines, comments
  are cut, each line is normalised and the cleaned file is built.  The compiler of regular
  expressions and the lower-case table beyond ASCII are parameters; the four matcher types are those
  the repository documents.
\<close>

section \<open>Internet addresses\<close>

text \<open>\<^verbatim>\<open>net.ParseIP\<close>, as a test: four decimal octets without leading zeros, or the
  colon form with at most one ellipsis and an optional trailing IPv4 part; never with a zone.\<close>

definition octet_ok :: "string \<Rightarrow> bool" where
  "octet_ok s \<longleftrightarrow> s \<noteq> [] \<and> list_all is_digit s \<and> (hd s = CHR ''0'' \<longrightarrow> length s = 1) \<and> digits_value s \<le> 255"

definition ipv4_ok :: "string \<Rightarrow> bool" where
  "ipv4_ok s \<longleftrightarrow> (let parts = strings_Split s (CHR ''.'') in length parts = 4 \<and> list_all octet_ok parts)"

definition is_hex :: "char \<Rightarrow> bool" where
  "is_hex c \<longleftrightarrow> is_digit c \<or> (97 \<le> code_of c \<and> code_of c \<le> 102) \<or> (65 \<le> code_of c \<and> code_of c \<le> 70)"

text \<open>The loop over the groups: \<open>i\<close> bytes are filled, \<open>ell\<close> says whether the ellipsis was seen.\<close>

function ipv6_groups :: "nat \<Rightarrow> bool \<Rightarrow> string \<Rightarrow> bool" where
  "ipv6_groups i ell s =
     (if 16 \<le> i then s = [] \<and> \<not> ell
      else
        let group = takeWhile is_hex s; rest = dropWhile is_hex s
        in if group = [] \<or> 4 < length group then False
           else if rest \<noteq> [] \<and> hd rest = CHR ''.'' then
             (ell \<or> i = 12) \<and> i + 4 \<le> 16 \<and> ipv4_ok s \<and> (if i + 4 < 16 then ell else \<not> ell)
           else if rest = [] then (if i + 2 < 16 then ell else \<not> ell)
           else if hd rest \<noteq> CHR '':'' \<or> length rest = 1 then False
           else if rest ! 1 = CHR '':'' then
             \<not> ell \<and> (if length rest = 2 then i + 2 < 16 else ipv6_groups (i + 2) True (drop 2 rest))
           else ipv6_groups (i + 2) ell (tl rest))"
  by pat_completeness auto
termination
  by (relation "measure (\<lambda>(i, ell, s). 16 - i)") auto

declare ipv6_groups.simps [simp del]

definition ipv6_ok :: "string \<Rightarrow> bool" where
  "ipv6_ok s \<longleftrightarrow>
     (if take 2 s = ''::'' then drop 2 s = [] \<or> ipv6_groups 0 True (drop 2 s) else ipv6_groups 0 False s)"

definition net_ParseIP :: "string \<Rightarrow> bool" where
  "net_ParseIP s \<longleftrightarrow>
     (case find (\<lambda>c. c = CHR ''.'' \<or> c = CHR '':'' \<or> c = CHR ''%'') s of
        None \<Rightarrow> False
      | Some c \<Rightarrow>
          if c = CHR ''.'' then ipv4_ok s
          else if c = CHR '':'' then CHR ''%'' \<notin> set s \<and> ipv6_ok s
          else False)"

section \<open>Rules\<close>

definition maxRuleFileBytes :: nat where "maxRuleFileBytes = 1048576"
definition maxRegexpRuleSize :: nat where "maxRegexpRuleSize = 4096"

definition label_char :: "char \<Rightarrow> bool" where
  "label_char c \<longleftrightarrow>
     (97 \<le> code_of c \<and> code_of c \<le> 122) \<or> is_digit c \<or> c = CHR ''-'' \<or> c = CHR ''_''"

definition label_ok :: "string \<Rightarrow> bool" where
  "label_ok l \<longleftrightarrow> 0 < length l \<and> length l \<le> 63 \<and> list_all label_char l \<and> hd l \<noteq> CHR ''-'' \<and> last l \<noteq> CHR ''-''"

definition normalizeDomainPattern :: "(string \<Rightarrow> string) \<Rightarrow> string \<Rightarrow> goerr + string" where
  "normalizeDomainPattern lower pattern0 =
     (let pattern = strings_TrimSuffix (strings_ToLower lower pattern0) ''.''
      in if pattern = [] \<or> 253 < length pattern \<or> net_ParseIP pattern
         then Inl (error_new ''invalid domain pattern'')
         else if list_all label_ok (strings_Split pattern (CHR ''.'')) then Inr pattern
         else Inl (error_new ''invalid domain label''))"

text \<open>\<^verbatim>\<open>normalizeRule\<close>; \<open>compile\<close> is the error of \<^verbatim>\<open>regexp.Compile\<close>, if any.\<close>

definition normalizeRule :: "(string \<Rightarrow> string) \<Rightarrow> (string \<Rightarrow> goerr option) \<Rightarrow> string \<Rightarrow> goerr + string" where
  "normalizeRule lower compile line =
     (if \<not> utf8_ValidString line \<or> contains_space line
      then Inl (error_new ''rule must be one non-space expression'')
      else
        let (typ, pattern) =
          (case strings_Cut line (CHR '':'') of
             (t, p, True) \<Rightarrow> (t, p)
           | (_, _, False) \<Rightarrow> (''domain'', line))
        in if pattern = [] then Inl (error_new ''rule pattern is empty'')
           else if typ = ''domain'' \<or> typ = ''full'' \<or> typ = ''keyword'' then
             (case normalizeDomainPattern lower pattern of
                Inl e \<Rightarrow> Inl e
              | Inr pattern' \<Rightarrow> Inr (typ @ '':'' @ pattern'))
           else if typ = ''regexp'' then
             (if maxRegexpRuleSize < length pattern
              then Inl (error_new (''regexp rule exceeds '' @ strconv_Itoa (int maxRegexpRuleSize) @ '' bytes''))
              else case compile pattern of
                  Some e \<Rightarrow> Inl (error_wrap ''invalid regexp'' e)
                | None \<Rightarrow> Inr (typ @ '':'' @ pattern))
           else Inl (error_new (''unsupported matcher type '' @ go_quote typ)))"

text \<open>The position of the first \<^verbatim>\<open>#\<close> after a blank or a tab.\<close>

definition inlineCommentIndex :: "string \<Rightarrow> nat option" where
  "inlineCommentIndex line =
     find (\<lambda>i. line ! i = CHR ''#'' \<and> (line ! (i - 1) = CHR '' '' \<or> line ! (i - 1) = CHR 0x09)) [1..<length line]"

record ruleStats =
  rs_meaningful :: nat
  rs_rejected :: nat

text \<open>One line of the file: \<open>None\<close> when it is skipped, otherwise the rule or its rejection.\<close>

definition sanitize_line :: "(string \<Rightarrow> string) \<Rightarrow> (string \<Rightarrow> goerr option) \<Rightarrow> string \<Rightarrow> (goerr + string) option" where
  "sanitize_line lower compile line0 =
     (let line = strings_TrimSpace (strings_TrimSuffix line0 [CHR 0x0D])
      in if line = [] \<or> strings_HasPrefix line ''#'' then None
         else Some (normalizeRule lower compile
           (case inlineCommentIndex line of
              None \<Rightarrow> line
            | Some i \<Rightarrow> strings_TrimSpace (take i line))))"

fun sanitize_loop ::
  "(string \<Rightarrow> string) \<Rightarrow> (string \<Rightarrow> goerr option) \<Rightarrow> string list \<Rightarrow> string list \<Rightarrow> ruleStats \<Rightarrow> string list \<times> ruleStats" where
  "sanitize_loop lower compile [] rules stats = (rules, stats)"
| "sanitize_loop lower compile (line # lines) rules stats =
     (case sanitize_line lower compile line of
        None \<Rightarrow> sanitize_loop lower compile lines rules stats
      | Some (Inl _) \<Rightarrow>
          sanitize_loop lower compile lines rules
            (stats\<lparr>rs_meaningful := rs_meaningful stats + 1, rs_rejected := rs_rejected stats + 1\<rparr>)
      | Some (Inr rule) \<Rightarrow>
          sanitize_loop lower compile lines (rules @ [rule]) (stats\<lparr>rs_meaningful := rs_meaningful stats + 1\<rparr>))"

abbreviation newline :: char where
  "newline \<equiv> CHR 0x0A"

definition sanitizeRules ::
  "(string \<Rightarrow> string) \<Rightarrow> (string \<Rightarrow> goerr option) \<Rightarrow> string \<Rightarrow> goerr + (string list \<times> string \<times> ruleStats)" where
  "sanitizeRules lower compile raw =
     (if maxRuleFileBytes < length raw
      then Inl (error_new (''rule file exceeds '' @ strconv_Itoa (int maxRuleFileBytes) @ '' bytes''))
      else case sanitize_loop lower compile (strings_Split raw newline) [] \<lparr>rs_meaningful = 0, rs_rejected = 0\<rparr> of
          (rules, stats) \<Rightarrow>
            if rules = [] then Inr (rules, [], stats)
            else Inr (rules, strings_Join rules newline @ [newline], stats))"

section \<open>Lemmas\<close>

subsection \<open>Domain patterns\<close>

lemma strings_Split_append_sep:
  "strings_Split (a @ sep # b) sep = strings_Split a sep @ strings_Split b sep"
proof (induction a)
  case (Cons c a)
  then show ?case by (cases "strings_Split a sep") auto
qed simp

lemma strings_Split_cover: "c \<in> set s \<Longrightarrow> c = sep \<or> (\<exists>w\<in>set (strings_Split s sep). c \<in> set w)"
proof (induction s)
  case (Cons d s)
  then show ?case by (cases "strings_Split s sep") auto
qed simp

definition pattern_ok :: "string \<Rightarrow> bool" where
  "pattern_ok p \<longleftrightarrow> p \<noteq> [] \<and> length p \<le> 253 \<and> \<not> net_ParseIP p \<and> list_all label_ok (strings_Split p (CHR ''.''))"

lemma normalizeDomainPattern_ok: "normalizeDomainPattern lower p = Inr p' \<Longrightarrow> pattern_ok p'"
  by (auto simp: normalizeDomainPattern_def pattern_ok_def Let_def split: if_splits)

lemma pattern_chars:
  assumes "pattern_ok p" "c \<in> set p"
  shows "label_char c \<or> c = CHR ''.''"
  using strings_Split_cover [OF assms(2), of "CHR ''.''"] assms(1)
  by (auto simp: pattern_ok_def list_all_iff label_ok_def)

lemma label_char_code: "label_char c \<Longrightarrow> code_of c < 0x80 \<and> ascii_lower c = c"
  by (auto simp: label_char_def is_digit_def ascii_lower_def)

lemma pattern_char_code:
  assumes "pattern_ok p" "c \<in> set p"
  shows "code_of c < 0x80" "ascii_lower c = c"
  using pattern_chars [OF assms] label_char_code [of c] by (auto simp: ascii_lower_def)

lemma pattern_ascii:
  assumes "pattern_ok p"
  shows "ascii p" "map ascii_lower p = p"
  using pattern_char_code [OF assms] by (auto simp: ascii_def intro: map_idI)

lemma pattern_no_trailing_dot:
  assumes "pattern_ok p" shows "strings_TrimSuffix p ''.'' = p"
proof -
  have "\<not> suffix ''.'' p"
  proof
    assume "suffix ''.'' p"
    then obtain t where "p = t @ [CHR ''.'']" by (auto simp: suffix_def)
    then have "[] \<in> set (strings_Split p (CHR ''.''))" by (simp add: strings_Split_append_sep)
    with assms show False by (auto simp: pattern_ok_def list_all_iff label_ok_def)
  qed
  then show ?thesis by (simp add: strings_TrimSuffix_def)
qed

lemma normalizeDomainPattern_fixed: "pattern_ok p \<Longrightarrow> normalizeDomainPattern lower p = Inr p"
  by (auto simp: normalizeDomainPattern_def lower_ascii pattern_ascii pattern_no_trailing_dot pattern_ok_def Let_def)

subsection \<open>Normalised rules\<close>

definition domain_type :: "string \<Rightarrow> bool" where
  "domain_type t \<longleftrightarrow> t = ''domain'' \<or> t = ''full'' \<or> t = ''keyword''"

definition rule_ok :: "(string \<Rightarrow> goerr option) \<Rightarrow> string \<Rightarrow> bool" where
  "rule_ok compile rule \<longleftrightarrow>
     (\<exists>typ p. domain_type typ \<and> pattern_ok p \<and> rule = typ @ '':'' @ p)
     \<or> (\<exists>p. p \<noteq> [] \<and> length p \<le> maxRegexpRuleSize \<and> compile p = None \<and> rule = ''regexp:'' @ p
          \<and> utf8_ValidString rule \<and> \<not> contains_space rule)"

lemma normalizeRule_ok:
  assumes "normalizeRule lower compile line = Inr rule"
  shows "rule_ok compile rule"
proof -
  have ok: "utf8_ValidString line" "\<not> contains_space line"
    using assms by (auto simp: normalizeRule_def split: if_splits)
  obtain t p f where c: "strings_Cut line (CHR '':'') = (t, p, f)" by (cases "strings_Cut line (CHR '':'')") auto
  show ?thesis
  proof (cases f)
    case True
    with strings_Cut_found c have l: "line = t @ '':'' @ p" by fastforce
    show ?thesis
      using assms ok c True l normalizeDomainPattern_ok
      by (fastforce simp: normalizeRule_def rule_ok_def domain_type_def Let_def
          split: if_splits sum.splits option.splits)
  next
    case False
    then show ?thesis
      using assms ok c normalizeDomainPattern_ok
      by (fastforce simp: normalizeRule_def rule_ok_def domain_type_def Let_def
          split: if_splits sum.splits option.splits)
  qed
qed

lemma domain_rule_chars:
  assumes "domain_type typ" "pattern_ok p"
  shows "ascii (typ @ '':'' @ p)" "\<not> contains_space (typ @ '':'' @ p)"
proof -
  show a: "ascii (typ @ '':'' @ p)"
    using assms(1) pattern_ascii(1) [OF assms(2)] by (auto simp: domain_type_def)
  have "c \<notin> {CHR 0x20, CHR 0x09, CHR 0x0A, CHR 0x0B, CHR 0x0C, CHR 0x0D}" if "c \<in> set (typ @ '':'' @ p)" for c
    using that assms(1) pattern_chars [OF assms(2), of c]
    by (auto simp: domain_type_def label_char_def is_digit_def)
  then show "\<not> contains_space (typ @ '':'' @ p)"
    unfolding contains_space_ascii [OF a] by blast
qed

lemma rule_ok_text:
  assumes "rule_ok compile rule"
  shows "utf8_ValidString rule \<and> \<not> contains_space rule \<and> rule \<noteq> [] \<and> hd rule \<noteq> CHR ''#''"
  using assms unfolding rule_ok_def
proof (elim disjE exE conjE)
  fix t p assume t: "domain_type t" and p: "pattern_ok p" and r: "rule = t @ '':'' @ p"
  have "rule \<noteq> [] \<and> hd rule \<noteq> CHR ''#''" using t by (auto simp: r domain_type_def)
  with domain_rule_chars [OF t p] show ?thesis by (simp only: r utf8_ascii) simp
qed auto

lemma cut_typed: "CHR '':'' \<notin> set t \<Longrightarrow> strings_Cut (t @ '':'' @ p) (CHR '':'') = (t, p, True)"
  using strings_Cut_append [of "CHR '':''" t p] by simp

lemma normalizeRule_fixed:
  assumes "rule_ok compile rule"
  shows "normalizeRule lower compile rule = Inr rule"
  using assms unfolding rule_ok_def
proof (elim disjE exE conjE)
  fix t p assume t: "domain_type t" and p: "pattern_ok p" and r: "rule = t @ '':'' @ p"
  have "strings_Cut rule (CHR '':'') = (t, p, True)"
    unfolding r using t by (intro cut_typed) (auto simp: domain_type_def)
  moreover have "utf8_ValidString rule" "\<not> contains_space rule" using rule_ok_text [OF assms] by auto
  moreover have "p \<noteq> []" using p by (simp add: pattern_ok_def)
  ultimately show ?thesis
    using t p by (auto simp: normalizeRule_def normalizeDomainPattern_fixed domain_type_def r)
next
  fix p assume p: "p \<noteq> []" "length p \<le> maxRegexpRuleSize" "compile p = None" and r: "rule = ''regexp:'' @ p"
    and ok: "utf8_ValidString rule" "\<not> contains_space rule"
  have "strings_Cut rule (CHR '':'') = (''regexp'', p, True)"
    using cut_typed [of "''regexp''" p] by (simp add: r)
  with p ok show ?thesis by (simp add: normalizeRule_def r)
qed

subsection \<open>UTF-8 is self-synchronising\<close>

lemma rune_len_append: "rune_len r = Some n \<Longrightarrow> rune_len (r @ t) = Some n"
  by (cases r) (auto simp: Let_def split: if_splits list.splits)

lemma rune_bytes:
  assumes "rune_len r = Some (length r)"
  shows "(\<exists>c. r = [c] \<and> code_of c < 0x80) \<or> (\<forall>c\<in>set r. 0x80 \<le> code_of c)"
    and "\<forall>c\<in>set (tl r). is_cont c"
  using assms by (cases r; auto simp: Let_def is_cont_def second_ok_def split: if_splits list.splits)+

lemma runes_step:
  assumes "s \<noteq> []"
  obtains r t where "s = r @ t" "r \<noteq> []" "runes s = r # runes t"
proof (cases "rune_len s")
  case None
  then show ?thesis
    using assms by (intro that [of "take 1 s" "drop 1 s"]) (auto simp: runes.simps [of s])
next
  case (Some n)
  then show ?thesis
    using assms rune_len_pos [OF Some] by (intro that [of "take n s" "drop n s"]) (auto simp: runes.simps [of s])
qed

lemma runes_valid_induct [consumes 1, case_names Nil rune]:
  assumes "utf8_ValidString s" "P []"
    and "\<And>r t. rune_len r = Some (length r) \<Longrightarrow> r \<noteq> [] \<Longrightarrow> runes (r @ t) = r # runes t \<Longrightarrow> utf8_ValidString t
      \<Longrightarrow> P t \<Longrightarrow> P (r @ t)"
  shows "P s"
  using assms(1)
proof (induction "length s" arbitrary: s rule: less_induct)
  case less
  show ?case
  proof (cases "s = []")
    case False
    then obtain r t where s: "s = r @ t" "r \<noteq> []" "runes s = r # runes t" by (rule runes_step)
    then have "rune_len r = Some (length r)" "utf8_ValidString t"
      using less.prems by (auto simp: utf8_ValidString_def)
    with s less assms(3) show ?thesis by simp
  qed (simp add: assms(2))
qed

lemma runes_ascii_byte: "utf8_ValidString s \<Longrightarrow> c \<in> set s \<Longrightarrow> code_of c < 0x80 \<Longrightarrow> [c] \<in> set (runes s)"
proof (induction s rule: runes_valid_induct)
  case (rune r t)
  then show ?case using rune_bytes(1) [OF rune(1)] by fastforce
qed simp

lemma space_rune_shape:
  "e \<in> set space_runes \<Longrightarrow> rune_len e = Some (length e) \<and> e \<noteq> [] \<and> \<not> is_cont (hd e)"
  by (auto simp: space_runes_def ascii_spaces_def is_cont_def second_ok_def Let_def)

lemma space_prefix:
  assumes "utf8_ValidString s" "prefix e s" "e \<in> set space_runes"
  shows "e \<in> set (runes s)"
proof -
  have e: "rune_len e = Some (length e)" "e \<noteq> []" using space_rune_shape [OF assms(3)] by auto
  then have "s \<noteq> []" using assms(2) by auto
  then obtain r t where s: "s = r @ t" "r \<noteq> []" "runes s = r # runes t" by (rule runes_step)
  have "rune_len r = Some (length r)" using assms(1) s by (simp add: utf8_ValidString_def)
  then have "rune_len s = Some (length r)" using rune_len_append by (simp add: s)
  moreover have "rune_len s = Some (length e)" using assms(2) e rune_len_append by (auto simp: prefix_def)
  ultimately have "e = r" using assms(2) s(1) by (auto simp: prefix_def append_eq_append_conv)
  with s show ?thesis by simp
qed

lemma space_suffix:
  assumes "utf8_ValidString s" "suffix e s" "e \<in> set space_runes"
  shows "e \<in> set (runes s)"
  using assms
proof (induction s rule: runes_valid_induct)
  case Nil
  then show ?case using space_rune_shape [of e] by auto
next
  case (rune r t)
  have e: "rune_len e = Some (length e)" "e \<noteq> []" "\<not> is_cont (hd e)" using space_rune_shape [OF rune(7)] by auto
  show ?case
  proof (cases "suffix e t")
    case False
    have "suffix e t \<or> (\<exists>r1. e = r1 @ t \<and> suffix r1 r)"
      using rune(6) unfolding suffix_append by blast
    with False obtain r1 where r1: "e = r1 @ t" "suffix r1 r" by blast
    have "r1 \<noteq> []" using False r1(1) by auto
    note r1 = r1 this
    have "r1 = r"
    proof (rule ccontr)
      assume "r1 \<noteq> r"
      then obtain c x where "r = (c # x) @ r1" using r1(2) by (metis append_Nil neq_Nil_conv suffix_def)
      then have "is_cont (hd r1)" using rune_bytes(2) [OF rune(1)] r1(3) by (cases r1) auto
      with e(3) r1 show False by simp
    qed
    then have "rune_len e = Some (length r)" using rune_len_append [OF rune(1)] r1 by simp
    with e(1) r1 \<open>r1 = r\<close> have "e = r" by simp
    then show ?thesis by (simp add: rune(3))
  qed (use rune in simp)
qed

lemma no_space_valid:
  assumes "utf8_ValidString s" "\<not> contains_space s"
  shows "no_space_edges s" "CHR '' '' \<notin> set s" "CHR 0x09 \<notin> set s" "newline \<notin> set s" "CHR 0x0D \<notin> set s"
proof -
  have n: "e \<in> set space_runes \<Longrightarrow> e \<notin> set (runes s)" for e
    using assms(2) by (auto simp: contains_space_def list_ex_iff)
  then show "no_space_edges s"
    using space_prefix [OF assms(1)] space_suffix [OF assms(1)] by (auto simp: no_space_edges_def)
  have "c \<notin> set s" if "[c] \<in> set ascii_spaces" for c
    using runes_ascii_byte [OF assms(1), of c] n [of "[c]"] that
    by (auto simp: space_runes_def ascii_spaces_def)
  then show "CHR '' '' \<notin> set s" "CHR 0x09 \<notin> set s" "newline \<notin> set s" "CHR 0x0D \<notin> set s"
    by (auto simp: ascii_spaces_def)
qed

subsection \<open>Sanitised files\<close>

lemma inlineCommentIndex_None:
  assumes "CHR '' '' \<notin> set l" "CHR 0x09 \<notin> set l"
  shows "inlineCommentIndex l = None"
  unfolding inlineCommentIndex_def find_None_iff
  using assms by (metis atLeastLessThan_iff less_imp_diff_less nth_mem set_upt)

lemma sanitize_line_fixed:
  assumes "rule_ok compile rule"
  shows "sanitize_line lower compile rule = Some (Inr rule)" "newline \<notin> set rule"
proof -
  have t: "utf8_ValidString rule" "\<not> contains_space rule" "rule \<noteq> []" "hd rule \<noteq> CHR ''#''"
    using rule_ok_text [OF assms] by auto
  note ns = no_space_valid [OF t(1,2)]
  show "newline \<notin> set rule" by (rule ns(4))
  have "strings_TrimSuffix rule [CHR 0x0D] = rule"
    using ns(5) by (auto simp: strings_TrimSuffix_def suffix_def)
  moreover have "strings_TrimSpace rule = rule" by (rule strings_TrimSpace_id [OF ns(1)])
  moreover have "\<not> strings_HasPrefix rule ''#''"
    using t(3,4) by (cases rule) (auto simp: strings_HasPrefix_def)
  ultimately show "sanitize_line lower compile rule = Some (Inr rule)"
    using t(3) inlineCommentIndex_None [OF ns(2,3)] normalizeRule_fixed [OF assms] by (simp add: sanitize_line_def)
qed

lemma sanitize_line_ok: "sanitize_line lower compile line = Some (Inr rule) \<Longrightarrow> rule_ok compile rule"
  by (auto simp: sanitize_line_def Let_def dest: normalizeRule_ok split: if_splits)

lemma sanitize_line_empty [simp]: "sanitize_line lower compile [] = None"
  by (simp add: sanitize_line_def strings_TrimSuffix_def strings_TrimSpace_def trim_left.simps trim_right.simps
      space_runes_def ascii_spaces_def)

text \<open>The loop keeps the accepted lines in order and counts the lines that are not skipped.\<close>

definition accepted :: "(string \<Rightarrow> string) \<Rightarrow> (string \<Rightarrow> goerr option) \<Rightarrow> string list \<Rightarrow> string list" where
  "accepted lower compile lines =
     List.map_filter (\<lambda>l. case sanitize_line lower compile l of Some (Inr rule) \<Rightarrow> Some rule | _ \<Rightarrow> None) lines"

definition counted :: "(string \<Rightarrow> string) \<Rightarrow> (string \<Rightarrow> goerr option) \<Rightarrow> string list \<Rightarrow> nat" where
  "counted lower compile lines = length (filter (\<lambda>l. sanitize_line lower compile l \<noteq> None) lines)"

lemma accepted_simps [simp]:
  "accepted lower compile [] = []"
  "accepted lower compile (l # ls) =
     (case sanitize_line lower compile l of Some (Inr rule) \<Rightarrow> rule # accepted lower compile ls | _ \<Rightarrow> accepted lower compile ls)"
  by (auto simp: accepted_def map_filter_simps split: option.splits sum.splits)

lemma counted_simps [simp]:
  "counted lower compile [] = 0"
  "counted lower compile (l # ls) = (if sanitize_line lower compile l = None then 0 else 1) + counted lower compile ls"
  by (simp_all add: counted_def)

lemma accepted_le_counted: "length (accepted lower compile lines) \<le> counted lower compile lines"
  by (induction lines) (auto split: option.splits sum.splits)

lemma sanitize_loop_eq:
  "sanitize_loop lower compile lines rules stats =
     (rules @ accepted lower compile lines,
      stats\<lparr>rs_meaningful := rs_meaningful stats + counted lower compile lines,
            rs_rejected := rs_rejected stats + (counted lower compile lines - length (accepted lower compile lines))\<rparr>)"
proof (induction lower compile lines rules stats rule: sanitize_loop.induct)
  case (2 lower compile line lines rules stats)
  then show ?case
    using accepted_le_counted [of lower compile lines]
    by (auto split: option.splits sum.splits simp: Suc_diff_le)
qed simp

lemma accepted_ok: "rule \<in> set (accepted lower compile lines) \<Longrightarrow> rule_ok compile rule"
  by (induction lines) (auto split: option.splits sum.splits dest: sanitize_line_ok)

lemma sanitizeRules_eq:
  "sanitizeRules lower compile raw =
     (if maxRuleFileBytes < length raw
      then Inl (error_new (''rule file exceeds '' @ strconv_Itoa (int maxRuleFileBytes) @ '' bytes''))
      else let lines = strings_Split raw newline; rules = accepted lower compile lines
           in Inr (rules, if rules = [] then [] else strings_Join rules newline @ [newline],
                \<lparr>rs_meaningful = counted lower compile lines,
                 rs_rejected = counted lower compile lines - length rules\<rparr>))"
  by (simp add: sanitizeRules_def sanitize_loop_eq Let_def)

lemma fixed_lines:
  assumes "\<forall>r\<in>set rules. rule_ok compile r"
  shows "accepted lower compile (rules @ [[]]) = rules" "counted lower compile (rules @ [[]]) = length rules"
  using assms by (induction rules) (auto simp: sanitize_line_fixed)

lemma split_cleaned:
  assumes "rules \<noteq> []" "\<forall>r\<in>set rules. newline \<notin> set r"
  shows "strings_Split (strings_Join rules newline @ [newline]) newline = rules @ [[]]"
  using assms by (simp add: strings_Split_append_sep strings_Split_Join)

text \<open>Cleaning a cleaned file changes nothing.\<close>

lemma sanitize_stable:
  assumes "sanitizeRules lower compile raw = Inr (rules, cleaned, stats)"
    and "length cleaned \<le> maxRuleFileBytes"
  shows "rs_meaningful stats = length rules + rs_rejected stats
    \<and> sanitizeRules lower compile cleaned
      = Inr (rules, cleaned, \<lparr>rs_meaningful = length rules, rs_rejected = 0\<rparr>)"
proof -
  have r: "rules = accepted lower compile (strings_Split raw newline)"
    "cleaned = (if rules = [] then [] else strings_Join rules newline @ [newline])"
    "stats = \<lparr>rs_meaningful = counted lower compile (strings_Split raw newline),
      rs_rejected = counted lower compile (strings_Split raw newline) - length rules\<rparr>"
    using assms(1) by (auto simp: sanitizeRules_eq Let_def split: if_splits)
  have ok: "\<forall>rule\<in>set rules. rule_ok compile rule" using r(1) accepted_ok by blast
  have m: "rs_meaningful stats = length rules + rs_rejected stats"
    using accepted_le_counted [of lower compile "strings_Split raw newline"] r by simp
  show ?thesis
  proof (cases "rules = []")
    case True
    with r(2) m show ?thesis by (simp add: sanitizeRules_eq)
  next
    case False
    then have "strings_Split cleaned newline = rules @ [[]]"
      using r(2) split_cleaned ok sanitize_line_fixed(2) by auto
    with False assms(2) m r(2) fixed_lines [OF ok] show ?thesis by (simp add: sanitizeRules_eq Let_def)
  qed
qed

section \<open>Properties\<close>

text \<open>
  Property C21.  Every rule that is accepted is in canonical form: a documented matcher type with a
  lower-case host name of at most 253 bytes whose labels have 1 to 63 permitted characters and which
  is no IP address, or a regular expression of at most 4096 bytes that compiles; and normalising a
  canonical rule returns it unchanged.
\<close>

theorem normalizeRule_canonical:
  assumes "normalizeRule lower compile line = Inr rule"
  shows "rule_ok compile rule \<and> normalizeRule lower compile rule = Inr rule"
  using normalizeRule_ok [OF assms] normalizeRule_fixed by blast

lemma sample_rule: "normalizeRule id (\<lambda>_. None) ''full:A.Cn.'' = Inr ''full:a.cn''"
proof -
  have "strings_ToLower id ''A.Cn.'' = ''a.cn.''"
    by (subst lower_ascii) (simp_all add: ascii_lower_def char_of_def bit_0)
  then have "normalizeDomainPattern id ''A.Cn.'' = Inr ''a.cn''"
    by (simp add: normalizeDomainPattern_def strings_TrimSuffix_def suffix_def net_ParseIP_def ipv4_ok_def
        label_ok_def label_char_def is_digit_def)
  moreover have "utf8_ValidString ''full:A.Cn.''" by (rule utf8_ascii) simp
  moreover have "\<not> contains_space ''full:A.Cn.''" by (subst contains_space_ascii) simp_all
  ultimately show ?thesis by (simp add: normalizeRule_def)
qed

theorem normalizeRule_canonical_witness:
  "rule_ok (\<lambda>_. None) ''full:a.cn'' \<and> normalizeRule id (\<lambda>_. None) ''full:a.cn'' = Inr ''full:a.cn''"
  by (rule normalizeRule_canonical [OF sample_rule])

text \<open>
  Property C20.  Cleaning a rule file is stable: the counters add up, and if the cleaned file fits
  the size limit, reading it again yields the same rules and the same bytes with nothing rejected,
  so that rewriting the file does not trigger another rewrite.
\<close>

theorem sanitizeRules_idempotent:
  assumes "sanitizeRules lower compile raw = Inr (rules, cleaned, stats)"
    and "length cleaned \<le> maxRuleFileBytes"
  shows "rs_meaningful stats = length rules + rs_rejected stats
    \<and> sanitizeRules lower compile cleaned
      = Inr (rules, cleaned, \<lparr>rs_meaningful = length rules, rs_rejected = 0\<rparr>)"
  using assms by (rule sanitize_stable)

lemma line_domain: "sanitize_line lower compile ''a.b'' = Some (Inr ''domain:a.b'')"
proof -
  have "strings_ToLower lower ''a.b'' = ''a.b''" by (subst lower_ascii) (simp_all add: ascii_lower_def)
  then have "normalizeDomainPattern lower ''a.b'' = Inr ''a.b''"
    by (simp add: normalizeDomainPattern_def strings_TrimSuffix_def suffix_def net_ParseIP_def ipv4_ok_def
        label_ok_def label_char_def is_digit_def)
  moreover have v: "utf8_ValidString ''a.b''" by (rule utf8_ascii) simp
  moreover have s: "\<not> contains_space ''a.b''" by (subst contains_space_ascii) simp_all
  ultimately have "normalizeRule lower compile ''a.b'' = Inr ''domain:a.b''" by (simp add: normalizeRule_def)
  moreover note no_space_valid [OF v s] strings_TrimSpace_id [OF no_space_valid(1) [OF v s]]
  moreover have "inlineCommentIndex ''a.b'' = None" by (rule inlineCommentIndex_None) simp_all
  ultimately show ?thesis by (simp add: sanitize_line_def strings_TrimSuffix_def strings_HasPrefix_def suffix_def)
qed

lemma split_lines: "newline \<notin> set x \<Longrightarrow> strings_Split (concat (replicate n (x @ [newline]))) newline = replicate n x @ [[]]"
  by (induction n) (auto simp: strings_Split_append)

lemma accepted_lines:
  assumes "sanitize_line lower compile x = Some (Inr rule)"
  shows "accepted lower compile (replicate n x @ [[]]) = replicate n rule"
    "counted lower compile (replicate n x @ [[]]) = n"
  using assms by (induction n) auto

lemma length_join: "n \<noteq> 0 \<Longrightarrow> length (strings_Join (replicate n r) sep) + 1 = n * (length r + 1)"
proof (induction n)
  case (Suc n)
  then show ?case by (cases "n = 0") (auto simp: strings_Join_Cons)
qed simp

lemma bare_domain_file:
  assumes "4 * n \<le> maxRuleFileBytes" "0 < n"
  shows "sanitizeRules lower compile (concat (replicate n (''a.b'' @ [newline])))
    = Inr (replicate n ''domain:a.b'', strings_Join (replicate n ''domain:a.b'') newline @ [newline],
        \<lparr>rs_meaningful = n, rs_rejected = 0\<rparr>)"
proof -
  have "length (concat (replicate n (''a.b'' @ [newline]))) = 4 * n" by (induction n) auto
  moreover have "strings_Split (concat (replicate n (''a.b'' @ [newline]))) newline = replicate n ''a.b'' @ [[]]"
    by (rule split_lines) simp
  ultimately show ?thesis
    using assms accepted_lines [OF line_domain, where n = n] by (simp add: sanitizeRules_eq Let_def)
qed

theorem sanitizeRules_idempotent_witness:
  "sanitizeRules id (\<lambda>_. None) (''domain:a.b'' @ [newline])
     = Inr ([''domain:a.b''], ''domain:a.b'' @ [newline], \<lparr>rs_meaningful = 1, rs_rejected = 0\<rparr>)"
  using sanitizeRules_idempotent [OF bare_domain_file [where n = 1]] by (simp add: maxRuleFileBytes_def)

text \<open>The size limit is not stable under cleaning: a file of exactly the permitted size, made of bare
  domains, is accepted in full, yet its cleaned form (each line gains a type prefix) is too large.\<close>

lemma bare_domains_overflow:
  obtains raw cleaned stats e where "length raw = maxRuleFileBytes"
    "sanitizeRules lower compile raw = Inr (replicate 262144 ''domain:a.b'', cleaned, stats)"
    "rs_rejected stats = 0" "cleaned \<noteq> raw" "sanitizeRules lower compile cleaned = Inl e"
proof -
  define raw where "raw = concat (replicate 262144 (''a.b'' @ [newline]))"
  define cleaned where "cleaned = strings_Join (replicate 262144 ''domain:a.b'') newline @ [newline]"
  have "length (concat (replicate n (''a.b'' @ [newline]))) = 4 * n" for n by (induction n) auto
  then have l: "length raw = maxRuleFileBytes" by (simp add: raw_def maxRuleFileBytes_def)
  have s: "sanitizeRules lower compile raw
      = Inr (replicate 262144 ''domain:a.b'', cleaned, \<lparr>rs_meaningful = 262144, rs_rejected = 0\<rparr>)"
    unfolding raw_def cleaned_def by (rule bare_domain_file) (simp_all add: maxRuleFileBytes_def)
  have "length cleaned = 262144 * 11"
    using length_join [of 262144 "''domain:a.b''" newline] by (simp add: cleaned_def)
  then have g: "maxRuleFileBytes < length cleaned" by (simp add: maxRuleFileBytes_def)
  then have "sanitizeRules lower compile cleaned
      = Inl (error_new (''rule file exceeds '' @ strconv_Itoa (int maxRuleFileBytes) @ '' bytes''))"
    unfolding sanitizeRules_eq by (simp only: if_True)
  moreover have "cleaned \<noteq> raw" using l g by auto
  ultimately show ?thesis using that l s by force
qed

end
