(* ===== verification/RuleFile.thy ===== *)
theory RuleFile
  imports RuleSyntax Contracts
begin

text \<open>
  internal/rulesplugin/rulesplugin.go, the stateful part: the rule file on disk, its last valid
  content and its matcher; loading, hot reload, restoring and clearing; and the debounced watch
  loop.  The matcher library, the operating system's answers and the names of temporary files are
  parameters.
\<close>

text \<open>\<^verbatim>\<open>init\<close>\<close>

definition rule_register :: registration where
  "rule_register = RegNewPluginFunc ''guarddns_rule_file''"

section \<open>Data\<close>

text \<open>The matcher library: an empty mix matcher, adding one rule, loading a bundled text, and
  matching a name.\<close>

record 'm matcher_lib =
  ml_new :: 'm
  ml_add :: "string \<Rightarrow> 'm \<Rightarrow> goerr + 'm"
  ml_load :: "string \<Rightarrow> 'm \<Rightarrow> goerr + 'm"
  ml_match :: "'m \<Rightarrow> string \<Rightarrow> bool"

record 'm rule_env =
  re_os :: os
  re_tmp :: string
  re_lower :: "string \<Rightarrow> string"
  re_compile :: "string \<Rightarrow> goerr option"
  re_lib :: "'m matcher_lib"

record 'm ruleFile =
  rf_path :: string
  rf_includes :: "string list"
  rf_matcher :: "'m option"
  rf_lastGood :: string
  rf_loaded :: bool
  rf_closed :: bool

section \<open>Building the matcher\<close>

fun add_rules :: "'m matcher_lib \<Rightarrow> string list \<Rightarrow> 'm \<Rightarrow> goerr + 'm" where
  "add_rules lib [] m = Inr m"
| "add_rules lib (rule # rules) m =
     (case ml_add lib rule m of
        Inl e \<Rightarrow> Inl (error_wrap (''add validated rule '' @ go_quote rule) e)
      | Inr m' \<Rightarrow> add_rules lib rules m')"

fun add_includes :: "os \<Rightarrow> 'm matcher_lib \<Rightarrow> fs \<Rightarrow> string list \<Rightarrow> 'm \<Rightarrow> goerr + 'm" where
  "add_includes os lib s [] m = Inr m"
| "add_includes os lib s (include # includes) m =
     (case os_ReadFile os include s of
        Inl e \<Rightarrow> Inl (error_wrap (''read bundled rule file '' @ include) e)
      | Inr content \<Rightarrow>
          (case ml_load lib content m of
             Inl e \<Rightarrow> Inl (error_wrap (''load bundled rule file '' @ include) e)
           | Inr m' \<Rightarrow> add_includes os lib s includes m'))"

definition buildMatcher :: "'m rule_env \<Rightarrow> fs \<Rightarrow> string list \<Rightarrow> string list \<Rightarrow> goerr + 'm" where
  "buildMatcher env s rules includes =
     (case add_rules (re_lib env) rules (ml_new (re_lib env)) of
        Inl e \<Rightarrow> Inl e
      | Inr m \<Rightarrow> add_includes (re_os env) (re_lib env) s includes m)"

section \<open>Writing\<close>

text \<open>\<^verbatim>\<open>writeFileAtomic\<close>: the temporary is new, and it is removed on every way out.\<close>

definition rule_write_tmp :: "os \<Rightarrow> string \<Rightarrow> string \<Rightarrow> string \<Rightarrow> action" where
  "rule_write_tmp os tmp path data s =
     (case os_fault os (OpenWrite tmp) of
        Some e \<Rightarrow> (Some e, s)
      | None \<Rightarrow>
          (case os_fault os (ChmodFile tmp) of
             Some e \<Rightarrow> (Some e, os_Remove os tmp (s(tmp \<mapsto> [])))
           | None \<Rightarrow>
               (case os_fault os (CopyData tmp) of
                  Some e \<Rightarrow> (Some e, os_Remove os tmp (s(tmp \<mapsto> os_partial os tmp)))
                | None \<Rightarrow>
                    (case os_fault os (CloseFile tmp) of
                       Some e \<Rightarrow> (Some e, os_Remove os tmp (s(tmp \<mapsto> data)))
                     | None \<Rightarrow>
                         (case os_Rename os tmp path (s(tmp \<mapsto> data)) of
                            (r, s') \<Rightarrow> (r, os_Remove os tmp s'))))))"

definition rule_writeFileAtomic :: "os \<Rightarrow> string \<Rightarrow> string \<Rightarrow> string \<Rightarrow> action" where
  "rule_writeFileAtomic os tmp path data s =
     (case os_Stat os path s of
        Some e \<Rightarrow>
          if err_ident e \<noteq> err_ident errNotExist then (Some e, s) else rule_write_tmp os tmp path data s
      | None \<Rightarrow> rule_write_tmp os tmp path data s)"

section \<open>Reloading\<close>

type_synonym 'm reload_result = "goerr option \<times> fs \<times> 'm ruleFile"

definition restoreOrClear :: "'m rule_env \<Rightarrow> goerr \<Rightarrow> fs \<Rightarrow> 'm ruleFile \<Rightarrow> 'm reload_result" where
  "restoreOrClear env cause s r =
     (if rf_loaded r then
        (case rule_writeFileAtomic (re_os env) (re_tmp env) (rf_path r) (rf_lastGood r) s of
           (Some e, s') \<Rightarrow> (Some (error_wrap (''restore last valid rule file after '' @ err_text cause) e), s', r)
         | (None, s') \<Rightarrow> (None, s', r))
      else
        (case rule_writeFileAtomic (re_os env) (re_tmp env) (rf_path r) [] s of
           (Some e, s') \<Rightarrow> (Some (error_wrap (''clear invalid initial rule file after '' @ err_text cause) e), s', r)
         | (None, s') \<Rightarrow>
             (case buildMatcher env s' [] (rf_includes r) of
                Inl e \<Rightarrow> (Some e, s', r)
              | Inr m \<Rightarrow> (None, s', r\<lparr>rf_matcher := Some m, rf_lastGood := [], rf_loaded := True\<rparr>))))"

definition reload :: "'m rule_env \<Rightarrow> fs \<Rightarrow> 'm ruleFile \<Rightarrow> 'm reload_result" where
  "reload env s r =
     (case os_ReadFile (re_os env) (rf_path r) s of
        Inl e \<Rightarrow>
          if err_ident e = err_ident errNotExist
          then restoreOrClear env (error_new ''rule file was removed'') s r
          else (Some (error_wrap ''read rule file'' e), s, r)
      | Inr raw \<Rightarrow>
          (case sanitizeRules (re_lower env) (re_compile env) raw of
             Inl e \<Rightarrow> restoreOrClear env e s r
           | Inr (rules, cleaned, stats) \<Rightarrow>
               if 0 < rs_meaningful stats \<and> length rules = 0 \<and> rf_loaded r then
                 (case rule_writeFileAtomic (re_os env) (re_tmp env) (rf_path r) (rf_lastGood r) s of
                    (Some e, s') \<Rightarrow> (Some (error_wrap ''restore last valid rule file'' e), s', r)
                  | (None, s') \<Rightarrow> (None, s', r))
               else
                 (case buildMatcher env s rules (rf_includes r) of
                    Inl e \<Rightarrow> (Some e, s, r)
                  | Inr m \<Rightarrow>
                      (case (if raw \<noteq> cleaned
                             then rule_writeFileAtomic (re_os env) (re_tmp env) (rf_path r) cleaned s
                             else (None, s)) of
                         (Some e, s') \<Rightarrow> (Some (error_wrap ''write sanitized rule file'' e), s', r)
                       | (None, s') \<Rightarrow>
                           (None, s', r\<lparr>rf_matcher := Some m, rf_lastGood := cleaned, rf_loaded := True\<rparr>)))))"

text \<open>
  \<^verbatim>\<open>newRuleFile\<close>: \<open>args\<close> is the file name and the bundled files, if arguments were given;
  \<open>absPath\<close> is \<^verbatim>\<open>filepath.Abs\<close>; the last two arguments are the errors of creating the watcher and
  of watching the directory, when the file is to be watched.
\<close>

definition newRuleFile ::
  "'m rule_env \<Rightarrow> (string \<Rightarrow> goerr + string) \<Rightarrow> (string \<times> string list) option \<Rightarrow> (goerr option \<times> goerr option) option
    \<Rightarrow> fs \<Rightarrow> fs \<times> (goerr + 'm ruleFile)" where
  "newRuleFile env absPath args watch s =
     (case args of
        None \<Rightarrow> (s, Inl (error_new ''file is required''))
      | Some (file, includes) \<Rightarrow>
          if file = [] then (s, Inl (error_new ''file is required''))
          else case absPath file of
              Inl e \<Rightarrow> (s, Inl (error_wrap ''resolve rule file path'' e))
            | Inr path \<Rightarrow>
                (case reload env s \<lparr>rf_path = path, rf_includes = includes, rf_matcher = None, rf_lastGood = [],
                    rf_loaded = False, rf_closed = False\<rparr> of
                   (Some e, s', r) \<Rightarrow> (s', Inl e)
                 | (None, s', r) \<Rightarrow>
                     (case watch of
                        None \<Rightarrow> (s', Inr r)
                      | Some (Some e, _) \<Rightarrow> (s', Inl (error_wrap ''create rule watcher'' e))
                      | Some (None, Some e) \<Rightarrow> (s', Inl (error_wrap ''watch rule directory'' e))
                      | Some (None, None) \<Rightarrow> (s', Inr r))))"

text \<open>\<^verbatim>\<open>NewRuleFile\<close> and \<^verbatim>\<open>initPlugin\<close>: the file is watched.\<close>

definition NewRuleFile ::
  "'m rule_env \<Rightarrow> (string \<Rightarrow> goerr + string) \<Rightarrow> (string \<times> string list) option \<Rightarrow> goerr option \<Rightarrow> goerr option
    \<Rightarrow> fs \<Rightarrow> fs \<times> (goerr + 'm ruleFile)" where
  "NewRuleFile env absPath args watcher_err add_err = newRuleFile env absPath args (Some (watcher_err, add_err))"

definition rule_initPlugin ::
  "'m rule_env \<Rightarrow> (string \<Rightarrow> goerr + string) \<Rightarrow> string \<times> string list \<Rightarrow> goerr option \<Rightarrow> goerr option
    \<Rightarrow> fs \<Rightarrow> fs \<times> (goerr + 'm ruleFile)" where
  "rule_initPlugin env absPath raw = NewRuleFile env absPath (Some raw)"

definition rule_Match :: "'m matcher_lib \<Rightarrow> 'm ruleFile \<Rightarrow> string \<Rightarrow> bool" where
  "rule_Match lib r name = (case rf_matcher r of None \<Rightarrow> False | Some m \<Rightarrow> ml_match lib m name)"

text \<open>\<^verbatim>\<open>GetDomainMatcher\<close>: the plugin is its own matcher, so that queries see every reload.\<close>

definition GetDomainMatcher :: "'m matcher_lib \<Rightarrow> 'm ruleFile \<Rightarrow> string \<Rightarrow> bool" where
  "GetDomainMatcher lib r = rule_Match lib r"

text \<open>\<^verbatim>\<open>Close\<close>: the second result is whether the channel and the watcher are closed now.\<close>

definition rule_Close :: "'m ruleFile \<Rightarrow> 'm ruleFile \<times> bool" where
  "rule_Close r = (if rf_closed r then (r, False) else (r\<lparr>rf_closed := True\<rparr>, True))"

section \<open>The watch loop\<close>

definition reloadDebounce :: duration where
  "reloadDebounce = 200 * millisecond"

datatype notify_op = NotifyCreate | NotifyWrite | NotifyRemove | NotifyRename | NotifyChmod

text \<open>What the \<^verbatim>\<open>select\<close> receives.  A file event carries the cleaned name and the set of
  operations; \<open>Debounced\<close> is a receive from the timer's channel.\<close>

datatype watch_input =
    Done
  | FileEvent string "notify_op set"
  | EventsClosed
  | WatchError goerr
  | ErrorsClosed
  | Debounced

text \<open>\<open>wl_timer\<close>: whether the timer exists; \<open>wl_due\<close>: when it fires, while its channel is selected.\<close>

record watch_state =
  wl_timer :: bool
  wl_due :: "instant option"
  wl_stopped :: bool

definition relevant :: "string \<Rightarrow> watch_input \<Rightarrow> bool" where
  "relevant path i =
     (case i of
        FileEvent name ops \<Rightarrow> name = path \<and> ops \<inter> {NotifyWrite, NotifyCreate, NotifyRename, NotifyRemove} \<noteq> {}
      | _ \<Rightarrow> False)"

text \<open>One iteration at the given instant: the new state and whether the file is reloaded.\<close>

definition watch_step :: "string \<Rightarrow> instant \<Rightarrow> watch_input \<Rightarrow> watch_state \<Rightarrow> watch_state \<times> bool" where
  "watch_step path now i w =
     (if wl_stopped w then (w, False)
      else case i of
          Done \<Rightarrow> (w\<lparr>wl_stopped := True\<rparr>, False)
        | FileEvent name ops \<Rightarrow>
            (if \<not> relevant path i then (w, False)
             else if \<not> wl_timer w then (w\<lparr>wl_timer := True, wl_due := Some (now + reloadDebounce)\<rparr>, False)
             else (w\<lparr>wl_due := Some (now + reloadDebounce)\<rparr>, False))
        | EventsClosed \<Rightarrow> (w\<lparr>wl_stopped := True\<rparr>, False)
        | WatchError e \<Rightarrow> (w, False)
        | ErrorsClosed \<Rightarrow> (w\<lparr>wl_stopped := True\<rparr>, False)
        | Debounced \<Rightarrow>
            (case wl_due w of
               None \<Rightarrow> (w, False)
             | Some due \<Rightarrow> if now < due then (w, False) else (w\<lparr>wl_due := None\<rparr>, True)))"

fun watch_run :: "string \<Rightarrow> (instant \<times> watch_input) list \<Rightarrow> watch_state \<Rightarrow> watch_state \<times> instant list" where
  "watch_run path [] w = (w, [])"
| "watch_run path ((now, i) # is) w =
     (let (w1, fired) = watch_step path now i w; (w2, reloads) = watch_run path is w1
      in (w2, (if fired then [now] else []) @ reloads))"

definition watch_start :: watch_state where
  "watch_start = \<lparr>wl_timer = False, wl_due = None, wl_stopped = False\<rparr>"

section \<open>Lemmas\<close>

lemma rule_write_effect:
  assumes "rule_writeFileAtomic os tmp path data s = (r, s')" "tmp \<noteq> path"
  shows "s' path = (if r = None then Some data else s path)"
    and "q \<noteq> path \<Longrightarrow> q \<noteq> tmp \<Longrightarrow> s' q = s q"
  using assms
  by (auto simp: rule_writeFileAtomic_def rule_write_tmp_def os_Rename_def os_Remove_def
      split: option.splits if_splits)

interpretation rule_text: atomic_update "\<lambda>os data path. rule_writeFileAtomic os tmp path data" "\<lambda>data s. Some data"
  "\<lambda>_. tmp" for tmp
  by unfold_locales (auto dest: rule_write_effect)

lemma rule_write_fine:
  assumes "tmp \<noteq> path" "s tmp = None"
  shows "rule_writeFileAtomic os_fine tmp path data s = (None, s(path \<mapsto> data))"
  using assms
  by (auto simp: rule_writeFileAtomic_def rule_write_tmp_def os_Rename_def os_Remove_def os_Stat_def os_fine_def
      split: option.splits)

lemma restoreOrClear_loaded:
  assumes "rf_loaded r" "restoreOrClear env cause s r = (e, s', r')" "re_tmp env \<noteq> rf_path r"
  shows "r' = r" "s' (rf_path r) = (if e = None then Some (rf_lastGood r) else s (rf_path r))"
proof -
  obtain w s1 where w: "rule_writeFileAtomic (re_os env) (re_tmp env) (rf_path r) (rf_lastGood r) s = (w, s1)" by fastforce
  show "r' = r" "s' (rf_path r) = (if e = None then Some (rf_lastGood r) else s (rf_path r))"
    using assms w rule_write_effect(1) [OF w assms(3)]
    by (auto simp: restoreOrClear_def split: option.splits)
qed

text \<open>The rules of a state: a validated list whose text is the last good content and from which the
  matcher was built.\<close>

definition cleaned_text :: "string list \<Rightarrow> string" where
  "cleaned_text rules = (if rules = [] then [] else strings_Join rules newline @ [newline])"

definition policy_of :: "(string \<Rightarrow> goerr option) \<Rightarrow> 'm matcher_lib \<Rightarrow> 'm ruleFile \<Rightarrow> bool" where
  "policy_of compile lib r \<longleftrightarrow>
     (\<exists>rules m env s. (\<forall>rule\<in>set rules. rule_ok compile rule) \<and> rf_lastGood r = cleaned_text rules
        \<and> rf_matcher r = Some m \<and> re_lib env = lib \<and> buildMatcher env s rules (rf_includes r) = Inr m)"

definition rule_inv :: "(string \<Rightarrow> goerr option) \<Rightarrow> 'm matcher_lib \<Rightarrow> 'm ruleFile \<Rightarrow> bool" where
  "rule_inv compile lib r \<longleftrightarrow>
     (if rf_loaded r then policy_of compile lib r else rf_matcher r = None \<and> rf_lastGood r = [])"

lemma policy_ofI:
  "\<forall>rule\<in>set rules. rule_ok compile rule \<Longrightarrow> buildMatcher env s rules (rf_includes r) = Inr m \<Longrightarrow>
     policy_of compile (re_lib env) (r\<lparr>rf_matcher := Some m, rf_lastGood := cleaned_text rules, rf_loaded := True\<rparr>)"
  unfolding policy_of_def by (intro exI [of _ rules] exI [of _ m] exI [of _ env] exI [of _ s]) simp

lemma restoreOrClear_inv:
  assumes "restoreOrClear env cause s r = (e, s', r')" "rule_inv compile (re_lib env) r"
  shows "rule_inv compile (re_lib env) r' \<and> (e \<noteq> None \<longrightarrow> r' = r) \<and> (e = None \<longrightarrow> rf_loaded r')
    \<and> rf_path r' = rf_path r"
  using assms policy_ofI [where rules = "[]" and r = r and env = env and compile = compile]
  by (auto simp: restoreOrClear_def rule_inv_def cleaned_text_def split: if_splits prod.splits option.splits sum.splits)

lemma sanitizeRules_ok:
  assumes "sanitizeRules lower compile raw = Inr (rules, cleaned, stats)"
  shows "\<forall>rule\<in>set rules. rule_ok compile rule" "cleaned = cleaned_text rules"
  using assms accepted_ok by (auto simp: sanitizeRules_eq Let_def cleaned_text_def split: if_splits)

text \<open>The ways through \<^verbatim>\<open>reload\<close>.\<close>

lemma reload_usable:
  assumes "os_ReadFile (re_os env) (rf_path r) s = Inr raw"
    and "sanitizeRules (re_lower env) (re_compile env) raw = Inr (rules, cleaned, stats)"
    and "\<not> (0 < rs_meaningful stats \<and> length rules = 0 \<and> rf_loaded r)" "buildMatcher env s rules (rf_includes r) = Inr m"
  shows "reload env s r =
    (case (if raw \<noteq> cleaned then rule_writeFileAtomic (re_os env) (re_tmp env) (rf_path r) cleaned s else (None, s)) of
       (Some e, s1) \<Rightarrow> (Some (error_wrap ''write sanitized rule file'' e), s1, r)
     | (None, s1) \<Rightarrow> (None, s1, r\<lparr>rf_matcher := Some m, rf_lastGood := cleaned, rf_loaded := True\<rparr>))"
  unfolding reload_def assms(1,2) sum.case prod.case if_not_P [OF assms(3)] assms(4)
  by (simp split: option.splits prod.splits)

lemma reload_cases:
  assumes "reload env s r = (e, s', r')"
  obtains (unreadable) "e \<noteq> None" "s' = s" "r' = r"
  | (unusable) cause where "restoreOrClear env cause s r = (e, s', r')"
  | (all_invalid) w where "rf_loaded r" "r' = r" "e = None \<longleftrightarrow> w = None"
      "rule_writeFileAtomic (re_os env) (re_tmp env) (rf_path r) (rf_lastGood r) s = (w, s')"
  | (no_matcher) e' where "e = Some e'" "s' = s" "r' = r"
  | (not_written) raw rules cleaned stats w where "e \<noteq> None" "r' = r"
      "sanitizeRules (re_lower env) (re_compile env) raw = Inr (rules, cleaned, stats)"
      "rule_writeFileAtomic (re_os env) (re_tmp env) (rf_path r) cleaned s = (Some w, s')"
  | (committed) raw rules cleaned stats m where "e = None" "s (rf_path r) = Some raw"
      "sanitizeRules (re_lower env) (re_compile env) raw = Inr (rules, cleaned, stats)"
      "buildMatcher env s rules (rf_includes r) = Inr m"
      "r' = r\<lparr>rf_matcher := Some m, rf_lastGood := cleaned, rf_loaded := True\<rparr>"
      "if raw \<noteq> cleaned then rule_writeFileAtomic (re_os env) (re_tmp env) (rf_path r) cleaned s = (None, s') else s' = s"
proof (cases "os_ReadFile (re_os env) (rf_path r) s")
  case (Inl e1)
  then show ?thesis
    using assms unreadable unusable by (auto simp: reload_def split: if_splits)
next
  case (Inr raw)
  then have raw: "s (rf_path r) = Some raw" by (auto simp: os_ReadFile_def split: option.splits)
  show ?thesis
  proof (cases "sanitizeRules (re_lower env) (re_compile env) raw")
    case (Inl cause)
    with Inr assms unusable show ?thesis by (simp add: reload_def)
  next
    case san: (Inr t)
    obtain rules cleaned stats where t: "t = (rules, cleaned, stats)" by (cases t)
    show ?thesis
    proof (cases "0 < rs_meaningful stats \<and> length rules = 0 \<and> rf_loaded r")
      case True
      with Inr san t assms all_invalid show ?thesis
        by (cases "rule_writeFileAtomic (re_os env) (re_tmp env) (rf_path r) (rf_lastGood r) s")
          (auto simp: reload_def split: option.splits)
    next
      case False
      show ?thesis
      proof (cases "buildMatcher env s rules (rf_includes r)")
        case (Inl e1)
        with False Inr san t assms no_matcher show ?thesis by (auto simp: reload_def)
      next
        case b: (Inr m)
        note out = reload_usable [OF Inr san [unfolded t] False b]
        show ?thesis
        proof (cases "if raw \<noteq> cleaned then rule_writeFileAtomic (re_os env) (re_tmp env) (rf_path r) cleaned s else (None, s)")
          case w: (Pair w s1)
          with out assms raw san t b committed not_written show ?thesis by (cases w) (auto split: if_splits)
        qed
      qed
    qed
  qed
qed

lemma reload_inv:
  assumes "reload env s r = (e, s', r')" "rule_inv (re_compile env) (re_lib env) r"
  shows "rule_inv (re_compile env) (re_lib env) r' \<and> (e \<noteq> None \<longrightarrow> r' = r) \<and> (e = None \<longrightarrow> rf_loaded r')
    \<and> rf_path r' = rf_path r"
  using assms(1)
proof (cases rule: reload_cases)
  case (unusable cause)
  then show ?thesis using restoreOrClear_inv assms(2) by blast
next
  case (committed raw rules cleaned stats m)
  then show ?thesis
    using sanitizeRules_ok [OF committed(3)] policy_ofI [OF _ committed(4)] by (simp add: rule_inv_def)
qed (use assms(2) in auto)

lemma reload_bad_content:
  assumes "rf_loaded r" "os_fault (re_os env) (OpenRead (rf_path r)) = None"
    and "s (rf_path r) = None
      \<or> (\<exists>raw e. s (rf_path r) = Some raw \<and> sanitizeRules (re_lower env) (re_compile env) raw = Inl e)
      \<or> (\<exists>raw stats. s (rf_path r) = Some raw \<and> 0 < rs_meaningful stats
           \<and> sanitizeRules (re_lower env) (re_compile env) raw = Inr ([], [], stats))"
    and "reload env s r = (e, s', r')" "re_tmp env \<noteq> rf_path r"
  shows "r' = r \<and> s' (rf_path r) = (if e = None then Some (rf_lastGood r) else s (rf_path r))"
proof -
  from assms(3) consider "os_ReadFile (re_os env) (rf_path r) s = Inl errNotExist"
    | raw c where "os_ReadFile (re_os env) (rf_path r) s = Inr raw"
        "sanitizeRules (re_lower env) (re_compile env) raw = Inl c"
    | raw stats where "os_ReadFile (re_os env) (rf_path r) s = Inr raw" "0 < rs_meaningful stats"
        "sanitizeRules (re_lower env) (re_compile env) raw = Inr ([], [], stats)"
    using assms(2) by (auto simp: os_ReadFile_def)
  then show ?thesis
  proof cases
    case 1
    then show ?thesis
      using assms(4) restoreOrClear_loaded [OF assms(1) _ assms(5)] by (auto simp: reload_def)
  next
    case 2
    then show ?thesis
      using assms(4) restoreOrClear_loaded [OF assms(1) _ assms(5)] by (auto simp: reload_def)
  next
    case 3
    obtain w s1 where w: "rule_writeFileAtomic (re_os env) (re_tmp env) (rf_path r) (rf_lastGood r) s = (w, s1)"
      by fastforce
    then show ?thesis
      using assms(1,4) 3 rule_write_effect(1) [OF w assms(5)] by (auto simp: reload_def split: option.splits)
  qed
qed

lemma buildMatcher_no_includes: "buildMatcher env s rules [] = add_rules (re_lib env) rules (ml_new (re_lib env))"
  by (simp add: buildMatcher_def split: sum.splits)

subsection \<open>The watch loop\<close>

lemma watch_run_snoc:
  "fst (watch_run path (is @ [(now, i)]) w) = fst (watch_step path now i (fst (watch_run path is w)))"
  by (induction path "is" w rule: watch_run.induct) (auto simp: Let_def split: prod.splits)

lemma watch_due_origin:
  "wl_due (fst (watch_run path is watch_start)) = Some d \<Longrightarrow>
     \<exists>before t ev mid. is = before @ (t, ev) # mid \<and> relevant path ev \<and> d = t + reloadDebounce
       \<and> (\<forall>x\<in>set mid. \<not> (relevant path (snd x) \<and> \<not> wl_stopped (fst (watch_run path is watch_start))))"
proof (induction "is" arbitrary: d rule: rev_induct)
  case Nil
  then show ?case by (simp add: watch_start_def)
next
  case (snoc x "is")
  obtain now i where x: "x = (now, i)" by fastforce
  define w where "w = fst (watch_run path is watch_start)"
  have step: "fst (watch_run path (is @ [x]) watch_start) = fst (watch_step path now i w)"
    by (simp add: x watch_run_snoc w_def)
  show ?case
  proof (cases "relevant path i \<and> \<not> wl_stopped w")
    case True
    then have "wl_due (fst (watch_step path now i w)) = Some (now + reloadDebounce)"
      by (auto simp: watch_step_def relevant_def split: watch_input.splits)
    with snoc.prems step have "d = now + reloadDebounce" by simp
    with True show ?thesis
      by (intro exI [of _ "is"] exI [of _ now] exI [of _ i] exI [of _ "[]"]) (simp add: x)
  next
    case False
    have due: "wl_due w = Some d"
      using snoc.prems step False by (auto simp: watch_step_def split: watch_input.splits option.splits if_splits)
    have st: "wl_stopped w \<Longrightarrow> wl_stopped (fst (watch_step path now i w))"
      by (simp add: watch_step_def)
    from snoc.IH [OF due [unfolded w_def]] obtain before t ev mid where
      "is = before @ (t, ev) # mid" "relevant path ev" "d = t + reloadDebounce"
      "\<forall>x\<in>set mid. \<not> (relevant path (snd x) \<and> \<not> wl_stopped w)"
      unfolding w_def by blast
    with False st step show ?thesis
      by (intro exI [of _ before] exI [of _ t] exI [of _ ev] exI [of _ "mid @ [x]"]) (auto simp: x)
  qed
qed

definition harmless :: "string \<Rightarrow> watch_input \<Rightarrow> bool" where
  "harmless path i \<longleftrightarrow> (case i of FileEvent _ _ \<Rightarrow> \<not> relevant path i | WatchError _ \<Rightarrow> True | _ \<Rightarrow> False)"

lemma watch_harmless:
  "\<forall>x\<in>set mid. harmless path (snd x) \<Longrightarrow> fst (watch_run path mid w) = w"
proof (induction mid arbitrary: w)
  case (Cons x mid)
  obtain now i where x: "x = (now, i)" by fastforce
  have "fst (watch_step path now i w) = w"
    using Cons.prems by (auto simp: x harmless_def watch_step_def split: watch_input.splits)
  moreover have "fst (watch_run path mid w) = w" using Cons by simp
  ultimately show ?case by (simp add: x Let_def split_beta)
qed simp

lemma watch_run_append:
  "fst (watch_run path (xs @ ys) w) = fst (watch_run path ys (fst (watch_run path xs w)))"
  by (induction path xs w rule: watch_run.induct) (auto simp: Let_def split: prod.splits)

section \<open>Properties\<close>

definition set_lib :: "string set matcher_lib" where
  "set_lib = \<lparr>ml_new = {}, ml_add = (\<lambda>rule m. Inr (insert rule m)), ml_load = (\<lambda>_ m. Inr m), ml_match = (\<lambda>m n. n \<in> m)\<rparr>"

definition set_env :: "string set rule_env" where
  "set_env = \<lparr>re_os = os_fine, re_tmp = ''/data/.p.tmp-1'', re_lower = id, re_compile = (\<lambda>_. None), re_lib = set_lib\<rparr>"

lemma set_env_simps [simp]:
  "re_os set_env = os_fine" "re_tmp set_env = ''/data/.p.tmp-1''" "re_lower set_env = id"
  "re_compile set_env = (\<lambda>_. None)" "re_lib set_env = set_lib"
  by (simp_all add: set_env_def)

lemma add_rules_set [simp]: "add_rules set_lib rules m = Inr (m \<union> set rules)"
  by (induction rules arbitrary: m) (auto simp: set_lib_def)

lemma ReadFile_fine [simp]: "os_ReadFile os_fine path s = (case s path of None \<Rightarrow> Inl errNotExist | Some c \<Rightarrow> Inr c)"
  by (simp add: os_ReadFile_def os_fine_def)

lemma sample_start:
  "newRuleFile set_env Inr (Some (''/data/p'', [])) None Map.empty
     = ([''/data/p'' \<mapsto> []], Inr \<lparr>rf_path = ''/data/p'', rf_includes = [], rf_matcher = Some {}, rf_lastGood = [],
          rf_loaded = True, rf_closed = False\<rparr>)"
  by (simp add: newRuleFile_def reload_def restoreOrClear_def rule_write_fine buildMatcher_no_includes)
    (simp add: set_lib_def)

text \<open>
  Property C18.  A bad edit never loses the policy: when the file of a loaded plugin is deleted,
  grows beyond the limit, or holds rules none of which is valid, the matcher and the last good
  content stay as they are, and the file on disk either gets the last good content back or, if
  writing fails, is left as it was.
\<close>

theorem bad_edit_keeps_policy:
  assumes "rf_loaded r" "os_fault (re_os env) (OpenRead (rf_path r)) = None" "re_tmp env \<noteq> rf_path r"
    and "s (rf_path r) = None
      \<or> (\<exists>raw e. s (rf_path r) = Some raw \<and> sanitizeRules (re_lower env) (re_compile env) raw = Inl e)
      \<or> (\<exists>raw stats. s (rf_path r) = Some raw \<and> 0 < rs_meaningful stats
           \<and> sanitizeRules (re_lower env) (re_compile env) raw = Inr ([], [], stats))"
  shows "\<exists>e s'. reload env s r = (e, s', r)
    \<and> s' (rf_path r) = (if e = None then Some (rf_lastGood r) else s (rf_path r))"
proof -
  obtain e s' r' where rl: "reload env s r = (e, s', r')" by (cases "reload env s r") auto
  with reload_bad_content [OF assms(1,2,4) rl assms(3)] show ?thesis by blast
qed

definition loaded_file :: "string set ruleFile" where
  "loaded_file = \<lparr>rf_path = ''/data/p'', rf_includes = [], rf_matcher = Some {''full:a''},
     rf_lastGood = ''full:a'' @ [newline], rf_loaded = True, rf_closed = False\<rparr>"

theorem bad_edit_keeps_policy_witness:
  "\<exists>e s'. reload set_env Map.empty loaded_file = (e, s', loaded_file)"
proof -
  have "os_fault os_fine (OpenRead (rf_path loaded_file)) = None" by (simp add: os_fine_def)
  with bad_edit_keeps_policy [of loaded_file set_env Map.empty] show ?thesis
    by (auto simp: loaded_file_def)
qed

text \<open>Reloading a file that holds the cleaned form of its own policy changes nothing.\<close>

lemma reload_settled:
  assumes "re_os env = os_fine" "sanitizeRules (re_lower env) (re_compile env) raw = Inr (rules, cleaned, stats)" "rules \<noteq> []"
    and "s (rf_path r) = Some cleaned" "length cleaned \<le> maxRuleFileBytes"
    and "buildMatcher env s rules (rf_includes r) = Inr m"
    and "rf_matcher r = Some m" "rf_lastGood r = cleaned" "rf_loaded r"
  shows "reload env s r = (None, s, r)"
  unfolding reload_def assms(1) using assms(3-) sanitize_stable [OF assms(2,5)] by simp

text \<open>
  Property C31.  Reloads are debounced.  A reload at an instant happens only when a relevant event
  came at least 200 milliseconds before it and, on a running loop, no relevant event came in
  between; and a relevant event is never forgotten: as long as only irrelevant inputs follow it, the
  timer's tick reloads exactly from 200 milliseconds after it.
\<close>

theorem watch_debounced:
  "(snd (watch_step path now i (fst (watch_run path is watch_start))) \<longrightarrow>
      (\<exists>before t ev mid. is = before @ (t, ev) # mid \<and> relevant path ev \<and> t + reloadDebounce \<le> now
         \<and> (\<forall>x\<in>set mid. \<not> relevant path (snd x))))
   \<and> (\<not> wl_stopped (fst (watch_run path is watch_start)) \<and> relevant path ev
        \<and> (\<forall>x\<in>set mid. harmless path (snd x)) \<longrightarrow>
      (snd (watch_step path now Debounced (fst (watch_run path (is @ (t, ev) # mid) watch_start)))
       \<longleftrightarrow> t + reloadDebounce \<le> now))"
proof (intro conjI impI)
  define w where "w = fst (watch_run path is watch_start)"
  assume "snd (watch_step path now i (fst (watch_run path is watch_start)))"
  then have f: "snd (watch_step path now i w)" by (simp add: w_def)
  then obtain d where d: "wl_due w = Some d" "d \<le> now" "\<not> wl_stopped w"
    by (auto simp: watch_step_def not_less split: watch_input.splits option.splits if_splits)
  from watch_due_origin [OF d(1) [unfolded w_def]] d(2,3) show
    "\<exists>before t ev mid. is = before @ (t, ev) # mid \<and> relevant path ev \<and> t + reloadDebounce \<le> now
       \<and> (\<forall>x\<in>set mid. \<not> relevant path (snd x))"
    unfolding w_def by blast
next
  define w where "w = fst (watch_run path is watch_start)"
  assume a: "\<not> wl_stopped (fst (watch_run path is watch_start)) \<and> relevant path ev
    \<and> (\<forall>x\<in>set mid. harmless path (snd x))"
  have "fst (watch_run path (is @ (t, ev) # mid) watch_start) = fst (watch_step path t ev w)"
    using watch_harmless [of mid path] a
    by (simp add: watch_run_append Let_def split_beta w_def)
  moreover have "wl_due (fst (watch_step path t ev w)) = Some (t + reloadDebounce)"
    "\<not> wl_stopped (fst (watch_step path t ev w))"
    using a by (auto simp: watch_step_def relevant_def w_def split: watch_input.splits)
  ultimately show "snd (watch_step path now Debounced (fst (watch_run path (is @ (t, ev) # mid) watch_start)))
      \<longleftrightarrow> t + reloadDebounce \<le> now"
    by (simp add: watch_step_def)
qed

theorem watch_debounced_witness:
  "snd (watch_step ''/p'' 300000000 Debounced (fst (watch_run ''/p'' [(0, FileEvent ''/p'' {NotifyWrite})] watch_start)))"
  using watch_debounced [of "''/p''" 300000000 Debounced "[]" "FileEvent ''/p'' {NotifyWrite}" "[]" 0]
  by (simp add: watch_start_def relevant_def reloadDebounce_def millisecond_def)

end
