(* ===== verification/RuleReload.thy ===== *)
theory RuleReload
  imports RuleFile
begin

text \<open>
  internal/rulesplugin/rulesplugin.go, \<^verbatim>\<open>reload\<close> as the watch goroutine runs it: one step per
  access to the disk or to the shared fields, with the operator's edits in between.  The theory shows
  that the steps alone amount to the function \<open>reload\<close> of RuleFile, that the policy in force stays
  valid under every interleaving with edits and faults, and what an edit between the read and the
  write does.
\<close>

section \<open>The steps of a reload\<close>

text \<open>
  Where the goroutine is.  Only this goroutine writes \<^verbatim>\<open>matcher\<close>, \<^verbatim>\<open>lastGood\<close> and
  \<^verbatim>\<open>loaded\<close>, so its reads of them need no step of their own.  The replacement of the file takes
  effect at its rename and is one step.
\<close>

datatype 'm reload_pc =
    Reading
  | Fetched string
  | Restoring string string
  | Clearing goerr
  | Rebuilding
  | Building string "string list" string
  | Writing 'm string
  | Publishing 'm string
  | Returned "goerr option"

type_synonym 'm reload_conf = "fs \<times> 'm ruleFile \<times> 'm reload_pc"

definition fallback :: "goerr \<Rightarrow> 'm ruleFile \<Rightarrow> 'm reload_pc" where
  "fallback cause r =
     (if rf_loaded r then Restoring (''restore last valid rule file after '' @ err_text cause) (rf_lastGood r)
      else Clearing cause)"

fun reload_step :: "'m rule_env \<Rightarrow> 'm reload_conf \<Rightarrow> 'm reload_conf" where
  "reload_step env (s, r, Reading) =
     (s, r, case os_ReadFile (re_os env) (rf_path r) s of
        Inl e \<Rightarrow> if err_ident e = err_ident errNotExist then fallback (error_new ''rule file was removed'') r
                else Returned (Some (error_wrap ''read rule file'' e))
      | Inr raw \<Rightarrow> Fetched raw)"
| "reload_step env (s, r, Fetched raw) =
     (s, r, case sanitizeRules (re_lower env) (re_compile env) raw of
        Inl e \<Rightarrow> fallback e r
      | Inr (rules, cleaned, stats) \<Rightarrow>
          if 0 < rs_meaningful stats \<and> length rules = 0 \<and> rf_loaded r
          then Restoring ''restore last valid rule file'' (rf_lastGood r)
          else Building raw rules cleaned)"
| "reload_step env (s, r, Restoring context lastGood) =
     (case rule_writeFileAtomic (re_os env) (re_tmp env) (rf_path r) lastGood s of
        (w, s') \<Rightarrow> (s', r, Returned (map_option (error_wrap context) w)))"
| "reload_step env (s, r, Clearing cause) =
     (case rule_writeFileAtomic (re_os env) (re_tmp env) (rf_path r) [] s of
        (Some e, s') \<Rightarrow> (s', r, Returned (Some (error_wrap (''clear invalid initial rule file after '' @ err_text cause) e)))
      | (None, s') \<Rightarrow> (s', r, Rebuilding))"
| "reload_step env (s, r, Rebuilding) =
     (s, r, case buildMatcher env s [] (rf_includes r) of
        Inl e \<Rightarrow> Returned (Some e) | Inr m \<Rightarrow> Publishing m [])"
| "reload_step env (s, r, Building raw rules cleaned) =
     (s, r, case buildMatcher env s rules (rf_includes r) of
        Inl e \<Rightarrow> Returned (Some e)
      | Inr m \<Rightarrow> if raw \<noteq> cleaned then Writing m cleaned else Publishing m cleaned)"
| "reload_step env (s, r, Writing m cleaned) =
     (case rule_writeFileAtomic (re_os env) (re_tmp env) (rf_path r) cleaned s of
        (Some e, s') \<Rightarrow> (s', r, Returned (Some (error_wrap ''write sanitized rule file'' e)))
      | (None, s') \<Rightarrow> (s', r, Publishing m cleaned))"
| "reload_step env (s, r, Publishing m cleaned) =
     (s, r\<lparr>rf_matcher := Some m, rf_lastGood := cleaned, rf_loaded := True\<rparr>, Returned None)"
| "reload_step env (s, r, Returned e) = (s, r, Returned e)"

fun reload_steps :: "nat \<Rightarrow> 'm rule_env \<Rightarrow> 'm reload_conf \<Rightarrow> 'm reload_conf" where
  "reload_steps 0 env c = c"
| "reload_steps (Suc n) env c = reload_steps n env (reload_step env c)"

section \<open>With the operator\<close>

text \<open>Anything may happen to the files at any time, and each step may meet other faults; the goroutine
  starts the next reload when the last one has returned.  What is fixed is the code it links: case
  folding, the regular expression compiler and the matcher library.\<close>

definition same_code :: "'m rule_env \<Rightarrow> 'm rule_env \<Rightarrow> bool" where
  "same_code env env' \<longleftrightarrow>
     re_lower env' = re_lower env \<and> re_compile env' = re_compile env \<and> re_lib env' = re_lib env"

inductive rule_step :: "'m rule_env \<Rightarrow> 'm reload_conf \<Rightarrow> 'm reload_conf \<Rightarrow> bool" for env where
  edit: "rule_step env (s, r, pc) (s', r, pc)"
| work: "same_code env env' \<Longrightarrow> rule_step env c (reload_step env' c)"
| again: "rule_step env (s, r, Returned e) (s, r, Reading)"

inductive_cases rule_stepE [elim]: "rule_step env c c'"

abbreviation rule_reach :: "'m rule_env \<Rightarrow> 'm reload_conf \<Rightarrow> 'm reload_conf \<Rightarrow> bool" where
  "rule_reach env \<equiv> (rule_step env)\<^sup>*\<^sup>*"

section \<open>The steps alone\<close>

lemma reload_steps_returned [simp]: "reload_steps n env (s, r, Returned e) = (s, r, Returned e)"
  by (induction n) simp_all

lemma fallback_steps:
  "reload_steps (Suc (Suc (Suc n))) env (s, r, fallback cause r)
     = (case restoreOrClear env cause s r of (e, s', r') \<Rightarrow> (s', r', Returned e))"
proof (cases "rf_loaded r")
  case True
  then show ?thesis
    by (cases "rule_writeFileAtomic (re_os env) (re_tmp env) (rf_path r) (rf_lastGood r) s")
      (auto simp: fallback_def restoreOrClear_def split: option.splits)
next
  case False
  obtain w s1 where "rule_writeFileAtomic (re_os env) (re_tmp env) (rf_path r) [] s = (w, s1)" by fastforce
  with False show ?thesis
    by (cases w; cases "buildMatcher env s1 [] (rf_includes r)") (auto simp: fallback_def restoreOrClear_def)
qed

lemma building_steps:
  "reload_steps 3 env (s, r, Building raw rules cleaned)
     = (case buildMatcher env s rules (rf_includes r) of
          Inl e \<Rightarrow> (s, r, Returned (Some e))
        | Inr m \<Rightarrow>
            (case (if raw \<noteq> cleaned then rule_writeFileAtomic (re_os env) (re_tmp env) (rf_path r) cleaned s else (None, s)) of
               (Some e, s') \<Rightarrow> (s', r, Returned (Some (error_wrap ''write sanitized rule file'' e)))
             | (None, s') \<Rightarrow> (s', r\<lparr>rf_matcher := Some m, rf_lastGood := cleaned, rf_loaded := True\<rparr>, Returned None)))"
  by (auto simp: numeral_3_eq_3 split: sum.splits prod.splits option.splits)

lemma fetched_steps:
  assumes "os_ReadFile (re_os env) (rf_path r) s = Inr raw"
  shows "reload_steps 4 env (s, r, Fetched raw) = (case reload env s r of (e, s', r') \<Rightarrow> (s', r', Returned e))"
proof -
  have four: "reload_steps 4 env (s, r, Fetched raw) = reload_steps 3 env (reload_step env (s, r, Fetched raw))"
    by (simp add: numeral_eq_Suc)
  show ?thesis
  proof (cases "sanitizeRules (re_lower env) (re_compile env) raw")
    case (Inl e)
    have "reload_steps 4 env (s, r, Fetched raw) = reload_steps (Suc (Suc (Suc 0))) env (s, r, fallback e r)"
      unfolding four by (simp add: Inl numeral_3_eq_3)
    then show ?thesis unfolding fallback_steps using assms by (simp add: reload_def Inl)
  next
    case (Inr t)
    obtain rules cleaned stats where t: "t = (rules, cleaned, stats)" by (cases t)
    show ?thesis
    proof (cases "0 < rs_meaningful stats \<and> length rules = 0 \<and> rf_loaded r")
      case True
      then show ?thesis
        unfolding four using assms
        by (cases "rule_writeFileAtomic (re_os env) (re_tmp env) (rf_path r) (rf_lastGood r) s")
          (auto simp: reload_def Inr t numeral_3_eq_3 split: option.splits)
    next
      case False
      then have step: "reload_step env (s, r, Fetched raw) = (s, r, Building raw rules cleaned)"
        by (simp only: reload_step.simps Inr t sum.case prod.case if_False)
      show ?thesis
        unfolding four step reload_def assms Inr t sum.case prod.case if_not_P [OF False]
        by (simp add: building_steps split: sum.splits prod.splits option.splits)
    qed
  qed
qed

lemma reload_steps_alone:
  "reload_steps 5 env (s, r, Reading) = (case reload env s r of (e, s', r') \<Rightarrow> (s', r', Returned e))"
proof -
  have five: "reload_steps 5 env (s, r, Reading) = reload_steps 4 env (reload_step env (s, r, Reading))"
    by (simp add: numeral_eq_Suc)
  show ?thesis
  proof (cases "os_ReadFile (re_os env) (rf_path r) s")
    case (Inl e)
    show ?thesis
    proof (cases "err_ident e = err_ident errNotExist")
      case True
      then have "reload_steps 5 env (s, r, Reading)
          = reload_steps (Suc (Suc (Suc 1))) env (s, r, fallback (error_new ''rule file was removed'') r)"
        unfolding five by (simp add: Inl numeral_eq_Suc)
      then show ?thesis unfolding fallback_steps using True by (simp add: reload_def Inl)
    qed (simp add: five Inl reload_def)
  next
    case (Inr raw)
    then show ?thesis using fetched_steps [OF Inr] by (simp add: five)
  qed
qed

section \<open>Every interleaving\<close>

text \<open>A content the file had at some point of a run.\<close>

definition seen :: "'m rule_env \<Rightarrow> 'm reload_conf \<Rightarrow> string \<Rightarrow> string \<Rightarrow> 'm reload_conf \<Rightarrow> bool" where
  "seen env c0 path raw c \<longleftrightarrow> (\<exists>c1. rule_reach env c0 c1 \<and> rule_reach env c1 c \<and> fst c1 path = Some raw)"

lemma seen_step: "seen env c0 path raw c \<Longrightarrow> rule_step env c c' \<Longrightarrow> seen env c0 path raw c'"
  unfolding seen_def by (meson rtranclp.rtrancl_into_rtrancl)

lemma seen_now: "rule_reach env c0 c \<Longrightarrow> fst c path = Some raw \<Longrightarrow> seen env c0 path raw c"
  unfolding seen_def by blast

text \<open>A text that cleaning some content of the file gave, and a matcher built from its rules.\<close>

definition cleaned_from :: "'m rule_env \<Rightarrow> 'm reload_conf \<Rightarrow> string \<Rightarrow> string \<Rightarrow> 'm reload_conf \<Rightarrow> bool" where
  "cleaned_from env c0 path text c \<longleftrightarrow>
     (\<exists>raw rules stats. seen env c0 path raw c \<and> sanitizeRules (re_lower env) (re_compile env) raw = Inr (rules, text, stats))"

lemma cleaned_from_step:
  "cleaned_from env c0 path text c \<Longrightarrow> rule_step env c c' \<Longrightarrow> cleaned_from env c0 path text c'"
  unfolding cleaned_from_def using seen_step by blast

definition built_from :: "'m rule_env \<Rightarrow> string list \<Rightarrow> string \<Rightarrow> 'm \<Rightarrow> bool" where
  "built_from env includes text m \<longleftrightarrow>
     (\<exists>rules env' s. (\<forall>rule\<in>set rules. rule_ok (re_compile env) rule) \<and> text = cleaned_text rules
        \<and> re_lib env' = re_lib env \<and> buildMatcher env' s rules includes = Inr m)"

fun pc_ok :: "'m rule_env \<Rightarrow> 'm reload_conf \<Rightarrow> string \<Rightarrow> 'm reload_conf \<Rightarrow> bool" where
  "pc_ok env c0 path (s, r, Fetched raw) \<longleftrightarrow> seen env c0 path raw (s, r, Fetched raw)"
| "pc_ok env c0 path (s, r, Restoring context text) \<longleftrightarrow> text = rf_lastGood r"
| "pc_ok env c0 path (s, r, Building raw rules cleaned) \<longleftrightarrow>
     (\<forall>rule\<in>set rules. rule_ok (re_compile env) rule) \<and> cleaned = cleaned_text rules
     \<and> cleaned_from env c0 path cleaned (s, r, Building raw rules cleaned)"
| "pc_ok env c0 path (s, r, Writing m cleaned) \<longleftrightarrow>
     built_from env (rf_includes r) cleaned m \<and> cleaned_from env c0 path cleaned (s, r, Writing m cleaned)"
| "pc_ok env c0 path (s, r, Publishing m cleaned) \<longleftrightarrow>
     built_from env (rf_includes r) cleaned m \<and> cleaned_from env c0 path cleaned (s, r, Publishing m cleaned)"
| "pc_ok env c0 path (s, r, Clearing cause) \<longleftrightarrow> False"
| "pc_ok env c0 path (s, r, Rebuilding) \<longleftrightarrow> False"
| "pc_ok env c0 path (s, r, Reading) \<longleftrightarrow> True"
| "pc_ok env c0 path (s, r, Returned e) \<longleftrightarrow> True"

definition file_ok :: "'m rule_env \<Rightarrow> 'm reload_conf \<Rightarrow> string \<Rightarrow> string \<Rightarrow> 'm reload_conf \<Rightarrow> bool" where
  "file_ok env c0 path g0 c \<longleftrightarrow>
     (case c of (s, r, pc) \<Rightarrow> rf_path r = path \<and> rf_loaded r \<and> policy_of (re_compile env) (re_lib env) r
        \<and> (rf_lastGood r = g0 \<or> cleaned_from env c0 path (rf_lastGood r) c)) \<and> pc_ok env c0 path c"

lemma policy_of_built:
  "built_from env (rf_includes r) text m \<Longrightarrow>
     policy_of (re_compile env) (re_lib env) (r\<lparr>rf_matcher := Some m, rf_lastGood := text, rf_loaded := True\<rparr>)"
  unfolding built_from_def policy_of_def by fastforce

text \<open>What a step of the goroutine does to the plugin: nothing, except to publish.\<close>

lemma reload_step_plugin:
  assumes "reload_step env (s, r, pc) = (s', r', pc')"
  shows "r' = r \<or> (\<exists>m text. pc = Publishing m text \<and> pc' = Returned None
    \<and> r' = r\<lparr>rf_matcher := Some m, rf_lastGood := text, rf_loaded := True\<rparr>)"
  using assms by (cases pc) (auto split: prod.splits option.splits)

lemma reload_step_pc:
  assumes "reload_step env' (s, r, pc) = (s', r', pc')" "same_code env env'" "rf_loaded r" "rf_path r = path"
    and "pc_ok env c0 path (s, r, pc)" "rule_reach env c0 (s, r, pc)"
  shows "pc_ok env c0 path (s', r', pc')"
proof -
  have st: "rule_step env (s, r, pc) (s', r', pc')" using work [OF assms(2), of "(s, r, pc)"] assms(1) by simp
  with assms(6) have rch: "rule_reach env c0 (s', r', pc')" by (rule rtranclp.rtrancl_into_rtrancl)
  show ?thesis
  proof (cases pc)
    case Reading
    with assms(1,3,4) seen_now [OF rch] show ?thesis
      by (auto simp: fallback_def os_ReadFile_def split: sum.splits option.splits if_splits)
  next
    case (Fetched raw)
    show ?thesis
    proof (cases "sanitizeRules (re_lower env') (re_compile env') raw")
      case (Inl e)
      with Fetched assms(1,3) show ?thesis by (auto simp: fallback_def)
    next
      case (Inr t)
      obtain rules cleaned stats where t: "t = (rules, cleaned, stats)" by (cases t)
      have san: "sanitizeRules (re_lower env) (re_compile env) raw = Inr (rules, cleaned, stats)"
        using Inr t assms(2) by (simp add: same_code_def)
      have "cleaned_from env c0 path cleaned (s', r', pc')"
        unfolding cleaned_from_def using seen_step [OF _ st, of c0 path raw] assms(5) san Fetched by auto
      with Fetched assms(1) sanitizeRules_ok [OF san] show ?thesis by (auto simp: Inr t split: if_splits)
    qed
  next
    case (Building raw rules cleaned)
    then have c: "cleaned_from env c0 path cleaned (s', r', pc')" using cleaned_from_step [OF _ st, of c0 path] assms(5) by auto
    have "built_from env (rf_includes r) cleaned m" if "buildMatcher env' s rules (rf_includes r) = Inr m" for m
      unfolding built_from_def using assms(2,5) that Building by (auto simp: same_code_def)
    with Building assms(1) c show ?thesis by (auto split: sum.splits if_splits)
  next
    case (Writing m cleaned)
    then have "cleaned_from env c0 path cleaned (s', r', pc')" using cleaned_from_step [OF _ st, of c0 path] assms(5) by auto
    with Writing assms(1,5) show ?thesis by (auto split: prod.splits option.splits)
  qed (use assms(1,5) in \<open>auto split: prod.splits option.splits\<close>)
qed

lemma pc_ok_edit:
  assumes "pc_ok env c0 path (s, r, pc)"
  shows "pc_ok env c0 path (s', r, pc)"
  using assms seen_step [OF _ edit, of env c0 path _ s r pc s'] cleaned_from_step [OF _ edit, of env c0 path _ s r pc s']
  by (cases pc) auto

lemma file_ok_step:
  assumes "rule_step env c c'" "file_ok env c0 path g0 c" "rule_reach env c0 c"
  shows "file_ok env c0 path g0 c'"
proof -
  note later = cleaned_from_step [OF _ assms(1), of c0 path]
  from assms(1) show ?thesis
  proof cases
    case (edit s r pc s')
    then show ?thesis
      using assms(2) pc_ok_edit [of env c0 path s r pc s'] later by (auto simp: file_ok_def)
  next
    case (again s r e)
    then show ?thesis using assms(2) later by (auto simp: file_ok_def)
  next
    case (work env')
    obtain s r pc where c: "c = (s, r, pc)" by (cases c)
    obtain s' r' pc' where c': "c' = (s', r', pc')" by (cases c')
    have step: "reload_step env' (s, r, pc) = (s', r', pc')" using work c c' by simp
    have ok: "rf_path r = path" "rf_loaded r" "policy_of (re_compile env) (re_lib env) r"
      "rf_lastGood r = g0 \<or> cleaned_from env c0 path (rf_lastGood r) c" "pc_ok env c0 path (s, r, pc)"
      using assms(2) by (auto simp: file_ok_def c)
    have pc: "pc_ok env c0 path (s', r', pc')"
      by (rule reload_step_pc [OF step work(2) ok(2,1,5)]) (use assms(3) c in simp)
    from reload_step_plugin [OF step] show ?thesis
    proof
      assume "r' = r"
      with ok pc later show ?thesis by (auto simp: file_ok_def c')
    next
      assume "\<exists>m text. pc = Publishing m text \<and> pc' = Returned None
        \<and> r' = r\<lparr>rf_matcher := Some m, rf_lastGood := text, rf_loaded := True\<rparr>"
      then obtain m g where p: "pc = Publishing m g"
        "r' = r\<lparr>rf_matcher := Some m, rf_lastGood := g, rf_loaded := True\<rparr>" by blast
      then have "built_from env (rf_includes r) g m" "cleaned_from env c0 path g c" using ok(5) c by auto
      with p ok(1) pc policy_of_built later show ?thesis by (auto simp: file_ok_def c')
    qed
  qed
qed

lemma file_ok_reach:
  assumes "rule_reach env c0 c" "file_ok env c0 path g0 c0"
  shows "file_ok env c0 path g0 c"
  using assms by (induction rule: rtranclp_induct) (auto intro: file_ok_step)

section \<open>Properties\<close>

text \<open>
  Property C3.  Whatever the operator, the disk and the goroutine do, in whatever order, after a
  successful start: at every moment the plugin has a policy, its matcher was built from a list of
  canonical rules whose text is the last good content, and that text is the one of the start or the
  cleaned form of a content the file had at some moment of the run.
\<close>

theorem policy_always_valid:
  assumes "newRuleFile env absPath args watch s = (s1, Inr r)"
    and "rule_reach env (s1, r, Returned None) (s2, r2, pc)"
  shows "rf_loaded r2 \<and> policy_of (re_compile env) (re_lib env) r2
    \<and> (rf_lastGood r2 = rf_lastGood r
       \<or> cleaned_from env (s1, r, Returned None) (rf_path r) (rf_lastGood r2) (s2, r2, pc))"
proof -
  obtain path incs where
    rl: "reload env s \<lparr>rf_path = path, rf_includes = incs, rf_matcher = None, rf_lastGood = [],
      rf_loaded = False, rf_closed = False\<rparr> = (None, s1, r)"
    using assms(1) by (auto simp: newRuleFile_def split: option.splits prod.splits sum.splits if_splits)
  have "rule_inv (re_compile env) (re_lib env) r \<and> rf_loaded r"
    using reload_inv [OF rl] by (simp add: rule_inv_def)
  then have "file_ok env (s1, r, Returned None) (rf_path r) (rf_lastGood r) (s1, r, Returned None)"
    by (simp add: file_ok_def rule_inv_def)
  from file_ok_reach [OF assms(2) this] show ?thesis by (auto simp: file_ok_def)
qed

lemma reload_steps_reach: "rule_reach env c (reload_steps n env c)"
proof (induction n arbitrary: c)
  case (Suc n)
  have "rule_step env c (reload_step env c)" by (rule work) (simp add: same_code_def)
  then show ?case using Suc by (simp add: converse_rtranclp_into_rtranclp)
qed simp

text \<open>An edit followed by a complete reload is a run.\<close>

lemma edit_reload_reach:
  assumes "reload env s' r = (e', s2, r2)"
  shows "rule_reach env (s, r, Returned e) (s2, r2, Returned e')"
proof -
  have "rule_step env (s, r, Returned e) (s', r, Returned e)" by (rule edit)
  moreover have "rule_step env (s', r, Returned e) (s', r, Reading)" by (rule again)
  moreover have "rule_reach env (s', r, Reading) (s2, r2, Returned e')"
    using reload_steps_reach [of env "(s', r, Reading)" 5] reload_steps_alone [of env s' r] assms by simp
  ultimately show ?thesis by (meson converse_rtranclp_into_rtranclp)
qed

theorem policy_always_valid_witness:
  "let r = \<lparr>rf_path = ''/data/p'', rf_includes = [], rf_matcher = Some {}, rf_lastGood = [], rf_loaded = True, rf_closed = False\<rparr>
   in policy_of (\<lambda>_. None) set_lib (snd (snd (reload set_env [''/data/p'' \<mapsto> ''a.b''] r)))"
proof -
  define r where "r = \<lparr>rf_path = ''/data/p'', rf_includes = [], rf_matcher = Some {} :: string set option, rf_lastGood = [],
    rf_loaded = True, rf_closed = False\<rparr>"
  obtain e s2 r2 where rl: "reload set_env [''/data/p'' \<mapsto> ''a.b''] r = (e, s2, r2)"
    by (cases "reload set_env [''/data/p'' \<mapsto> ''a.b''] r") auto
  from policy_always_valid [OF sample_start edit_reload_reach [OF rl [unfolded r_def]]]
  show ?thesis unfolding Let_def r_def [symmetric] rl by simp
qed

text \<open>Whether a reload replaces the file, which the watcher reports and so triggers the next one.\<close>

fun replaces :: "'m reload_pc \<Rightarrow> bool" where
  "replaces (Restoring context g) = True"
| "replaces (Clearing cause) = True"
| "replaces (Writing m g) = True"
| "replaces _ = False"

definition reload_rewrites :: "'m rule_env \<Rightarrow> fs \<Rightarrow> 'm ruleFile \<Rightarrow> bool" where
  "reload_rewrites env s r \<longleftrightarrow> fst (reload env s r) = None
     \<and> list_ex (\<lambda>n. replaces (snd (snd (reload_steps n env (s, r, Reading))))) [0..<5]"

lemma upt_5: "[0..<5] = [0, 1, 2, 3, 4::nat]"
  by (simp add: upt_rec)

lemma settled_rewrites_not:
  assumes "re_os env = os_fine" "sanitizeRules (re_lower env) (re_compile env) raw = Inr (rules, cleaned, stats)" "rules \<noteq> []"
    and "s (rf_path r) = Some cleaned" "length cleaned \<le> maxRuleFileBytes"
    and "buildMatcher env s rules (rf_includes r) = Inr m"
  shows "\<not> reload_rewrites env s r"
  using assms sanitize_stable [OF assms(2,5)]
  by (simp add: reload_rewrites_def upt_5 numeral_eq_Suc)

lemma unusable_rewrites:
  assumes "re_os env = os_fine" "re_tmp env \<noteq> rf_path r" "s (re_tmp env) = None" "rf_loaded r"
    and "s (rf_path r) = Some raw" "sanitizeRules (re_lower env) (re_compile env) raw = Inl e"
  shows "reload_rewrites env s r" "reload env s r = (None, s(rf_path r \<mapsto> rf_lastGood r), r)"
proof -
  show r: "reload env s r = (None, s(rf_path r \<mapsto> rf_lastGood r), r)"
    using assms rule_write_fine [of "re_tmp env" "rf_path r" s "rf_lastGood r"]
    by (simp add: reload_def restoreOrClear_def)
  have "reload_steps 2 env (s, r, Reading)
      = (s, r, Restoring (''restore last valid rule file after '' @ err_text e) (rf_lastGood r))"
    using assms by (simp add: numeral_2_eq_2 fallback_def)
  then show "reload_rewrites env s r" by (simp add: reload_rewrites_def upt_5 r)
qed

text \<open>The sample file of one bare domain.\<close>

lemma sample_sanitize:
  "sanitizeRules (re_lower set_env) (re_compile set_env) (concat (replicate 1 (''a.b'' @ [newline])))
     = Inr (replicate 1 ''domain:a.b'', strings_Join (replicate 1 ''domain:a.b'') newline @ [newline],
         \<lparr>rs_meaningful = 1, rs_rejected = 0\<rparr>)"
  unfolding set_env_simps by (rule bare_domain_file) (simp_all add: maxRuleFileBytes_def)

lemma sample_build: "buildMatcher set_env s (replicate 1 ''domain:a.b'') (rf_includes loaded_file) = Inr {''domain:a.b''}"
  by (simp add: loaded_file_def buildMatcher_no_includes) (simp add: set_lib_def)

text \<open>Building the matcher reads the bundled files only.\<close>

lemma add_includes_frame: "path \<notin> set files \<Longrightarrow> add_includes os lib (s(path := x)) files m = add_includes os lib s files m"
  by (induction files arbitrary: m) (auto simp: os_ReadFile_def split: option.splits sum.splits)

lemma buildMatcher_frame:
  "path \<notin> set files \<Longrightarrow> buildMatcher env (s(path := x)) rules files = buildMatcher env s rules files"
  using add_includes_frame [of path files "re_os env" "re_lib env" s x]
  by (simp add: buildMatcher_def split: sum.splits)

text \<open>
  Property C17.  An edit can be lost without a trace: when the operator saves new rules after a reload
  has read the file and before it has written the cleaned form of the old ones back, the write
  replaces the new rules, the old ones become the policy, and the reload that this write triggers
  finds nothing to do.
\<close>

theorem concurrent_edit_lost:
  assumes "re_os env = os_fine" "re_tmp env \<noteq> rf_path r" "s (re_tmp env) = None" "s (rf_path r) = Some old"
    and "sanitizeRules (re_lower env) (re_compile env) old = Inr (rules, cleaned, stats)" "rules \<noteq> []" "old \<noteq> cleaned"
    and "length cleaned \<le> maxRuleFileBytes" "buildMatcher env s rules (rf_includes r) = Inr m"
    and "rf_path r \<notin> set (rf_includes r)"
  shows "let r' = r\<lparr>rf_matcher := Some m, rf_lastGood := cleaned, rf_loaded := True\<rparr>;
      s' = s(rf_path r \<mapsto> cleaned)
    in reload_step env (s, r, Reading) = (s, r, Fetched old)
      \<and> reload_steps 4 env (s(rf_path r \<mapsto> new), r, Fetched old) = (s', r', Returned None)
      \<and> reload env s' r' = (None, s', r')"
proof -
  define r' where "r' = r\<lparr>rf_matcher := Some m, rf_lastGood := cleaned, rf_loaded := True\<rparr>"
  note build = buildMatcher_frame [OF assms(10), of env s _ rules, unfolded assms(9)]
  have "rule_writeFileAtomic os_fine (re_tmp env) (rf_path r) cleaned (s(rf_path r \<mapsto> new)) = (None, s(rf_path r \<mapsto> cleaned))"
    using rule_write_fine [of "re_tmp env" "rf_path r" "s(rf_path r \<mapsto> new)" cleaned] assms(2,3) by simp
  then have "reload_steps 4 env (s(rf_path r \<mapsto> new), r, Fetched old) = (s(rf_path r \<mapsto> cleaned), r', Returned None)"
    using assms(1,5-7) build by (simp add: numeral_eq_Suc r'_def)
  moreover have "reload env (s(rf_path r \<mapsto> cleaned)) r' = (None, s(rf_path r \<mapsto> cleaned), r')"
    by (rule reload_settled [OF assms(1,5,6)]) (use assms(8) build in \<open>simp_all add: r'_def\<close>)
  moreover have "reload_step env (s, r, Reading) = (s, r, Fetched old)"
    using assms(1,4) by simp
  ultimately show ?thesis by (simp add: Let_def r'_def)
qed

theorem concurrent_edit_lost_witness:
  "let s = [''/data/p'' \<mapsto> concat (replicate 1 (''a.b'' @ [newline]))] in
     reload_step set_env (s, loaded_file, Reading) = (s, loaded_file, Fetched (''a.b'' @ [newline]))
     \<and> (\<exists>text. fst (reload_steps 4 set_env (s(''/data/p'' \<mapsto> ''full:new''), loaded_file, Fetched (''a.b'' @ [newline]))) ''/data/p''
          = Some text \<and> text \<noteq> ''full:new'')"
  using concurrent_edit_lost [OF _ _ _ _ sample_sanitize _ _ _ sample_build,
      of "[''/data/p'' \<mapsto> concat (replicate 1 (''a.b'' @ [newline]))]" "''full:new''"]
  by (simp add: loaded_file_def maxRuleFileBytes_def Let_def)

text \<open>
  Property C19.  A good edit takes effect and settles: when at least one rule is valid, the matcher
  can be built from them and the bundled files, and the disk works, the file is replaced by its cleaned
  form and the matcher by the new one.  If the cleaned form fits the size limit, the reload that this
  write triggers changes neither the file system nor the plugin and does not write again, so that the
  watcher comes to rest.  (Without the size condition it need not.)
\<close>

theorem good_edit_settles:
  assumes "re_os env = os_fine" "re_tmp env \<noteq> rf_path r" "s (re_tmp env) = None"
    and "s (rf_path r) = Some raw"
    and "sanitizeRules (re_lower env) (re_compile env) raw = Inr (rules, cleaned, stats)" "rules \<noteq> []"
    and "buildMatcher env s rules (rf_includes r) = Inr m" "rf_path r \<notin> set (rf_includes r)"
  shows "let s' = s(rf_path r \<mapsto> cleaned); r' = r\<lparr>rf_matcher := Some m, rf_lastGood := cleaned, rf_loaded := True\<rparr>
    in reload env s r = (None, s', r')
      \<and> (length cleaned \<le> maxRuleFileBytes \<longrightarrow> reload env s' r' = (None, s', r') \<and> \<not> reload_rewrites env s' r')"
proof -
  define s' where "s' = s(rf_path r \<mapsto> cleaned)"
  define r' where "r' = r\<lparr>rf_matcher := Some m, rf_lastGood := cleaned, rf_loaded := True\<rparr>"
  have build: "buildMatcher env s' rules (rf_includes r) = Inr m"
    unfolding s'_def using assms(7) buildMatcher_frame [OF assms(8), of env s "Some cleaned" rules] by simp
  have "(if raw \<noteq> cleaned then rule_writeFileAtomic os_fine (re_tmp env) (rf_path r) cleaned s else (None, s)) = (None, s')"
    using assms(2,3,4) rule_write_fine [of "re_tmp env" "rf_path r" s cleaned] by (auto simp: fun_upd_idem s'_def)
  then have "reload env s r = (None, s', r')"
    unfolding reload_def assms(1) using assms(4-7) by (simp add: r'_def)
  moreover have "reload env s' r' = (None, s', r')" if "length cleaned \<le> maxRuleFileBytes"
    by (rule reload_settled [OF assms(1,5,6)]) (use build that in \<open>simp_all add: s'_def r'_def\<close>)
  moreover have "\<not> reload_rewrites env s' r'" if "length cleaned \<le> maxRuleFileBytes"
    by (rule settled_rewrites_not [OF assms(1,5,6)]) (use build that in \<open>simp_all add: s'_def r'_def\<close>)
  ultimately show ?thesis by (simp add: Let_def s'_def r'_def)
qed

text \<open>A rule file with a bundled file, as the shipped list of proxied domains has one.\<close>

definition bundled_file :: "string set ruleFile" where
  "bundled_file = loaded_file\<lparr>rf_includes := [''/etc/bundled'']\<rparr>"

theorem good_edit_settles_witness:
  "\<exists>m. let s = [''/data/p'' \<mapsto> concat (replicate 1 (''a.b'' @ [newline])), ''/etc/bundled'' \<mapsto> ''c.d''];
      cleaned = strings_Join (replicate 1 ''domain:a.b'') newline @ [newline];
      r' = bundled_file\<lparr>rf_matcher := Some m, rf_lastGood := cleaned, rf_loaded := True\<rparr>
    in reload set_env s bundled_file = (None, s(''/data/p'' \<mapsto> cleaned), r')
     \<and> \<not> reload_rewrites set_env (s(''/data/p'' \<mapsto> cleaned)) r'"
proof -
  define s where "s = [''/data/p'' \<mapsto> concat (replicate 1 (''a.b'' @ [newline])), ''/etc/bundled'' \<mapsto> ''c.d'']"
  have "\<exists>m. buildMatcher set_env s (replicate 1 ''domain:a.b'') (rf_includes bundled_file) = Inr m"
    by (simp add: buildMatcher_def bundled_file_def set_lib_def s_def os_ReadFile_def)
  then obtain m where "buildMatcher set_env s (replicate 1 ''domain:a.b'') (rf_includes bundled_file) = Inr m" by blast
  from good_edit_settles [OF _ _ _ _ sample_sanitize _ this] show ?thesis
    unfolding s_def [symmetric]
    by (intro exI [of _ m]) (simp add: Let_def s_def bundled_file_def loaded_file_def maxRuleFileBytes_def)
qed

text \<open>
  Property C32.  A rule file can be lost on restart.  A file of bare domains of exactly the permitted
  size is loaded in full and replaced by its cleaned form, which is over the limit; every reload from
  then on rewrites the same file and so triggers the next one, without end; and the next start clears
  the file and runs with no rules of its own.  Of the matcher library it is assumed that it accepts the
  domain rule in question; regular expressions and letters outside ASCII play no role.
\<close>

theorem restart_loses_rules:
  assumes "re_os env = os_fine" "path \<noteq> []" "re_tmp env \<noteq> path"
    and "\<forall>m. \<exists>m'. ml_add (re_lib env) ''domain:a.b'' m = Inr m'"
  shows "\<exists>raw s1 r1 s2 r2.
      length raw = maxRuleFileBytes
      \<and> newRuleFile env Inr (Some (path, [])) None [path \<mapsto> raw] = (s1, Inr r1)
      \<and> add_rules (re_lib env) (replicate 262144 ''domain:a.b'') (ml_new (re_lib env)) = Inr (the (rf_matcher r1))
      \<and> reload env s1 r1 = (None, s1, r1) \<and> reload_rewrites env s1 r1
      \<and> newRuleFile env Inr (Some (path, [])) None s1 = (s2, Inr r2)
      \<and> s2 path = Some [] \<and> rf_matcher r2 = Some (ml_new (re_lib env))"
proof -
  obtain raw cleaned stats e where raw: "length raw = maxRuleFileBytes"
    "sanitizeRules (re_lower env) (re_compile env) raw = Inr (replicate 262144 ''domain:a.b'', cleaned, stats)"
    "cleaned \<noteq> raw" "sanitizeRules (re_lower env) (re_compile env) cleaned = Inl e"
    by (rule bare_domains_overflow)
  have total: "\<exists>m'. add_rules (re_lib env) (replicate n ''domain:a.b'') m = Inr m'" for n m
  proof (induction n arbitrary: m)
    case (Suc n)
    obtain m1 where "ml_add (re_lib env) ''domain:a.b'' m = Inr m1" using assms(4) by blast
    with Suc.IH [of m1] show ?case by simp
  qed simp
  define rules where "rules = replicate 262144 ''domain:a.b''"
  obtain m where m: "add_rules (re_lib env) rules (ml_new (re_lib env)) = Inr m" unfolding rules_def using total by blast
  define r0 where "r0 = \<lparr>rf_path = path, rf_includes = [], rf_matcher = None :: 'a option, rf_lastGood = [],
    rf_loaded = False, rf_closed = False\<rparr>"
  define r1 where "r1 = r0\<lparr>rf_matcher := Some m, rf_lastGood := cleaned, rf_loaded := True\<rparr>"
  have w: "rule_writeFileAtomic os_fine (re_tmp env) path c [path \<mapsto> d] = (None, [path \<mapsto> c])" for c d
    using rule_write_fine [of "re_tmp env" path "[path \<mapsto> d]" c] assms(3) by simp
  have "reload env [path \<mapsto> raw] r0 = (None, [path \<mapsto> cleaned], r1)"
    unfolding r1_def using raw(2,3) m w by (simp add: reload_def assms(1) buildMatcher_no_includes r0_def rules_def [symmetric])
  moreover have "reload env [path \<mapsto> cleaned] r1 = (None, [path \<mapsto> cleaned], r1)" "reload_rewrites env [path \<mapsto> cleaned] r1"
    using unusable_rewrites [of env r1 "[path \<mapsto> cleaned]" cleaned e] raw(4) assms(1,3) by (simp_all add: r1_def r0_def)
  moreover have "reload env [path \<mapsto> cleaned] r0
      = (None, [path \<mapsto> []], r0\<lparr>rf_matcher := Some (ml_new (re_lib env)), rf_lastGood := [], rf_loaded := True\<rparr>)"
    using raw(4) w by (simp add: reload_def restoreOrClear_def assms(1) buildMatcher_no_includes r0_def)
  ultimately show ?thesis
    using raw(1) assms(2) m
    by (intro exI [of _ raw] exI [of _ "[path \<mapsto> cleaned]"] exI [of _ r1] exI [of _ "[path \<mapsto> []]"]
        exI [of _ "r0\<lparr>rf_matcher := Some (ml_new (re_lib env)), rf_lastGood := [], rf_loaded := True\<rparr>"] conjI)
      (simp_all add: newRuleFile_def r0_def [symmetric] rules_def [symmetric], simp_all add: r1_def r0_def)
qed

theorem restart_loses_rules_witness:
  "\<exists>raw s1 r1 s2 r2. length raw = maxRuleFileBytes
     \<and> newRuleFile set_env Inr (Some (''/data/p'', [])) None [''/data/p'' \<mapsto> raw] = (s1, Inr r1)
     \<and> newRuleFile set_env Inr (Some (''/data/p'', [])) None s1 = (s2, Inr r2) \<and> s2 ''/data/p'' = Some []"
proof -
  have "\<forall>m. \<exists>m'. ml_add (re_lib set_env) ''domain:a.b'' m = Inr m'" by (simp add: set_lib_def)
  from restart_loses_rules [of set_env "''/data/p''", OF _ _ _ this] show ?thesis
    unfolding set_env_simps by fastforce
qed

end
