(* ===== verification/TcpServer.thy ===== *)
theory TcpServer
  imports CancelClassify Contracts
begin

text \<open>
  internal/tcpserverplugin/server.go: the TCP listener plugin and the log core that turns expected
  client cancellations into a counter.  The executable lookup, the metrics registry, the certificate
  loader, the listener and the wrapped log core are parameters.
\<close>

text \<open>\<^verbatim>\<open>init\<close>\<close>

definition tcp_register :: registration where
  "tcp_register = RegNewPluginFunc ''guarddns_tcp_server''"

section \<open>Construction\<close>

record tcp_args =
  ta_entry :: string
  ta_listen :: string
  ta_cert :: string
  ta_key :: string
  ta_idleTimeout :: int

text \<open>What registering a metric answers: registered, an existing collector (and whether it is a
  counter vector), or another error.\<close>

datatype register_answer = Registered | AlreadyRegistered bool | RegisterFailed goerr

datatype counter_vector = NewVector | ExistingVector

definition cancellationCounter :: "register_answer \<Rightarrow> goerr + counter_vector" where
  "cancellationCounter answer =
     (case answer of
        Registered \<Rightarrow> Inr NewVector
      | RegisterFailed e \<Rightarrow> Inl (error_wrap ''register client cancellation metric'' e)
      | AlreadyRegistered is_vector \<Rightarrow>
          if is_vector then Inr ExistingVector
          else Inl (error_new ''client cancellation metric has an incompatible collector''))"

record tcp_listener =
  tl_network :: string
  tl_address :: string
  tl_tls :: bool
  tl_idle :: duration

record tcp_plugin =
  tp_listener :: tcp_listener

definition tcp_initPlugin ::
  "bool \<Rightarrow> register_answer \<Rightarrow> (string \<Rightarrow> string \<Rightarrow> goerr option) \<Rightarrow> (string \<Rightarrow> string \<Rightarrow> goerr option) \<Rightarrow> tcp_args
    \<Rightarrow> goerr + tcp_plugin" where
  "tcp_initPlugin entry_found answer loadCert listen args0 =
     (let args1 = (if ta_listen args0 = [] then args0\<lparr>ta_listen := ''127.0.0.1:53''\<rparr> else args0);
          args = (if ta_idleTimeout args1 \<le> 0 then args1\<lparr>ta_idleTimeout := 10\<rparr> else args1)
      in if \<not> entry_found then Inl (error_new (''cannot find executable entry by tag '' @ ta_entry args))
         else case cancellationCounter answer of
             Inl e \<Rightarrow> Inl e
           | Inr events \<Rightarrow>
               (let tls = ta_key args \<noteq> [] \<or> ta_cert args \<noteq> []
                in case (if tls then loadCert (ta_cert args) (ta_key args) else None) of
                     Some e \<Rightarrow> Inl (error_wrap ''read TLS certificate'' e)
                   | None \<Rightarrow>
                       (let network = (if strings_HasPrefix (ta_listen args) ''@'' then ''unix'' else ''tcp'')
                        in case listen network (ta_listen args) of
                             Some e \<Rightarrow> Inl (error_wrap ''listen'' e)
                           | None \<Rightarrow> Inr \<lparr>tp_listener = \<lparr>tl_network = network, tl_address = ta_listen args, tl_tls = tls,
                               tl_idle = wrap64 (ta_idleTimeout args * second)\<rparr>\<rparr>)))"

text \<open>
  \<open>tcp_serve_end\<close>: what its goroutine does when serving ends
  with an error (or none): it asks MosDNS to close with that error, then the deferred call closes
  the listener.  \<open>tcp_Close\<close>: closing the plugin closes the listener and returns that call's error.
\<close>

datatype tcp_call = SendCloseSignal "goerr option" | ListenerClose tcp_listener

definition tcp_serve_end :: "goerr option \<Rightarrow> tcp_plugin \<Rightarrow> tcp_call list" where
  "tcp_serve_end err p = [SendCloseSignal err, ListenerClose (tp_listener p)]"

definition tcp_Close :: "goerr option \<Rightarrow> tcp_plugin \<Rightarrow> tcp_call list \<times> goerr option" where
  "tcp_Close listener_err p = ([ListenerClose (tp_listener p)], listener_err)"

section \<open>The log core\<close>

text \<open>A log field: of error type with its error (absent if the value is no error), or another one.\<close>

datatype log_field = ErrorField "goerr option" | OtherField string

record log_entry =
  le_message :: string
  le_fields :: "log_field list"

definition cancellationStage :: "string \<Rightarrow> string" where
  "cancellationStage message =
     (if message = ''entry err'' then ''entry''
      else if message = ''failed to write response'' then ''write'' else [])"

definition fieldsContainExpectedCancellation :: "(string \<Rightarrow> string) \<Rightarrow> log_field list \<Rightarrow> bool" where
  "fieldsContainExpectedCancellation lower fs =
     list_ex (\<lambda>f. case f of ErrorField (Some e) \<Rightarrow> Expected lower (Some e) | _ \<Rightarrow> False) fs"

text \<open>The core: the context fields added by \<^verbatim>\<open>With\<close>, the listener's name, the counter per
  listener and stage, and what the wrapped core has written.\<close>

record cancellationCore =
  cc_context :: "log_field list"
  cc_listener :: string
  cc_events :: "string \<times> string \<Rightarrow> nat"
  cc_written :: "(log_field list \<times> log_entry) list"

definition core_With :: "log_field list \<Rightarrow> cancellationCore \<Rightarrow> cancellationCore" where
  "core_With fs c = c\<lparr>cc_context := cc_context c @ fs\<rparr>"

definition core_Check :: "bool \<Rightarrow> cancellationCore list \<Rightarrow> cancellationCore \<Rightarrow> cancellationCore list" where
  "core_Check enabled checked c = (if enabled then checked @ [c] else checked)"

definition core_Write :: "(string \<Rightarrow> string) \<Rightarrow> log_entry \<Rightarrow> cancellationCore \<Rightarrow> cancellationCore" where
  "core_Write lower entry c =
     (let stage = cancellationStage (le_message entry)
      in if stage \<noteq> [] \<and> fieldsContainExpectedCancellation lower (le_fields entry)
         then c\<lparr>cc_events := (cc_events c)((cc_listener c, stage) := Suc (cc_events c (cc_listener c, stage)))\<rparr>
         else c\<lparr>cc_written := cc_written c @ [(cc_context c, entry)]\<rparr>)"

definition cancellationLogger :: "string \<Rightarrow> cancellationCore" where
  "cancellationLogger listener = \<lparr>cc_context = [], cc_listener = listener, cc_events = (\<lambda>_. 0), cc_written = []\<rparr>"

section \<open>Properties\<close>

definition client_cancel :: "(string \<Rightarrow> string) \<Rightarrow> log_entry \<Rightarrow> bool" where
  "client_cancel lower e \<longleftrightarrow> (le_message e = ''entry err'' \<or> le_message e = ''failed to write response'')
     \<and> (\<exists>err. ErrorField (Some err) \<in> set (le_fields e) \<and> Expected lower (Some err))"

lemma expected_field:
  "(case f of ErrorField (Some e) \<Rightarrow> Expected lower (Some e) | _ \<Rightarrow> False)
     \<longleftrightarrow> (\<exists>err. f = ErrorField (Some err) \<and> Expected lower (Some err))"
  by (cases f) (auto split: option.splits)

lemma client_cancel_iff:
  "client_cancel lower e \<longleftrightarrow>
     cancellationStage (le_message e) \<noteq> [] \<and> fieldsContainExpectedCancellation lower (le_fields e)"
  unfolding client_cancel_def fieldsContainExpectedCancellation_def list_ex_iff expected_field
  by (auto simp: cancellationStage_def)

lemma client_cancel_stage:
  "client_cancel lower e \<Longrightarrow> cancellationStage (le_message e) = ''entry'' \<or> cancellationStage (le_message e) = ''write''"
  by (auto simp: client_cancel_def cancellationStage_def)

definition events_update :: "string \<times> string \<Rightarrow> (nat \<Rightarrow> nat) \<Rightarrow> cancellationCore \<Rightarrow> cancellationCore" where
  "events_update k f c = c\<lparr>cc_events := (cc_events c)(k := f (cc_events c k))\<rparr>"

interpretation cancel_events: keyed_store "\<lambda>k c. cc_events c k" events_update
  by unfold_locales (simp_all add: events_update_def)

definition count_event :: "string \<times> string \<Rightarrow> cancellationCore \<Rightarrow> cancellationCore" where
  "count_event k = events_update k Suc"

lemma core_Write_eq:
  "core_Write lower e c =
     (if client_cancel lower e then count_event (cc_listener c, cancellationStage (le_message e)) c
      else c\<lparr>cc_written := cc_written c @ [(cc_context c, e)]\<rparr>)"
  by (simp add: core_Write_def client_cancel_iff count_event_def events_update_def Let_def)

lemma count_event_simps [simp]:
  "cc_listener (count_event k c) = cc_listener c" "cc_written (count_event k c) = cc_written c"
  "cc_events (count_event k c) k' = (if k' = k then Suc (cc_events c k) else cc_events c k')"
  by (simp_all add: count_event_def cancel_events.get_put_if) (simp_all add: events_update_def)

definition run_core :: "(string \<Rightarrow> string) \<Rightarrow> log_entry list \<Rightarrow> string \<Rightarrow> cancellationCore" where
  "run_core lower es listener = fold (core_Write lower) es (cancellationLogger listener)"

lemma run_core_simps [simp]:
  "run_core lower [] listener = cancellationLogger listener"
  "run_core lower (es @ [e]) listener = core_Write lower e (run_core lower es listener)"
  by (simp_all add: run_core_def)

lemma run_core_listener [simp]: "cc_listener (run_core lower es listener) = listener"
  by (induction es rule: rev_induct) (simp_all add: core_Write_eq cancellationLogger_def)

lemma run_core_written: "map snd (cc_written (run_core lower es listener)) = filter (\<lambda>e. \<not> client_cancel lower e) es"
  by (induction es rule: rev_induct) (simp_all add: core_Write_eq cancellationLogger_def)

lemma run_core_events:
  "cc_events (run_core lower es listener) (listener, stage)
     = length (filter (\<lambda>e. client_cancel lower e \<and> cancellationStage (le_message e) = stage) es)"
  by (induction es rule: rev_induct) (auto simp: core_Write_eq cancellationLogger_def)

lemma cancel_partition:
  "length (filter (\<lambda>e. \<not> client_cancel lower e) es)
     + length (filter (\<lambda>e. client_cancel lower e \<and> cancellationStage (le_message e) = ''entry'') es)
     + length (filter (\<lambda>e. client_cancel lower e \<and> cancellationStage (le_message e) = ''write'') es) = length es"
proof (induction es)
  case (Cons e es)
  then show ?case using client_cancel_stage [of lower e] by (cases "client_cancel lower e") auto
qed simp

text \<open>
  Property C37.  No log entry is lost or altered: over any sequence of entries, those that report an
  expected client cancellation at the entry or write stage are counted under the listener and the
  stage, and all others reach the wrapped core, in order.
\<close>

theorem cancellation_log_filter:
  "map snd (cc_written (run_core lower es listener)) = filter (\<lambda>e. \<not> client_cancel lower e) es
   \<and> cc_events (run_core lower es listener) (listener, stage)
      = length (filter (\<lambda>e. client_cancel lower e \<and> cancellationStage (le_message e) = stage) es)
   \<and> length (cc_written (run_core lower es listener)) + cc_events (run_core lower es listener) (listener, ''entry'')
       + cc_events (run_core lower es listener) (listener, ''write'') = length es"
proof -
  have "length (cc_written (run_core lower es listener)) = length (filter (\<lambda>e. \<not> client_cancel lower e) es)"
    by (metis run_core_written length_map)
  then show ?thesis using cancel_partition [of lower es] by (simp add: run_core_written run_core_events)
qed

end
