(* ===== verification/MosdnsMain.thy ===== *)
theory MosdnsMain
  imports CircuitPlugin DecisionPlugin RequestMetrics RuleReload SupervisorPlugin TcpServer
begin

text \<open>
  cmd/mosdns/main.go: the resolver process.  Importing the packages registers their plugins; the
  program adds the version command, sets the bootstrap log level and runs MosDNS.
\<close>

section \<open>The resolver process\<close>

text \<open>\<^verbatim>\<open>bootstrapLogLevel\<close>: \<open>parse\<close> is the log library's parser of level names, \<open>warn\<close> its
  warning level.\<close>

definition bootstrapLogLevel :: "(string \<Rightarrow> 'l option) \<Rightarrow> 'l \<Rightarrow> string \<Rightarrow> 'l" where
  "bootstrapLogLevel parse warn raw =
     (let raw = (if raw = [] then ''warn'' else raw)
      in case parse raw of None \<Rightarrow> warn | Some level \<Rightarrow> level)"

definition mosdns_main :: "(string \<Rightarrow> 'l option) \<Rightarrow> 'l \<Rightarrow> (string \<Rightarrow> string) \<Rightarrow> ('l \<Rightarrow> goerr option) \<Rightarrow> 'l \<times> goerr option" where
  "mosdns_main parse warn getenv run =
     (let level = bootstrapLogLevel parse warn (getenv ''LOG_LEVEL'') in (level, run level))"

text \<open>What is registered before \<^verbatim>\<open>main\<close> runs: the packages in import order, then the program's own
  command.\<close>

definition mosdns_registrations :: "registration list" where
  "mosdns_registrations = [circuit_register, decision_register, request_register, rule_register, supervisor_register,
     tcp_register, AddSubCmd ''version'']"

text \<open>The version command prints the version.\<close>

definition mosdns_version_cmd :: "string \<Rightarrow> string list" where
  "mosdns_version_cmd version = [version]"

fun registered_name :: "registration \<Rightarrow> string" where
  "registered_name (RegNewPluginFunc n) = n" | "registered_name (MustRegExecQuickSetup n) = n" | "registered_name (AddSubCmd n) = n"

text \<open>No name is registered twice, which MosDNS answers with a panic.\<close>

lemma registrations_distinct: "distinct (map registered_name mosdns_registrations)"
  by (simp add: mosdns_registrations_def circuit_register_def decision_register_def request_register_def
      rule_register_def supervisor_register_def tcp_register_def)

end
