(* ===== verification/ChildLog.thy ===== *)
theory ChildLog
  imports GoStrings
begin

text \<open>
  cmd/guarddns/process.go, the log pipe of a supervised child: \<^verbatim>\<open>childLogWriter\<close> cuts the
  child's output into lines, \<^verbatim>\<open>childLogDeduper\<close> drops the startup notice of Unbound and the
  internal errors of a query whose failure was already logged at the listener.  The clock gives the
  instant of the \<open>n\<close>-th line, the destination may refuse a write.
\<close>

section \<open>The deduper\<close>

definition childLogDedupeWindow :: duration where
  "childLogDedupeWindow = 10 * second"

record childLogDeduper =
  dd_child :: string
  dd_suppressStartupInfo :: bool
  dd_boundaries :: "string \<rightharpoonup> instant"

definition newChildLogDeduper :: "string \<Rightarrow> bool \<Rightarrow> childLogDeduper" where
  "newChildLogDeduper child quiet =
     \<lparr>dd_child = child, dd_suppressStartupInfo = quiet, dd_boundaries = Map.empty\<rparr>"

text \<open>\<^verbatim>\<open>queryIDPattern\<close>: the leftmost key with white space and a run of digits after it.\<close>

definition uqid_key :: string where
  "uqid_key = [CHR 0x22] @ ''uqid'' @ [CHR 0x22, CHR '':'']"

definition regexp_space :: "char \<Rightarrow> bool" where
  "regexp_space c \<longleftrightarrow> c \<in> {CHR 0x09, CHR 0x0A, CHR 0x0C, CHR 0x0D, CHR 0x20}"

fun queryIDPattern :: "string \<Rightarrow> string option" where
  "queryIDPattern [] = None"
| "queryIDPattern (c # s) =
     (let digits = takeWhile is_digit (dropWhile regexp_space (drop (length uqid_key) (c # s)))
      in if strings_HasPrefix (c # s) uqid_key \<and> digits \<noteq> [] then Some digits else queryIDPattern s)"

definition tabbed :: "string \<Rightarrow> string \<Rightarrow> string" where
  "tabbed a b = [CHR 0x09] @ a @ [CHR 0x09] @ b @ [CHR 0x09]"

definition startup_notice :: "childLogDeduper \<Rightarrow> string \<Rightarrow> bool" where
  "startup_notice d line \<longleftrightarrow> dd_suppressStartupInfo d
     \<and> (dd_child d = ''unbound'' \<or> dd_child d = ''unbound_recursive'')
     \<and> strings_Contains line '' info: start of service (unbound ''"

definition boundary_line :: "string \<Rightarrow> bool" where
  "boundary_line line \<longleftrightarrow> strings_Contains line (tabbed ''main_tcp'' ''entry err'')
     \<or> strings_Contains line (tabbed ''main_udp'' ''entry err'')"

definition internal_line :: "string \<Rightarrow> bool" where
  "internal_line line \<longleftrightarrow> strings_Contains line (tabbed ''classify_lookup'' ''secondary error'')
     \<or> strings_Contains line (tabbed ''forward_unbound'' ''upstream error'')
     \<or> strings_Contains line (tabbed ''recursive_unbound'' ''upstream error'')"

definition expire_boundaries :: "instant \<Rightarrow> (string \<rightharpoonup> instant) \<Rightarrow> (string \<rightharpoonup> instant)" where
  "expire_boundaries now b =
     (\<lambda>q. case b q of None \<Rightarrow> None | Some t \<Rightarrow> if childLogDedupeWindow < time_sub now t then None else Some t)"

definition suppress :: "instant \<Rightarrow> string \<Rightarrow> childLogDeduper \<Rightarrow> childLogDeduper \<times> bool" where
  "suppress now line d =
     (if startup_notice d line then (d, True)
      else if dd_child d \<noteq> ''mosdns'' \<or> \<not> strings_Contains line ''context deadline exceeded'' then (d, False)
      else case queryIDPattern line of
          None \<Rightarrow> (d, False)
        | Some queryID \<Rightarrow>
            let b = expire_boundaries now (dd_boundaries d)
            in if boundary_line line then (d\<lparr>dd_boundaries := b(queryID \<mapsto> now)\<rparr>, False)
               else if \<not> internal_line line then (d\<lparr>dd_boundaries := b\<rparr>, False)
               else (d\<lparr>dd_boundaries := b\<rparr>,
                     case b queryID of None \<Rightarrow> False | Some t \<Rightarrow> time_sub now t \<le> childLogDedupeWindow))"

section \<open>The writer\<close>

abbreviation line_end :: char where
  "line_end \<equiv> CHR 0x0A"

text \<open>\<open>lw_out\<close>: what the destination has accepted; \<open>lw_lines\<close>: how many lines were judged so far.\<close>

record childLogWriter =
  lw_deduper :: childLogDeduper
  lw_pending :: string
  lw_out :: "string list"
  lw_lines :: nat

definition newChildLogWriter :: "childLogDeduper \<Rightarrow> childLogWriter" where
  "newChildLogWriter d = \<lparr>lw_deduper = d, lw_pending = [], lw_out = [], lw_lines = 0\<rparr>"

text \<open>Judge one line and pass it on unless it is suppressed.\<close>

definition emit ::
  "(nat \<Rightarrow> instant) \<Rightarrow> (string list \<Rightarrow> string \<Rightarrow> goerr option) \<Rightarrow> string \<Rightarrow> childLogWriter
    \<Rightarrow> childLogWriter \<times> goerr option" where
  "emit clock dst line w =
     (case suppress (clock (lw_lines w)) line (lw_deduper w) of
        (d, suppressed) \<Rightarrow>
          let w1 = w\<lparr>lw_deduper := d, lw_lines := Suc (lw_lines w)\<rparr>
          in if suppressed then (w1, None)
             else case dst (lw_out w) line of
                 Some e \<Rightarrow> (w1, Some e)
               | None \<Rightarrow> (w1\<lparr>lw_out := lw_out w @ [line]\<rparr>, None))"

lemma emit_pending [simp]: "lw_pending (fst (emit clock dst line w)) = lw_pending w"
  by (auto simp: emit_def Let_def split: prod.splits option.splits)

function write_lines ::
  "(nat \<Rightarrow> instant) \<Rightarrow> (string list \<Rightarrow> string \<Rightarrow> goerr option) \<Rightarrow> childLogWriter \<Rightarrow> childLogWriter \<times> goerr option" where
  "write_lines clock dst w =
     (case index_byte (lw_pending w) line_end of
        None \<Rightarrow> (w, None)
      | Some n \<Rightarrow>
          (case emit clock dst (take (Suc n) (lw_pending w)) (w\<lparr>lw_pending := drop (Suc n) (lw_pending w)\<rparr>) of
             (w', Some e) \<Rightarrow> (w', Some e)
           | (w', None) \<Rightarrow> write_lines clock dst w'))"
  by pat_completeness auto
termination
proof (relation "measure (\<lambda>(_, _, w). length (lw_pending w))")
  fix clock dst w n w' and r e :: "goerr option"
  assume n: "index_byte (lw_pending w) line_end = Some n"
    and e: "(w', r) = emit clock dst (take (Suc n) (lw_pending w)) (w\<lparr>lw_pending := drop (Suc n) (lw_pending w)\<rparr>)"
  have "lw_pending w' = drop (Suc n) (lw_pending w)"
    using emit_pending [of clock dst "take (Suc n) (lw_pending w)" "w\<lparr>lw_pending := drop (Suc n) (lw_pending w)\<rparr>"]
      e [symmetric] by simp
  with index_byte_Some [OF n]
  show "((clock, dst, w'), (clock, dst, w)) \<in> measure (\<lambda>(_, _, w). length (lw_pending w))" by auto
qed simp

declare write_lines.simps [simp del]

definition log_Write ::
  "(nat \<Rightarrow> instant) \<Rightarrow> (string list \<Rightarrow> string \<Rightarrow> goerr option) \<Rightarrow> string \<Rightarrow> childLogWriter
    \<Rightarrow> childLogWriter \<times> nat \<times> goerr option" where
  "log_Write clock dst p w =
     (case write_lines clock dst (w\<lparr>lw_pending := lw_pending w @ p\<rparr>) of (w', e) \<Rightarrow> (w', length p, e))"

definition log_Flush ::
  "(nat \<Rightarrow> instant) \<Rightarrow> (string list \<Rightarrow> string \<Rightarrow> goerr option) \<Rightarrow> childLogWriter \<Rightarrow> childLogWriter \<times> goerr option" where
  "log_Flush clock dst w =
     (if length (lw_pending w) = 0 then (w, None)
      else emit clock dst (lw_pending w) (w\<lparr>lw_pending := []\<rparr>))"

section \<open>Lemmas\<close>

abbreviation accept_all :: "string list \<Rightarrow> string \<Rightarrow> goerr option" where
  "accept_all \<equiv> \<lambda>_ _. None"

lemma emit_frame: "emit clock dst line (w\<lparr>lw_pending := q\<rparr>) = map_prod (\<lambda>w'. w'\<lparr>lw_pending := q\<rparr>) id (emit clock dst line w)"
  by (auto simp: emit_def Let_def split: prod.splits option.splits)

lemma emit_accepted [simp]: "snd (emit clock accept_all line w) = None"
  by (auto simp: emit_def Let_def split: prod.splits)

lemma index_byte_append: "index_byte s b = Some n \<Longrightarrow> index_byte (s @ t) b = Some n"
  by (induction s arbitrary: n) (auto split: if_splits)

lemma write_lines_None [simp]: "snd (write_lines clock accept_all w) = None"
proof (induction clock "accept_all :: string list \<Rightarrow> string \<Rightarrow> goerr option" w rule: write_lines.induct)
  case (1 clock w)
  show ?case
  proof (cases "index_byte (lw_pending w) line_end")
    case None
    then show ?thesis by (simp add: write_lines.simps [of _ _ w] del: index_byte_None)
  next
    case (Some n)
    obtain w' r where e: "emit clock accept_all (take (Suc n) (lw_pending w)) (w\<lparr>lw_pending := drop (Suc n) (lw_pending w)\<rparr>) = (w', r)"
      by fastforce
    then have "r = None" using emit_accepted [of clock "take (Suc n) (lw_pending w)" "w\<lparr>lw_pending := drop (Suc n) (lw_pending w)\<rparr>"] by simp
    with 1 Some e show ?thesis by (simp add: write_lines.simps [of _ _ w])
  qed
qed

text \<open>One step of the loop on a destination that accepts everything.\<close>

lemma write_lines_step:
  "fst (write_lines clock accept_all w) =
     (case index_byte (lw_pending w) line_end of
        None \<Rightarrow> w
      | Some n \<Rightarrow> fst (write_lines clock accept_all
          ((fst (emit clock accept_all (take (Suc n) (lw_pending w)) w))\<lparr>lw_pending := drop (Suc n) (lw_pending w)\<rparr>)))"
proof (cases "index_byte (lw_pending w) line_end")
  case None
  then show ?thesis by (simp add: write_lines.simps [of _ _ w] del: index_byte_None)
next
  case (Some n)
  obtain w' where "emit clock accept_all (take (Suc n) (lw_pending w)) w = (w', None)"
    using emit_accepted [of clock "take (Suc n) (lw_pending w)" w]
    by (cases "emit clock accept_all (take (Suc n) (lw_pending w)) w") auto
  with Some show ?thesis by (simp add: write_lines.simps [of _ _ w] emit_frame)
qed

lemma write_lines_append:
  "fst (write_lines clock accept_all (w\<lparr>lw_pending := lw_pending w @ p\<rparr>))
     = (let w' = fst (write_lines clock accept_all w)
        in fst (write_lines clock accept_all (w'\<lparr>lw_pending := lw_pending w' @ p\<rparr>)))"
proof (induction "length (lw_pending w)" arbitrary: w rule: less_induct)
  case less
  show ?case
  proof (cases "index_byte (lw_pending w) line_end")
    case None
    then show ?thesis by (simp add: write_lines_step [of clock w] del: index_byte_None)
  next
    case (Some n)
    define w1 where "w1 = (fst (emit clock accept_all (take (Suc n) (lw_pending w)) w))\<lparr>lw_pending := drop (Suc n) (lw_pending w)\<rparr>"
    have n: "n < length (lw_pending w)" using index_byte_Some [OF Some] by blast
    have "fst (write_lines clock accept_all (w\<lparr>lw_pending := lw_pending w @ p\<rparr>))
        = fst (write_lines clock accept_all (w1\<lparr>lw_pending := lw_pending w1 @ p\<rparr>))"
      using index_byte_append [OF Some, of p] n
      by (subst write_lines_step) (simp add: emit_frame w1_def Suc_leI)
    moreover have "fst (write_lines clock accept_all w) = fst (write_lines clock accept_all w1)"
      using Some by (subst write_lines_step) (simp add: w1_def)
    ultimately show ?thesis using less [of w1] n by (simp add: w1_def)
  qed
qed

lemma log_Write_append:
  "fst (log_Write clock accept_all q (fst (log_Write clock accept_all p w))) = fst (log_Write clock accept_all (p @ q) w)"
  using write_lines_append [of clock "w\<lparr>lw_pending := lw_pending w @ p\<rparr>" q]
  by (simp add: log_Write_def Let_def split_beta)

lemma emit_verbatim:
  assumes "\<forall>now line. suppress now line (lw_deduper w) = (lw_deduper w, False)"
  shows "lw_out (fst (emit clock accept_all line w)) = lw_out w @ [line]"
    "lw_deduper (fst (emit clock accept_all line w)) = lw_deduper w"
  using assms by (simp_all add: emit_def)

lemma write_lines_verbatim:
  assumes "\<forall>now line. suppress now line (lw_deduper w) = (lw_deduper w, False)"
  shows "concat (lw_out (fst (write_lines clock accept_all w))) @ lw_pending (fst (write_lines clock accept_all w))
      = concat (lw_out w) @ lw_pending w
    \<and> lw_deduper (fst (write_lines clock accept_all w)) = lw_deduper w"
  using assms
proof (induction "length (lw_pending w)" arbitrary: w rule: less_induct)
  case less
  show ?case
  proof (cases "index_byte (lw_pending w) line_end")
    case None
    then show ?thesis by (simp add: write_lines_step [of clock w] del: index_byte_None)
  next
    case (Some n)
    define w1 where "w1 = (fst (emit clock accept_all (take (Suc n) (lw_pending w)) w))\<lparr>lw_pending := drop (Suc n) (lw_pending w)\<rparr>"
    have w1: "lw_deduper w1 = lw_deduper w" "concat (lw_out w1) @ lw_pending w1 = concat (lw_out w) @ lw_pending w"
      using emit_verbatim [OF less.prems] by (simp_all add: w1_def)
    have "length (lw_pending w1) < length (lw_pending w)" using index_byte_Some [OF Some] by (auto simp: w1_def)
    moreover have "fst (write_lines clock accept_all w) = fst (write_lines clock accept_all w1)"
      using Some by (subst write_lines_step) (simp add: w1_def)
    ultimately show ?thesis using less.hyps [of w1] less.prems w1 by simp
  qed
qed

subsection \<open>The history of a deduper\<close>

fun dedup_run :: "(instant \<times> string) list \<Rightarrow> childLogDeduper \<Rightarrow> childLogDeduper" where
  "dedup_run [] d = d"
| "dedup_run ((now, line) # ls) d = dedup_run ls (fst (suppress now line d))"

lemma dedup_run_snoc: "dedup_run (ls @ [(now, line)]) d = fst (suppress now line (dedup_run ls d))"
  by (induction ls d rule: dedup_run.induct) auto

lemma suppress_frame: "dd_child (fst (suppress now line d)) = dd_child d"
  "dd_suppressStartupInfo (fst (suppress now line d)) = dd_suppressStartupInfo d"
  by (auto simp: suppress_def Let_def split: option.splits)

lemma dedup_run_frame:
  "dd_child (dedup_run ls d) = dd_child d \<and> dd_suppressStartupInfo (dedup_run ls d) = dd_suppressStartupInfo d"
  by (induction ls d rule: dedup_run.induct) (simp_all add: suppress_frame)

definition boundary_of :: "string \<Rightarrow> string \<Rightarrow> bool" where
  "boundary_of q line \<longleftrightarrow> boundary_line line \<and> queryIDPattern line = Some q \<and> strings_Contains line ''context deadline exceeded''"

lemma dedup_boundaries:
  "dd_boundaries (dedup_run ls (newChildLogDeduper child quiet)) q = Some t \<Longrightarrow> \<exists>line. (t, line) \<in> set ls \<and> boundary_of q line"
proof (induction ls arbitrary: t rule: rev_induct)
  case Nil
  then show ?case by (simp add: newChildLogDeduper_def)
next
  case (snoc x ls)
  obtain now line where x: "x = (now, line)" by fastforce
  define d where "d = dedup_run ls (newChildLogDeduper child quiet)"
  have old: "dd_boundaries d q = Some t \<Longrightarrow> \<exists>line. (t, line) \<in> set (ls @ [x]) \<and> boundary_of q line"
    using snoc.IH unfolding d_def by auto
  have "dd_boundaries (fst (suppress now line d)) q = Some t"
    using snoc.prems by (simp add: x dedup_run_snoc d_def)
  then have "dd_boundaries d q = Some t \<or> t = now \<and> boundary_of q line"
    by (auto simp: suppress_def Let_def expire_boundaries_def boundary_of_def split: if_splits option.splits)
  with old show ?case by (auto simp: x)
qed

lemma boundary_not_suppressed:
  assumes "boundary_of q line" "\<not> startup_notice d line"
  shows "\<not> snd (suppress now line d)"
  using assms by (simp add: suppress_def boundary_of_def Let_def)

section \<open>Properties\<close>

definition log_chunks :: "(nat \<Rightarrow> instant) \<Rightarrow> string list \<Rightarrow> childLogWriter \<Rightarrow> childLogWriter" where
  "log_chunks clock chunks w = fold (\<lambda>p w. fst (log_Write clock accept_all p w)) chunks w"

lemma log_chunks_concat:
  "log_chunks clock chunks (newChildLogWriter d) = fst (log_Write clock accept_all (concat chunks) (newChildLogWriter d))"
proof (induction chunks rule: rev_induct)
  case Nil
  show ?case by (simp add: log_chunks_def log_Write_def newChildLogWriter_def write_lines.simps split: prod.splits)
next
  case (snoc p chunks)
  then show ?case by (simp add: log_chunks_def log_Write_append)
qed

lemma plain_child:
  assumes "dd_child d \<noteq> ''mosdns''" "\<not> dd_suppressStartupInfo d"
  shows "suppress now line d = (d, False)"
  using assms by (simp add: suppress_def startup_notice_def)

lemma flush_concat:
  assumes "\<forall>now line. suppress now line (lw_deduper w) = (lw_deduper w, False)"
  shows "concat (lw_out (fst (log_Flush clock accept_all w))) = concat (lw_out w) @ lw_pending w"
  using assms by (simp add: log_Flush_def emit_def)

text \<open>
  Property C30.  The log pipe does not depend on how the child's output arrives: any division into
  chunks leaves the writer in the same state as one write of the whole text; and for a child whose
  lines are not filtered, what reaches the destination after the final flush is the text, byte for
  byte.
\<close>

theorem child_log_chunking:
  "log_chunks clock chunks (newChildLogWriter d) = log_chunks clock [concat chunks] (newChildLogWriter d)
   \<and> (dd_child d \<noteq> ''mosdns'' \<and> \<not> dd_suppressStartupInfo d \<longrightarrow>
       concat (lw_out (fst (log_Flush clock accept_all (log_chunks clock chunks (newChildLogWriter d))))) = concat chunks)"
proof (intro conjI impI)
  show "log_chunks clock chunks (newChildLogWriter d) = log_chunks clock [concat chunks] (newChildLogWriter d)"
    by (simp add: log_chunks_concat)
  assume "dd_child d \<noteq> ''mosdns'' \<and> \<not> dd_suppressStartupInfo d"
  then have v: "\<forall>now line. suppress now line d = (d, False)" by (simp add: plain_child)
  define w where "w = log_chunks clock chunks (newChildLogWriter d)"
  have "concat (lw_out w) @ lw_pending w = concat chunks \<and> lw_deduper w = d"
    using write_lines_verbatim [of "newChildLogWriter d\<lparr>lw_pending := concat chunks\<rparr>" clock] v
    unfolding w_def log_chunks_concat by (simp add: log_Write_def newChildLogWriter_def split_beta)
  with v flush_concat [of w clock] show
    "concat (lw_out (fst (log_Flush clock accept_all (log_chunks clock chunks (newChildLogWriter d))))) = concat chunks"
    by (simp add: w_def)
qed

theorem child_log_chunking_witness:
  "concat (lw_out (fst (log_Flush (\<lambda>_. 0) accept_all
     (log_chunks (\<lambda>_. 0) [''ab'', [CHR 0x0A], ''c''] (newChildLogWriter (newChildLogDeduper ''unbound'' False))))))
   = ''ab'' @ [CHR 0x0A] @ ''c''"
  using conjunct2 [OF child_log_chunking [of "\<lambda>_. 0" "[''ab'', [CHR 0x0A], ''c'']" "newChildLogDeduper ''unbound'' False"]]
  by (simp add: newChildLogDeduper_def)

text \<open>
  Property C29.  A line is dropped only if it is redundant: either it is the startup notice of an
  Unbound child whose notices are to be suppressed, or it is an internal timeout line of MosDNS for
  a query whose failure was logged at a listener, and not dropped, at most ten seconds before.
\<close>

theorem dropped_lines_redundant:
  assumes "snd (suppress now line (dedup_run ls (newChildLogDeduper child quiet)))"
  shows "(quiet \<and> (child = ''unbound'' \<or> child = ''unbound_recursive'')
      \<and> strings_Contains line '' info: start of service (unbound '')
    \<or> (child = ''mosdns'' \<and> internal_line line \<and> \<not> boundary_line line
      \<and> (\<exists>q t first. queryIDPattern line = Some q \<and> (t, first) \<in> set ls \<and> boundary_of q first
           \<and> now - t \<le> childLogDedupeWindow
           \<and> (\<forall>t' d. dd_child d = child \<longrightarrow> \<not> snd (suppress t' first d))))"
proof -
  define d where "d = dedup_run ls (newChildLogDeduper child quiet)"
  have f: "dd_child d = child" "dd_suppressStartupInfo d = quiet"
    using dedup_run_frame [of ls "newChildLogDeduper child quiet"] by (auto simp: d_def newChildLogDeduper_def)
  show ?thesis
  proof (cases "startup_notice d line")
    case True
    with f show ?thesis by (auto simp: startup_notice_def)
  next
    case False
    with assms f obtain q t where q: "child = ''mosdns''" "queryIDPattern line = Some q" "\<not> boundary_line line"
      "internal_line line" "expire_boundaries now (dd_boundaries d) q = Some t" "time_sub now t \<le> childLogDedupeWindow"
      by (auto simp: suppress_def Let_def d_def [symmetric] split: if_splits option.splits)
    then have "dd_boundaries d q = Some t" by (auto simp: expire_boundaries_def split: option.splits if_splits)
    then obtain first where first: "(t, first) \<in> set ls" "boundary_of q first"
      using dedup_boundaries unfolding d_def by blast
    have "now - t \<le> childLogDedupeWindow"
      using q(6) time_sub_gt_iff [of childLogDedupeWindow now t] by (simp add: childLogDedupeWindow_def second_def not_less [symmetric])
    moreover have "\<not> snd (suppress t' first d')" if "dd_child d' = child" for t' d'
      using boundary_not_suppressed [OF first(2)] that q(1) by (auto simp: startup_notice_def)
    ultimately show ?thesis using q first by blast
  qed
qed

definition sample_boundary :: string where
  "sample_boundary = tabbed ''main_udp'' ''entry err'' @ uqid_key @ ''7 context deadline exceeded''"

definition sample_internal :: string where
  "sample_internal = tabbed ''forward_unbound'' ''upstream error'' @ uqid_key @ '' 7 context deadline exceeded''"

lemmas sample_line_defs = sample_boundary_def sample_internal_def tabbed_def uqid_key_def

lemma sample_boundary_facts:
  "strings_Contains sample_boundary ''context deadline exceeded''"
  "queryIDPattern sample_boundary = Some ''7''" "boundary_line sample_boundary"
  by (simp_all add: sample_line_defs boundary_line_def strings_HasPrefix_def regexp_space_def is_digit_def Let_def)

lemma sample_internal_facts:
  "strings_Contains sample_internal ''context deadline exceeded''"
  "queryIDPattern sample_internal = Some ''7''" "\<not> boundary_line sample_internal" "internal_line sample_internal"
  by (simp_all add: sample_line_defs boundary_line_def internal_line_def strings_HasPrefix_def regexp_space_def
      is_digit_def Let_def)

lemma sample_dropped: "snd (suppress 5 sample_internal (dedup_run [(0, sample_boundary)] (newChildLogDeduper ''mosdns'' True)))"
  using sample_boundary_facts sample_internal_facts
  by (simp add: suppress_def newChildLogDeduper_def startup_notice_def expire_boundaries_def Let_def
      childLogDedupeWindow_def second_def time_sub_def)

theorem dropped_lines_redundant_witness: "internal_line sample_internal \<and> \<not> boundary_line sample_internal"
  using dropped_lines_redundant [OF sample_dropped] by simp

end
