(* ===== verification/Spec2Isabelle.thy ===== *)
theory Spec2Isabelle
  imports GuardSystem MosdnsMain ChildLog
begin

text \<open>
  A verification development for GuardDNS (the repository under src/): a container that puts a
  MosDNS resolver, two Unbound processes and an encrypted DNS bridge behind one supervisor.

  \<^bold>\<open>The program.\<close>  The process \<^verbatim>\<open>guarddns\<close> (cmd/guarddns) reads its configuration from
  the environment, prepares the runtime directory, starts the encrypted bridge, supervises the
  children and sends a snapshot of its state over a Unix socket once a second.  The resolver
  \<^verbatim>\<open>mosdns\<close> (cmd/mosdns) runs with the plugins of internal/: the circuit breaker around the
  AUTO_FORWARD hop, the operator's rule files, the status endpoints fed by the snapshots, the TCP
  listener, request metrics and decision counters.  The container's health check asks the status
  endpoint and sends a real query.

  \<^bold>\<open>Shared theories.\<close>
  \<^item> Prelude: instants and durations in nanoseconds, 64-bit wrap-around, errors with their unwrap
    tree, the projection of DNS messages that the sources read.
  \<^item> GoStrings: the parts of strings, strconv and utf8 that are used, on byte strings.
  \<^item> FileSystem: files as a map from paths to contents; every call may fail as a parameter says.
  \<^item> Backoff: the doubling loop and the jitter that three components share, their closed form, and
    the contract \<open>backoff_policy\<close>, interpreted for the circuit (CircuitPlugin), the providers
    (DoHBridge) and the children (ChildProcess).
  \<^item> Breaker: the abstract half-open circuit breaker, the system of concurrent callers in which each
    mutex-protected method is one step, and the contract \<open>breaker\<close>, interpreted for the circuit
    and for the providers.  Its lemmas show what both inherit: a half-open breaker has its probe in
    flight as long as every caller reports, such a breaker can always be closed again, and one that
    lost its probe refuses for ever.
  \<^item> Contracts: \<open>keyed_store\<close>, for state updated one key at a time under a mutex (its lemmas say that
    interleaving the updates of different keys changes nothing under any key), interpreted for the
    components and the statistics of RuntimeState and for the labelled counters of TcpServer and
    DecisionPlugin; and \<open>atomic_update\<close>, for replacing a file through a temporary one, interpreted for
    the two helpers of Config and the one of RuleFile.

  \<^bold>\<open>Components.\<close>
  \<^item> CircuitPlugin (internal/circuitplugin/circuit.go): the circuit record with its gauges,
    \<open>circuit_acquire\<close>, \<open>circuit_succeed\<close>, \<open>circuit_fail\<close>, the attempt loop and \<open>circuit_Exec\<close>.
    Refinement of the breaker, gauges equal to the state in every reachable state, retry windows,
    fail-closed results; and the defect that a cancelled probe wedges the circuit.
  \<^item> DoHBridge (cmd/guarddns/dohbridge.go): providers with dial cache, round robin and backoff,
    \<open>doh_exchange\<close>, the failover \<open>ServeDNS\<close>, warnings, startup and shutdown.  Other goroutines act
    between the critical sections of one exchange as arbitrary functions of the call's record.
    Exactly one response per query, priority order, one observation per exchange, fresh dial
    addresses, fair dialling, rate-limited warnings.
  \<^item> RuleSyntax and RuleFile (internal/rulesplugin/rulesplugin.go): normalisation and cleaning of
    rules, the file's last good content and matcher, reload, restore and clear, and the debounced
    watch loop.
  \<^item> RuleReload (the same file): \<open>reload\<close> as the goroutine runs it, with the operator's edits between
    its accesses to the disk.  Five steps alone amount to the function of RuleFile.  The policy in force
    is always completely validated, bad edits keep it, good ones settle; and two defects: a cleaned
    file may exceed the limit, is then rewritten without end and cleared on restart, and an edit saved
    between the read and the rename is lost.
  \<^item> RuntimeState (internal/statewire/state.go, cmd/guarddns/state.go), SupervisorPlugin
    (internal/supervisorplugin/plugin.go), Healthcheck (cmd/guarddns/healthcheck.go): the state, its
    snapshots, the status decisions, handlers and metrics, and the health check.  Counters are
    64-bit words.  Readiness is a function of the snapshot, a stale state is unhealthy.
  \<^item> Config (cmd/guarddns/config.go): environment, endpoint syntax, templates, file helpers.  Atomic
    writes under every fault, existing lists preserved, endpoints parse back.
  \<^item> ChildProcess and ChildLog (cmd/guarddns/process.go and its two platform files): supervision,
    delays, signals, the wait for a port; the log pipe and its deduper.  \<open>superviseChild\<close> follows a
    script that gives the child's behaviour per iteration.
  \<^item> Supervision (cmd/guarddns/process.go): \<open>superviseChild\<close> as a machine, one step per system call,
    channel operation or update of the shared state, with a log of what was done when.  Every execution
    is a script with the clock readings of its log, a scheduled restart is followed by its pause, the
    exported flag follows the process, and a measure falls with every step once the context is done.
  \<^item> CancelClassify, RequestMetrics, TcpServer, DecisionPlugin (internal/cancelclassify and the
    plugins of those names): classification of client cancellations and the metrics around it.
  \<^item> GuardMain (cmd/guarddns/main.go and logger.go): the order of the early exits, what is running once
    the process serves, the log levels with their order (an instance of \<open>linorder\<close>) and threshold.
  \<^item> MosdnsMain (cmd/mosdns/main.go): the registered plugins and command, the bootstrap log level.
  \<^item> GuardSystem: the whole running system as one step relation: supervisors, bridge, providers, send
    loop (taking a snapshot and delivering it are two steps), socket queue, the status plugin in the
    MosDNS process, the operating system and the clock.  Runs carry the trace of who did what when.
    Each child is supervised by its script, the exported flags are exact, a ready answer was true at an earlier moment of the run, and
    shutdown ends with every supervisor returned and no child left.

  This theory holds the properties that span components: from the supervisor's state to the health
  check, from the send loop's heartbeat to the readiness endpoint, from a bridge failure to the readiness endpoint, from a query to the exported counters.

  \<^bold>\<open>Conventions.\<close>  Definitions carry the names of the source, with a prefix where two files use the
  same name.  Clock readings, random states, kernel answers and the behaviour of third-party code
  are arguments.  An error is a \<open>goerr\<close> value, a fallible result a sum with the error on the left.
  Loops are structural recursion or have a termination proof; \<open>wait_loop\<close> carries fuel, and two more
  than the timeout in units of 100 milliseconds is shown to be enough.  The steps of a reload are
  counted (five reach its end), and so are those of the three supervisors after the context is
  done (twenty-one at most, the bound of their common measure).  Restart and backoff steps
  are natural numbers: the unsigned counters of the source cannot wrap in the life of a process.

  \<^bold>\<open>Not modelled.\<close>  MosDNS, the DNS, HTTP and TLS libraries, the metrics registry, the file watcher,
  JSON and the compiler of regular expressions appear as parameters.  Log lines are modelled only
  where a property is about them; file modes, floating-point rounding of metric values, TLS settings
  and connection pools are not.  Interleaving is considered at the granularity of mutex-protected
  sections and, for the rule files and the supervisors, of system calls.  Two rule files that share a
  path, and a crash of the machine between system calls, are not considered.
\<close>

section \<open>From the supervisor's state to the health check\<close>

definition state_down :: "runtimeState \<Rightarrow> string \<Rightarrow> bool" where
  "state_down s name \<longleftrightarrow> (case rs_components s name of None \<Rightarrow> False | Some c \<Rightarrow> k_enabled c \<and> \<not> k_up c)"

lemma component_down_snapshot: "component_down (state_snapshot now s) name = state_down s name"
  by (simp add: component_down_def state_down_def state_snapshot_def)

lemma received_status:
  assumes "wire_roundtrip marshal unmarshal" "sendState marshal True dial write now s = Some payload"
    and "1000000000 \<le> now" "asked \<le> received + 5 * second"
  shows "fst (ready_handler asked (receive unmarshal received payload p))
    = (if state_down s ''mosdns'' \<or> state_down s ''doh_bridge'' then 503 else 200)"
proof -
  have "marshal (state_snapshot now s) = Some payload"
    using assms(2) by (auto simp: sendState_def split: option.splits if_splits)
  then have "unmarshal (take 65535 payload) = Some (state_snapshot now s)"
    using assms(1) by (simp add: wire_roundtrip_def)
  then have r: "receive unmarshal received payload p = p\<lparr>sp_snapshot := state_snapshot now s, sp_receivedAt := received\<rparr>"
    by (rule receive_ok)
  have "s_timestamp (state_snapshot now s) \<noteq> 0"
    using assms(3) by (simp add: state_snapshot_def unix_seconds_def pos_imp_zdiv_pos_iff)
  moreover have "\<not> 5 * second < time_sub asked received"
    using assms(4) by (subst time_sub_gt_iff) (auto simp: second_def)
  ultimately show ?thesis
    by (simp add: r readyStatus_code unhealthy_def component_down_snapshot)
qed

text \<open>
  Property C7.  From the supervisor's own state to the container's health: within five seconds of a
  delivered snapshot the health check passes exactly when, in the state that was sent, neither MosDNS
  nor the encrypted bridge is enabled but down, and the encrypted listener answers an address query.
\<close>

theorem health_reflects_state:
  assumes "wire_roundtrip marshal unmarshal" "sendState marshal True dial write now s = Some payload"
    and "1000000000 \<le> now" "asked \<le> received + 5 * second"
  shows "let answer = ready_handler asked (receive unmarshal received payload p) in
     runHealthcheck rn (Inr (fst answer, Inr (snd answer))) dns = None
     \<longleftrightarrow> \<not> state_down s ''mosdns'' \<and> \<not> state_down s ''doh_bridge''
        \<and> (\<exists>r. dns = Inr (Some r) \<and> m_rcode r = 0 \<and> (\<exists>rr\<in>set (m_answer r). rr_type rr = 1))"
  unfolding Let_def
  using healthcheck_verdict [of asked "receive unmarshal received payload p" rn dns] received_status [OF assms]
  by auto

text \<open>A codec for one snapshot.\<close>

definition sample_marshal :: "snapshot \<Rightarrow> snapshot \<Rightarrow> string option" where
  "sample_marshal snap x = (if x = snap then Some ''s'' else None)"

lemma sample_roundtrip: "wire_roundtrip (sample_marshal snap) (\<lambda>_. Some snap)"
  by (simp add: wire_roundtrip_def sample_marshal_def)

lemma sample_send: "sendState (sample_marshal (state_snapshot now s)) True True True now s = Some ''s''"
  by (simp add: sendState_def sample_marshal_def)

theorem health_reflects_state_witness:
  "fst (ready_handler (3 * second) (receive (\<lambda>_. Some (state_snapshot second newRuntimeState)) (2 * second) ''s''
      \<lparr>sp_snapshot = zero_snapshot, sp_receivedAt = zero_time, sp_socketPath = ''s''\<rparr>)) = 503
   \<and> runHealthcheck (\<lambda>_. []) (let a = ready_handler (3 * second) (receive (\<lambda>_. Some (state_snapshot second newRuntimeState))
        (2 * second) ''s'' \<lparr>sp_snapshot = zero_snapshot, sp_receivedAt = zero_time, sp_socketPath = ''s''\<rparr>)
      in Inr (fst a, Inr (snd a))) (Inr None) \<noteq> None"
proof -
  have d: "state_down newRuntimeState ''mosdns''"
    by (simp add: state_down_def newRuntimeState_def zero_component_def)
  have t: "1000000000 \<le> second" "3 * second \<le> 2 * second + 5 * second" by (simp_all add: second_def)
  show ?thesis
    using health_reflects_state [OF sample_roundtrip sample_send t, where s = newRuntimeState and rn = "\<lambda>_. []"
        and p = "\<lparr>sp_snapshot = zero_snapshot, sp_receivedAt = zero_time, sp_socketPath = ''s''\<rparr>" and dns = "Inr None"]
      received_status [OF sample_roundtrip sample_send t] d
    by (auto simp: Let_def)
qed

section \<open>The heartbeat\<close>

lemma sendStateLoop_sent:
  "(t, payload) \<in> set (sendStateLoop marshal its) \<Longrightarrow>
     \<exists>it\<in>set its. it_now it = t \<and> sendState marshal True (it_dial it) (it_write it) (it_now it) (it_state it) = Some payload"
  by (induction its) (auto split: option.splits if_splits)

lemma readLoop_snoc: "readLoop unmarshal (ds @ [(t, d)]) p = receive unmarshal t d (readLoop unmarshal ds p)"
  by (induction ds arbitrary: p) auto

text \<open>The datagrams that have arrived by an instant.\<close>

definition arrived :: "instant \<Rightarrow> (instant \<times> string) list \<Rightarrow> (instant \<times> string) list" where
  "arrived asked = takeWhile (\<lambda>(t, _). t \<le> asked)"

lemma last_arrived:
  assumes "ds \<noteq> []" "fst (hd ds) \<le> asked"
  obtains k where "k < length ds" "arrived asked ds = take k ds @ [ds ! k]" "fst (ds ! k) \<le> asked"
    "Suc k < length ds \<Longrightarrow> asked < fst (ds ! Suc k)"
proof -
  define k where "k = length (arrived asked ds) - 1"
  have ne: "arrived asked ds \<noteq> []" using assms by (cases ds) (auto simp: arrived_def split: prod.splits)
  then have Suck: "Suc k = length (arrived asked ds)" by (cases "arrived asked ds") (auto simp: k_def)
  then have k: "k < length ds" using length_takeWhile_le [of _ ds] by (metis Suc_le_eq arrived_def)
  have take: "arrived asked ds = take (Suc k) ds" unfolding Suck arrived_def by (rule takeWhile_eq_take)
  moreover have "fst (ds ! k) \<le> asked"
    using nth_length_takeWhile [of "\<lambda>(t, _). t \<le> asked" ds] set_takeWhileD [of "ds ! k" "\<lambda>(t, _). t \<le> asked" ds] take k
    by (force simp: arrived_def take_Suc_conv_app_nth)
  moreover have "asked < fst (ds ! Suc k)" if "Suc k < length ds"
    using nth_length_takeWhile [of "\<lambda>(t, _). t \<le> asked" ds] that Suck by (auto simp: arrived_def)
  ultimately show ?thesis using that [of k] k by (simp add: take_Suc_conv_app_nth)
qed

text \<open>
  Property C9.  The heartbeat keeps the endpoint current: as long as the datagrams that the send loop
  gets through are at most four seconds apart and arrive in order and within one second, the readiness
  endpoint never reports a stale state from the first arrival until five seconds after the last
  send.  Its verdict is the one on the state in the latest datagram that has arrived, which was sent
  at most five seconds ago.
\<close>

theorem heartbeat_keeps_current:
  assumes "wire_roundtrip marshal unmarshal" "\<forall>it\<in>set its. 1000000000 \<le> it_now it"
    and "sends = sendStateLoop marshal its" "successively (\<lambda>a b. fst b \<le> fst a + 4 * second) sends"
    and "list_all2 (\<lambda>(t, d) (t', d'). d' = d \<and> t \<le> t' \<and> t' \<le> t + second) sends ds" "ds \<noteq> []"
    and "fst (hd ds) \<le> asked" "asked \<le> fst (last sends) + 5 * second"
  shows "\<exists>it\<in>set its. it_now it \<le> asked \<and> asked \<le> it_now it + 5 * second
    \<and> sendState marshal True (it_dial it) (it_write it) (it_now it) (it_state it) = Some (snd (last (arrived asked ds)))
    \<and> fst (ready_handler asked (readLoop unmarshal (arrived asked ds) p))
      = (if state_down (it_state it) ''mosdns'' \<or> state_down (it_state it) ''doh_bridge'' then 503 else 200)"
proof -
  from assms(6,7) obtain k where k: "k < length ds" "arrived asked ds = take k ds @ [ds ! k]"
    "fst (ds ! k) \<le> asked" "Suc k < length ds \<Longrightarrow> asked < fst (ds ! Suc k)" by (rule last_arrived) blast
  have len: "length sends = length ds" using assms(5) by (rule list_all2_lengthD)
  have pair: "snd (ds ! i) = snd (sends ! i)" "fst (sends ! i) \<le> fst (ds ! i)" "fst (ds ! i) \<le> fst (sends ! i) + second"
    if "i < length ds" for i
    using list_all2_nthD [OF assms(5), of i] that len by (auto split: prod.splits)
  have "(fst (sends ! k), snd (ds ! k)) \<in> set sends" using k(1) pair(1) len by simp
  then obtain it where it: "it \<in> set its" "it_now it = fst (sends ! k)"
    "sendState marshal True (it_dial it) (it_write it) (it_now it) (it_state it) = Some (snd (ds ! k))"
    unfolding assms(3) using sendStateLoop_sent by blast
  have late: "asked \<le> it_now it + 5 * second"
  proof (cases "Suc k < length ds")
    case True
    with assms(4) len have "fst (sends ! Suc k) \<le> fst (sends ! k) + 4 * second" by (simp add: successively_conv_nth)
    with pair(3) [OF True] k(4) [OF True] it(2) show ?thesis by simp
  next
    case False
    with k(1) len have "last sends = sends ! k" by (metis last_conv_nth length_0_conv less_antisym not_less_zero diff_Suc_1 Suc_lessI)
    with assms(8) it(2) show ?thesis by simp
  qed
  then have "fst (ready_handler asked (receive unmarshal (fst (ds ! k)) (snd (ds ! k)) (readLoop unmarshal (take k ds) p)))
      = (if state_down (it_state it) ''mosdns'' \<or> state_down (it_state it) ''doh_bridge'' then 503 else 200)"
    by (intro received_status [OF assms(1) it(3)]) (use assms(2) it(1,2) pair(2) [OF k(1)] in auto)
  then show ?thesis
    using it late k pair(2) [OF k(1)] readLoop_snoc [of unmarshal "take k ds" "fst (ds ! k)" "snd (ds ! k)" p] by force
qed

theorem heartbeat_keeps_current_witness:
  "fst (ready_handler (6 * second) (readLoop (\<lambda>_. Some (state_snapshot (2 * second) newRuntimeState)) [(3 * second, ''s'')]
     \<lparr>sp_snapshot = zero_snapshot, sp_receivedAt = zero_time, sp_socketPath = ''s''\<rparr>)) = 503"
proof -
  define it where "it = \<lparr>it_now = 2 * second, it_state = newRuntimeState, it_dial = True, it_write = True, it_done = True\<rparr>"
  have d: "state_down newRuntimeState ''mosdns''"
    by (simp add: state_down_def newRuntimeState_def zero_component_def)
  have "sendStateLoop (sample_marshal (state_snapshot (2 * second) newRuntimeState)) [it] = [(2 * second, ''s'')]"
    by (simp add: it_def sample_send)
  from heartbeat_keeps_current [OF sample_roundtrip _ this [symmetric], where ds = "[(3 * second, ''s'')]"
      and asked = "6 * second" and p = "\<lparr>sp_snapshot = zero_snapshot, sp_receivedAt = zero_time, sp_socketPath = ''s''\<rparr>"]
  show ?thesis using d by (simp add: it_def arrived_def second_def)
qed

section \<open>From a bridge failure to the health check\<close>

lemma bridge_enabled_run:
  "k_enabled (the_or zero_component (rs_components s ''doh_bridge'')) \<Longrightarrow>
     k_enabled (the_or zero_component (rs_components (snd (bridge_run es (b, s))) ''doh_bridge''))"
proof (induction es arbitrary: b s)
  case (Cons e es)
  have "k_enabled (the_or zero_component (rs_components (snd (bridge_event_step e (b, s))) ''doh_bridge''))"
    using Cons.prems by (cases e) (auto simp: state_update_def set_up_def the_or_def)
  with Cons.IH [of "snd (bridge_event_step e (b, s))" "fst (bridge_event_step e (b, s))"] show ?case by simp
qed simp



section \<open>From a query to the exported counters\<close>

lemma resolver_accounting:
  assumes "call_ok x" "u_observed (w_upstreams w ! j)"
  shows "d_requests (stats_of name (w_state (fst (upstream_resolver j x q w))))
      = d_requests (stats_of name (w_state w)) + (if name = u_tag (w_upstreams w ! j) then 1 else 0)"
    and "d_successes (stats_of name (w_state (fst (upstream_resolver j x q w))))
      = d_successes (stats_of name (w_state w))
        + (if name = u_tag (w_upstreams w ! j) \<and> resolves (x, c) q (w_upstreams w ! j) \<noteq> None then 1 else 0)"
proof -
  obtain u' r obs where e: "doh_exchange x q (w_upstreams w ! j) = (u', r, obs)"
    by (cases "doh_exchange x q (w_upstreams w ! j)") auto
  from doh_exchange_obs [OF e assms] obtain res d t now where
    o: "obs = [(u_tag (w_upstreams w ! j), res, d, t, now)]" "res = dohSuccess \<longleftrightarrow> (\<exists>m. r = Inr m)" by blast
  have w: "w_state (fst (upstream_resolver j x q w)) = observeDoHUpstream (u_tag (w_upstreams w ! j)) res d t now (w_state w)"
    by (simp add: upstream_resolver_def e o)
  have s: "resolves (x, c) q (w_upstreams w ! j) \<noteq> None \<longleftrightarrow> res = dohSuccess"
    using o(2) by (cases r) (auto simp: resolves_def e)
  show "d_requests (stats_of name (w_state (fst (upstream_resolver j x q w))))
      = d_requests (stats_of name (w_state w)) + (if name = u_tag (w_upstreams w ! j) then 1 else 0)"
    "d_successes (stats_of name (w_state (fst (upstream_resolver j x q w))))
      = d_successes (stats_of name (w_state w))
        + (if name = u_tag (w_upstreams w ! j) \<and> resolves (x, c) q (w_upstreams w ! j) \<noteq> None then 1 else 0)"
    unfolding w s by (cases "name = u_tag (w_upstreams w ! j)"; simp add: stats_of_observe stats_of_observe_other)+
qed

lemma failover_requests:
  assumes "k \<le> length (w_upstreams w)" "\<forall>j<k. call_ok (fst (calls ! j)) \<and> u_observed (w_upstreams w ! j)"
    and "distinct (map u_tag (w_upstreams w))"
  shows "d_requests (stats_of name (w_state (world_at calls q w k)))
    = d_requests (stats_of name (w_state w)) + (if name \<in> u_tag ` set (take k (w_upstreams w)) then 1 else 0)"
  using assms(1,2)
proof (induction k)
  case (Suc k)
  let ?us = "w_upstreams w"
  have u: "w_upstreams (world_at calls q w k) ! k = ?us ! k" by (rule world_at_frame(2)) simp
  have tk: "set (take (Suc k) ?us) = insert (?us ! k) (set (take k ?us))"
    using Suc.prems(1) by (simp add: take_Suc_conv_app_nth)
  have fresh: "u_tag (?us ! k) \<notin> u_tag ` set (take k ?us)"
  proof
    assume "u_tag (?us ! k) \<in> u_tag ` set (take k ?us)"
    then obtain j where "j < k" "u_tag (?us ! j) = u_tag (?us ! k)" using Suc.prems(1) by (auto simp: in_set_conv_nth)
    with assms(3) Suc.prems(1) show False by (auto simp: distinct_conv_nth)
  qed
  have "d_requests (stats_of name (w_state (world_at calls q w (Suc k))))
      = d_requests (stats_of name (w_state (world_at calls q w k))) + (if name = u_tag (?us ! k) then 1 else 0)"
    using resolver_accounting(1) [of "fst (calls ! k)" "world_at calls q w k" k name q] Suc.prems(2) u by simp
  with Suc.IH Suc.prems fresh tk show ?case by auto
qed simp

lemma failover_successes:
  assumes "\<forall>j<k. call_ok (fst (calls ! j)) \<and> u_observed (w_upstreams w ! j) \<and> resolves (calls ! j) q (w_upstreams w ! j) = None"
  shows "d_successes (stats_of name (w_state (world_at calls q w k))) = d_successes (stats_of name (w_state w))"
  using assms
proof (induction k)
  case (Suc k)
  have "w_upstreams (world_at calls q w k) ! k = w_upstreams w ! k" by (rule world_at_frame(2)) simp
  with Suc resolver_accounting(2) [of "fst (calls ! k)" "world_at calls q w k" k name q "snd (calls ! k)"]
  show ?case by simp
qed simp

text \<open>
  Property C6.  A query that the \<open>i\<close>-th provider answers leaves exact traces in the exported counters:
  one request for each provider up to and including the \<open>i\<close>-th, none for the later ones, and one
  success, for the \<open>i\<close>-th alone.
\<close>

theorem query_accounting:
  assumes "i < length calls" "length calls = length (w_upstreams w)" "distinct (map u_tag (w_upstreams w))"
    and "\<forall>j\<le>i. call_ok (fst (calls ! j)) \<and> u_observed (w_upstreams w ! j)"
    and "resolves (calls ! i) q (w_upstreams w ! i) = Some answer"
    and "\<forall>j<i. resolves (calls ! j) q (w_upstreams w ! j) = None \<and> snd (calls ! j) = None"
    and "s' = w_state (fst (fst (ServeDNS setRcode (bridge_resolvers calls) now q (w, b))))"
  shows "d_requests (stats_of name s')
      = d_requests (stats_of name (w_state w)) + (if name \<in> u_tag ` set (take (Suc i) (w_upstreams w)) then 1 else 0)
    \<and> d_successes (stats_of name s')
      = d_successes (stats_of name (w_state w)) + (if name = u_tag (w_upstreams w ! i) then 1 else 0)"
proof -
  have "serve_loop (bridge_resolvers calls) q None w = (world_at calls q w (Suc i), Some answer, None)"
    using assms by (intro bridge_success) auto
  then have s': "s' = w_state (world_at calls q w (Suc i))" by (simp add: assms(7) ServeDNS_def)
  have u: "w_upstreams (world_at calls q w i) ! i = w_upstreams w ! i" by (rule world_at_frame(2)) simp
  have "d_successes (stats_of name s') = d_successes (stats_of name (w_state (world_at calls q w i)))
      + (if name = u_tag (w_upstreams w ! i) then 1 else 0)"
    using resolver_accounting(2) [of "fst (calls ! i)" "world_at calls q w i" i name q "snd (calls ! i)"] assms(4,5) u
    by (simp add: s')
  then show ?thesis
    using failover_requests [of "Suc i" w calls name q] failover_successes [of i calls w q name] assms
    by (simp add: s' less_Suc_eq_le)
qed

definition observed_world :: doh_world where
  "observed_world = \<lparr>w_upstreams = map (u_observed_update (\<lambda>_. True)) directDoHUpstreams, w_state = newRuntimeState\<rparr>"

lemma observed_resolves:
  "resolves (plain_call dead_net, None) empty_query (w_upstreams observed_world ! 0) = None"
  "resolves (plain_call echo_net, None) empty_query (w_upstreams observed_world ! 1) \<noteq> None"
  by (simp_all add: observed_world_def resolves_def doh_exchange_def doh_acquire_def directDoHUpstreams_def newDoHUpstream_def
      newDoHUpstreamWithResolver_def exchangeOnce_def dead_net_def echo_net_def plain_call_def Let_def
      empty_query_def probe_query_def read_limited_def dns_MaxMsgSize_def)

theorem query_accounting_witness:
  "d_successes (stats_of ''360'' (w_state (fst (fst (ServeDNS reply_rcode
     (bridge_resolvers [(plain_call dead_net, None), (plain_call echo_net, None)]) (5, 5) empty_query (observed_world, idle_bridge)))))) = 1"
proof -
  define calls where "calls = [(plain_call dead_net, None :: goerr option), (plain_call echo_net, None)]"
  obtain answer where a: "resolves (calls ! 1) empty_query (w_upstreams observed_world ! 1) = Some answer"
    using observed_resolves(2) by (auto simp: calls_def)
  have us: "length (w_upstreams observed_world) = 2" "map u_tag (w_upstreams observed_world) = [''cloudflare'', ''360'']"
    "\<forall>j\<le>1. u_observed (w_upstreams observed_world ! j)" "u_tag (w_upstreams observed_world ! 1) = ''360''"
    by (simp_all add: observed_world_def directDoHUpstreams_def newDoHUpstream_def newDoHUpstreamWithResolver_def le_Suc_eq)
  have z: "d_successes (stats_of ''360'' (w_state observed_world)) = 0"
    by (simp add: observed_world_def zero_stats_def)
  have "\<forall>j\<le>1. call_ok (fst (calls ! j)) \<and> u_observed (w_upstreams observed_world ! j)"
    using us(3) by (auto simp: calls_def le_Suc_eq)
  moreover have "\<forall>j<1. resolves (calls ! j) empty_query (w_upstreams observed_world ! j) = None \<and> snd (calls ! j) = None"
    using observed_resolves(1) by (simp add: calls_def)
  ultimately show ?thesis
    using query_accounting [of 1 calls observed_world empty_query answer _ reply_rcode "(5, 5)" idle_bridge "''360''"] a us z
    by (simp add: calls_def)
qed

end
